(* ===== verification/Prelude.thy ===== *)
theory Prelude
  imports Main "HOL-Library.Word"
begin

text \<open>
  Shared vocabulary of the development: the machine integer types of
  \<^verbatim>\<open>src/include/types.h\<close>, the error numbers of \<^verbatim>\<open>src/include/errno.h\<close>, the
  result type in which every stop of the code is a value, and generic lemmas on lists and
  words.

  The code stops in three ways that are not a return value: a failed \<^verbatim>\<open>BUG_ON\<close>,
  \<^verbatim>\<open>BUG\<close> or \<^verbatim>\<open>assert\<close>; an access outside an array or a string buffer; the use of
  a \<^verbatim>\<open>NULL\<close> or an \<^verbatim>\<open>ERR_PTR\<close> pointer as an object.  Operations that can reach
  one of them return a value of type \<open>'a result\<close>, whose left summand names the stop.
\<close>

unbundle bit_operations_syntax

type_synonym u8 = "8 word"
type_synonym u16 = "16 word"
type_synonym u32 = "32 word"
type_synonym u64 = "64 word"

datatype fault = Bug | OutOfBounds | BadPointer

type_synonym 'a result = "fault + 'a"

abbreviation Ok :: "'a \<Rightarrow> 'a result" where
  "Ok x \<equiv> Inr x"

abbreviation Stop :: "fault \<Rightarrow> 'a result" where
  "Stop f \<equiv> Inl f"

definition bindR :: "'a result \<Rightarrow> ('a \<Rightarrow> 'b result) \<Rightarrow> 'b result" where
  "bindR r f = (case r of Inl e \<Rightarrow> Inl e | Inr x \<Rightarrow> f x)"

lemma bindR_simps [simp]:
  "bindR (Inl e) f = Inl e"
  "bindR (Inr x) f = f x"
  by (simp_all add: bindR_def)

lemma bindR_eq_Ok: "bindR r f = Ok y \<longleftrightarrow> (\<exists>x. r = Ok x \<and> f x = Ok y)"
  by (cases r) auto

lemma bindR_eq_Stop: "bindR r f = Stop e \<longleftrightarrow> r = Stop e \<or> (\<exists>x. r = Ok x \<and> f x = Stop e)"
  by (cases r) auto

lemma bindR_assoc: "bindR (bindR r f) g = bindR r (\<lambda>x. bindR (f x) g)"
  by (cases r) auto

definition BUG_ON :: "bool \<Rightarrow> unit result" where
  "BUG_ON b = (if b then Stop Bug else Ok ())"

lemma BUG_ON_simps [simp]:
  "BUG_ON False = Ok ()"
  "BUG_ON True = Stop Bug"
  "BUG_ON b = Ok () \<longleftrightarrow> \<not> b"
  by (simp_all add: BUG_ON_def)

section \<open>Error numbers\<close>

text \<open>
  Functions that return \<^verbatim>\<open>int\<close> give 0 or a negated error number; functions that return
  a pointer give the pointer or \<^verbatim>\<open>ERR_PTR\<close> of a negated error number.  In the models
  the first kind returns \<open>errno option\<close> (\<open>None\<close> is the 0) and the second
  \<open>errno + 'a\<close>; the encoding itself, on 64-bit pointers, is the one below.
\<close>

datatype errno = ENOMEM | EBUSY | EAGAIN | EINVAL | EEXIST | ENOENT | ESUBENOENT | EUCHECK
  | EFAULT | EPERM | ECORRUPT | EIO

fun errno_num :: "errno \<Rightarrow> nat" where
  "errno_num ENOMEM = 1"
| "errno_num EBUSY = 2"
| "errno_num EAGAIN = 3"
| "errno_num EINVAL = 4"
| "errno_num EEXIST = 5"
| "errno_num ENOENT = 6"
| "errno_num ESUBENOENT = 7"
| "errno_num EUCHECK = 8"
| "errno_num EFAULT = 9"
| "errno_num EPERM = 10"
| "errno_num ECORRUPT = 11"
| "errno_num EIO = 12"

definition PTR_ERR :: "u64 \<Rightarrow> int" where
  "PTR_ERR p = sint p"

definition ERR_PTR :: "int \<Rightarrow> u64" where
  "ERR_PTR err = word_of_int err"

definition IS_ERR :: "u64 \<Rightarrow> bool" where
  "IS_ERR p \<longleftrightarrow> - 1024 < PTR_ERR p \<and> PTR_ERR p < 0"

text \<open>\<^verbatim>\<open>errstrings\<close>, indexed by the (positive) error number.\<close>

definition errstrings :: "string list" where
  "errstrings =
    [''Success'', ''Out of memory'', ''Resource busy'', ''Try again'', ''Invalid argument'',
     ''File already exists'', ''No such file'', ''?'', ''?'', ''Invalid memory reference'',
     ''Permission denied'', ''Curruption detected'', ''I/O error'']"

lemma errno_num_bounds: "0 < errno_num e" "errno_num e < length errstrings"
  by (cases e; simp add: errstrings_def)+

lemma errno_num_inj: "errno_num a = errno_num b \<longleftrightarrow> a = b"
  by (cases a; cases b; simp)

section \<open>Generic list facts\<close>

named_theorems list_facts \<open>list rewriting shared by the components\<close>

lemma hd_tl_Cons_conv [list_facts]: "xs \<noteq> [] \<Longrightarrow> hd xs # tl xs = xs"
  by simp

lemma nth_list_update_if [list_facts]:
  "j < length xs \<Longrightarrow> xs[i := v] ! j = (if i = j then v else xs ! j)"
  by (simp add: nth_list_update)

lemma remove1_middle [list_facts]: "x \<notin> set as \<Longrightarrow> remove1 x (as @ x # bs) = as @ bs"
  by (simp add: remove1_append)

section \<open>Generic word facts\<close>

lemma unat_ucast_up:
  assumes "LENGTH('a) \<le> LENGTH('b)"
  shows "unat (ucast (x :: 'a::len word) :: 'b::len word) = unat x"
proof -
  have "unat x < 2 ^ LENGTH('b)"
    by (rule less_le_trans [OF unsigned_less]) (use assms in \<open>simp add: power_increasing\<close>)
  then show ?thesis by (simp add: unsigned_ucast_eq take_bit_nat_eq_self)
qed

lemma unat_ucast_16_64 [simp]: "unat (ucast (x :: u16) :: u64) = unat x"
  by (rule unat_ucast_up) simp

lemma unat_ucast_32_64 [simp]: "unat (ucast (x :: u32) :: u64) = unat x"
  by (rule unat_ucast_up) simp

lemma unat_ucast_16_32 [simp]: "unat (ucast (x :: u16) :: u32) = unat x"
  by (rule unat_ucast_up) simp

lemma unat_ucast_8_32 [simp]: "unat (ucast (x :: u8) :: u32) = unat x"
  by (rule unat_ucast_up) simp

lemma unat_of_nat_small: "n < 2 ^ LENGTH('a) \<Longrightarrow> unat (of_nat n :: 'a::len word) = n"
  by (simp add: unat_of_nat)

lemma unat_ucast_8_64 [simp]: "unat (ucast (x :: u8) :: u64) = unat x"
  by (rule unat_ucast_up) simp

lemma unat_ucast_8_16 [simp]: "unat (ucast (x :: u8) :: u16) = unat x"
  by (rule unat_ucast_up) simp

lemma not_bit_below_exp: "d < 2 ^ n \<Longrightarrow> n \<le> k \<Longrightarrow> \<not> bit (d :: nat) k"
proof -
  assume "d < 2 ^ n" "n \<le> k"
  then have "d < 2 ^ k" by (meson less_le_trans one_le_numeral power_increasing)
  then show ?thesis by (simp add: bit_iff_odd)
qed

text \<open>Appending a digit of \<open>n\<close> bits to a number by shift and or.\<close>

lemma push_bit_or_of_nat:
  assumes "d < 2 ^ n"
  shows "push_bit n v OR of_nat d = 2 ^ n * v + (of_nat d :: 'a::len word)"
proof -
  have "push_bit n v AND of_nat d = (0 :: 'a word)"
    by (rule bit_word_eqI)
      (use not_bit_below_exp [OF assms] in \<open>auto simp: bit_and_iff bit_push_bit_iff bit_of_nat_iff\<close>)
  then show ?thesis by (simp add: disjunctive_add_eq_or [symmetric] push_bit_eq_mult mult.commute)
qed

end
