(* ===== verification/Linked_List.thy ===== *)
theory Linked_List
  imports Prelude
begin

text \<open>
  The intrusive doubly linked lists of \<^verbatim>\<open>src/include/list.h\<close>, on an explicit store.
  A \<^verbatim>\<open>struct list_head *\<close> is an address; the store maps each address to the pair of
  pointers kept there.  Every operation is the sequence of pointer writes of the C function,
  in its order.  The predicate \<open>dlist h head xs\<close> says that the circular list anchored at
  \<open>head\<close> holds the nodes \<open>xs\<close> in this order, and the lemmas show that each operation is
  the list operation its comment promises, whatever aliasing the empty list brings, and that
  it leaves disjoint lists alone.  The other theories rest on these lemmas where they model a
  \<^verbatim>\<open>list_head\<close> as a HOL list.
\<close>

type_synonym lptr = u64

record list_head =
  nxt :: lptr
  prv :: lptr

type_synonym store = "lptr \<Rightarrow> list_head"

definition set_next :: "lptr \<Rightarrow> lptr \<Rightarrow> store \<Rightarrow> store" where
  "set_next p v h = h(p := (h p)\<lparr>nxt := v\<rparr>)"

definition set_prev :: "lptr \<Rightarrow> lptr \<Rightarrow> store \<Rightarrow> store" where
  "set_prev p v h = h(p := (h p)\<lparr>prv := v\<rparr>)"

section \<open>The operations\<close>

definition LIST_POISON1 :: lptr where "LIST_POISON1 = 0x8585858585858585"
definition LIST_POISON2 :: lptr where "LIST_POISON2 = 0x8686868686868686"

definition INIT_LIST_HEAD :: "lptr \<Rightarrow> store \<Rightarrow> store" where
  "INIT_LIST_HEAD l h = (let h = set_next l l h in set_prev l l h)"

definition list_add_between :: "lptr \<Rightarrow> lptr \<Rightarrow> lptr \<Rightarrow> store \<Rightarrow> store" where
  "list_add_between new p n h =
     (let h = set_prev n new h;
          h = set_next new n h;
          h = set_prev new p h
      in set_next p new h)"

definition list_add :: "lptr \<Rightarrow> lptr \<Rightarrow> store \<Rightarrow> store" where
  "list_add new head h = list_add_between new head (nxt (h head)) h"

definition list_add_tail :: "lptr \<Rightarrow> lptr \<Rightarrow> store \<Rightarrow> store" where
  "list_add_tail new head h = list_add_between new (prv (h head)) head h"

definition list_del_between :: "lptr \<Rightarrow> lptr \<Rightarrow> store \<Rightarrow> store" where
  "list_del_between p n h = (let h = set_prev n p h in set_next p n h)"

definition list_del :: "lptr \<Rightarrow> store \<Rightarrow> store" where
  "list_del e h =
     (let h = list_del_between (prv (h e)) (nxt (h e)) h;
          h = set_next e LIST_POISON1 h
      in set_prev e LIST_POISON2 h)"

definition list_replace :: "lptr \<Rightarrow> lptr \<Rightarrow> store \<Rightarrow> store" where
  "list_replace old new h =
     (let h = set_next new (nxt (h old)) h;
          h = set_prev (nxt (h new)) new h;
          h = set_prev new (prv (h old)) h
      in set_next (prv (h new)) new h)"

definition list_replace_init :: "lptr \<Rightarrow> lptr \<Rightarrow> store \<Rightarrow> store" where
  "list_replace_init old new h = INIT_LIST_HEAD old (list_replace old new h)"

definition list_del_init :: "lptr \<Rightarrow> store \<Rightarrow> store" where
  "list_del_init e h = INIT_LIST_HEAD e (list_del_between (prv (h e)) (nxt (h e)) h)"

definition list_move :: "lptr \<Rightarrow> lptr \<Rightarrow> store \<Rightarrow> store" where
  "list_move l head h = list_add l head (list_del_between (prv (h l)) (nxt (h l)) h)"

definition list_move_tail :: "lptr \<Rightarrow> lptr \<Rightarrow> store \<Rightarrow> store" where
  "list_move_tail l head h = list_add_tail l head (list_del_between (prv (h l)) (nxt (h l)) h)"

definition list_is_last :: "lptr \<Rightarrow> lptr \<Rightarrow> store \<Rightarrow> bool" where
  "list_is_last l head h \<longleftrightarrow> nxt (h l) = head"

definition list_empty :: "lptr \<Rightarrow> store \<Rightarrow> bool" where
  "list_empty head h \<longleftrightarrow> nxt (h head) = head"

definition list_empty_careful :: "lptr \<Rightarrow> store \<Rightarrow> bool" where
  "list_empty_careful head h \<longleftrightarrow> (let n = nxt (h head) in n = head \<and> n = prv (h head))"

definition list_splice_between :: "lptr \<Rightarrow> lptr \<Rightarrow> store \<Rightarrow> store" where
  "list_splice_between l head h =
     (let first = nxt (h l);
          last = prv (h l);
          at = nxt (h head);
          h = set_prev first head h;
          h = set_next head first h;
          h = set_next last at h
      in set_prev at last h)"

definition list_splice :: "lptr \<Rightarrow> lptr \<Rightarrow> store \<Rightarrow> store" where
  "list_splice l head h = (if \<not> list_empty l h then list_splice_between l head h else h)"

definition list_splice_tail :: "lptr \<Rightarrow> lptr \<Rightarrow> store \<Rightarrow> store" where
  "list_splice_tail l head h =
     (if \<not> list_empty l h then list_splice_between l (prv (h head)) h else h)"

definition list_splice_init :: "lptr \<Rightarrow> lptr \<Rightarrow> store \<Rightarrow> store" where
  "list_splice_init l head h =
     (if \<not> list_empty l h then INIT_LIST_HEAD l (list_splice_between l head h) else h)"

definition list_splice_tail_init :: "lptr \<Rightarrow> lptr \<Rightarrow> store \<Rightarrow> store" where
  "list_splice_tail_init l head h =
     (if \<not> list_empty l h then INIT_LIST_HEAD l (list_splice_between l (prv (h head)) h) else h)"

definition list_first_entry :: "lptr \<Rightarrow> store \<Rightarrow> lptr" where
  "list_first_entry head h = nxt (h head)"

definition list_last_entry :: "lptr \<Rightarrow> store \<Rightarrow> lptr" where
  "list_last_entry head h = prv (h head)"

text \<open>
  The iteration macros visit the nodes from \<open>pos\<close> on until the head is reached again; on a
  store that is no well-formed list they need not stop, which is \<open>None\<close>.  The body of the
  loop is not part of the macro: the model collects the nodes it is run on, for a body that
  leaves the links alone.
\<close>

partial_function (option) visit_from :: "lptr \<Rightarrow> lptr \<Rightarrow> store \<Rightarrow> lptr list option" where
  "visit_from pos head h =
     (if pos = head then Some []
      else Option.bind (visit_from (nxt (h pos)) head h) (\<lambda>ps. Some (pos # ps)))"

definition list_for_each_entry :: "lptr \<Rightarrow> store \<Rightarrow> lptr list option" where
  "list_for_each_entry head h = visit_from (nxt (h head)) head h"

partial_function (option) visit_back_from :: "lptr \<Rightarrow> lptr \<Rightarrow> store \<Rightarrow> lptr list option" where
  "visit_back_from pos head h =
     (if pos = head then Some []
      else Option.bind (visit_back_from (prv (h pos)) head h) (\<lambda>ps. Some (pos # ps)))"

definition list_for_each_entry_reverse :: "lptr \<Rightarrow> store \<Rightarrow> lptr list option" where
  "list_for_each_entry_reverse head h = visit_back_from (prv (h head)) head h"

section \<open>What the store represents\<close>

fun chain :: "store \<Rightarrow> lptr \<Rightarrow> lptr list \<Rightarrow> lptr \<Rightarrow> bool" where
  "chain h a [] b \<longleftrightarrow> nxt (h a) = b \<and> prv (h b) = a"
| "chain h a (x # xs) b \<longleftrightarrow> nxt (h a) = x \<and> prv (h x) = a \<and> chain h x xs b"

definition dlist :: "store \<Rightarrow> lptr \<Rightarrow> lptr list \<Rightarrow> bool" where
  "dlist h head xs \<longleftrightarrow> distinct (head # xs) \<and> chain h head xs head"

named_theorems link_facts \<open>the pointers of a store after one operation\<close>

lemma set_links [link_facts, simp]:
  "nxt (set_next p v h q) = (if q = p then v else nxt (h q))"
  "prv (set_next p v h q) = prv (h q)"
  "nxt (set_prev p v h q) = nxt (h q)"
  "prv (set_prev p v h q) = (if q = p then v else prv (h q))"
  by (simp_all add: set_next_def set_prev_def)

lemma init_links [link_facts]:
  "nxt (INIT_LIST_HEAD l h q) = (if q = l then l else nxt (h q))"
  "prv (INIT_LIST_HEAD l h q) = (if q = l then l else prv (h q))"
  by (simp_all add: INIT_LIST_HEAD_def Let_def)

lemma add_between_links [link_facts]:
  "nxt (list_add_between new p n h q) = (if q = p then new else if q = new then n else nxt (h q))"
  "prv (list_add_between new p n h q) = (if q = new then p else if q = n then new else prv (h q))"
  by (simp_all add: list_add_between_def Let_def)

lemma del_between_links [link_facts]:
  "nxt (list_del_between p n h q) = (if q = p then n else nxt (h q))"
  "prv (list_del_between p n h q) = (if q = n then p else prv (h q))"
  by (simp_all add: list_del_between_def Let_def)

lemma del_links [link_facts]:
  "nxt (list_del e h q) = (if q = e then LIST_POISON1
     else if q = prv (h e) then nxt (h e) else nxt (h q))"
  "prv (list_del e h q) = (if q = e then LIST_POISON2
     else if q = nxt (h e) then prv (h e) else prv (h q))"
  by (simp_all add: list_del_def Let_def del_between_links)

lemma splice_between_links [link_facts]:
  "nxt (list_splice_between l head h q) =
     (if q = prv (h l) then nxt (h head) else if q = head then nxt (h l) else nxt (h q))"
  "prv (list_splice_between l head h q) =
     (if q = nxt (h head) then prv (h l) else if q = nxt (h l) then head else prv (h q))"
  by (simp_all add: list_splice_between_def Let_def)

lemma chain_append [simp]: "chain h a (xs @ m # ys) b \<longleftrightarrow> chain h a xs m \<and> chain h m ys b"
  by (induction xs arbitrary: a) auto

lemma chain_cong:
  assumes "\<And>p. p \<in> insert a (set xs) \<Longrightarrow> nxt (h' p) = nxt (h p)"
    and "\<And>p. p \<in> insert b (set xs) \<Longrightarrow> prv (h' p) = prv (h p)"
  shows "chain h' a xs b = chain h a xs b"
  using assms by (induction xs arbitrary: a) auto

text \<open>The first and last links of a list, whether or not it is empty.\<close>

lemma chain_ends:
  "chain h a xs b \<Longrightarrow> nxt (h a) = hd (xs @ [b])"
  "chain h a xs b \<Longrightarrow> prv (h b) = last (a # xs)"
  by (cases xs; simp) (cases xs rule: rev_cases; simp)

lemma dlist_ends:
  "dlist h head xs \<Longrightarrow> nxt (h head) = hd (xs @ [head])"
  "dlist h head xs \<Longrightarrow> prv (h head) = last (head # xs)"
  unfolding dlist_def by (blast dest: chain_ends)+

text \<open>A list is a set of nodes and the links between them: agreeing stores hold the same list.\<close>

lemma dlist_frame:
  assumes "dlist h head xs" and "\<And>p. p \<in> insert head (set xs) \<Longrightarrow> h' p = h p"
  shows "dlist h' head xs"
  using assms chain_cong [of head xs h' h head] by (auto simp: dlist_def)

lemma dlist_unique: "dlist h head xs \<Longrightarrow> dlist h head ys \<Longrightarrow> xs = ys"
proof -
  have "chain h a xs b \<Longrightarrow> chain h a ys b \<Longrightarrow> b \<notin> set xs \<Longrightarrow> b \<notin> set ys \<Longrightarrow> xs = ys" for a b
  proof (induction xs arbitrary: a ys)
    case Nil
    then show ?case by (cases ys) auto
  next
    case (Cons x xs)
    then show ?case by (cases ys) auto
  qed
  then show "dlist h head xs \<Longrightarrow> dlist h head ys \<Longrightarrow> xs = ys"
    unfolding dlist_def by auto
qed

section \<open>Each operation is a list operation\<close>

lemma dlist_init: "dlist (INIT_LIST_HEAD l h) l []"
  by (simp add: dlist_def init_links)

lemma dlist_empty_iff: "dlist h head xs \<Longrightarrow> list_empty head h \<longleftrightarrow> xs = []"
  by (cases xs) (auto simp: dlist_def list_empty_def)

lemma dlist_empty_careful_iff: "dlist h head xs \<Longrightarrow> list_empty_careful head h \<longleftrightarrow> xs = []"
  by (cases xs) (auto simp: dlist_def list_empty_careful_def)

lemma dlist_is_last_iff:
  assumes "dlist h head xs" and "p \<in> set xs"
  shows "list_is_last p head h \<longleftrightarrow> p = last xs"
proof -
  from assms(2) obtain as bs where xs: "xs = as @ p # bs" by (auto dest: split_list)
  show ?thesis
    using assms(1) unfolding xs by (cases bs) (auto simp: dlist_def list_is_last_def)
qed

lemma dlist_add:
  assumes "dlist h head xs" and "new \<notin> insert head (set xs)"
  shows "dlist (list_add new head h) head (new # xs)"
proof (cases xs)
  case Nil
  with assms show ?thesis by (auto simp: dlist_def list_add_def add_between_links)
next
  case (Cons y ys)
  let ?h = "list_add new head h"
  have "chain ?h y ys head = chain h y ys head"
    using assms Cons by (intro chain_cong) (auto simp: dlist_def list_add_def add_between_links)
  with assms Cons show ?thesis
    by (auto simp: dlist_def list_add_def add_between_links)
qed

lemma dlist_add_tail:
  assumes "dlist h head xs" and "new \<notin> insert head (set xs)"
  shows "dlist (list_add_tail new head h) head (xs @ [new])"
proof (cases xs rule: rev_cases)
  case Nil
  with assms show ?thesis by (auto simp: dlist_def list_add_tail_def add_between_links)
next
  case (snoc zs z)
  let ?h = "list_add_tail new head h"
  have "chain ?h head zs z = chain h head zs z"
    using assms snoc
    by (intro chain_cong) (auto simp: dlist_def list_add_tail_def add_between_links)
  with assms snoc show ?thesis
    by (auto simp: dlist_def list_add_tail_def add_between_links)
qed

lemma dlist_del_between:
  assumes "dlist h head (as @ e # bs)"
  shows "dlist (list_del_between (prv (h e)) (nxt (h e)) h) head (as @ bs)"
proof -
  let ?h = "list_del_between (prv (h e)) (nxt (h e)) h"
  from assms have e: "prv (h e) = last (head # as)" "nxt (h e) = hd (bs @ [head])"
    by (auto simp: dlist_def dest: chain_ends)
  show ?thesis
  proof (cases as rule: rev_cases)
    case Nil
    show ?thesis
    proof (cases bs)
      case (Cons c cs)
      then have "chain ?h c cs head = chain h c cs head"
        using assms Nil e by (intro chain_cong) (auto simp: dlist_def del_between_links)
      with assms Nil Cons e show ?thesis by (auto simp: dlist_def del_between_links)
    qed (use assms Nil e in \<open>auto simp: dlist_def del_between_links\<close>)
  next
    case (snoc zs z)
    have front: "chain ?h head zs z = chain h head zs z"
      using assms snoc e
      by (intro chain_cong) (cases bs; auto simp: dlist_def del_between_links)+
    show ?thesis
    proof (cases bs)
      case (Cons c cs)
      then have "chain ?h c cs head = chain h c cs head"
        using assms snoc e by (intro chain_cong) (auto simp: dlist_def del_between_links)
      with assms snoc Cons e front show ?thesis by (auto simp: dlist_def del_between_links)
    qed (use assms snoc e front in \<open>auto simp: dlist_def del_between_links\<close>)
  qed
qed

text \<open>Writes to a node that is not on a list do not change the list.\<close>

lemma dlist_set_outside:
  assumes "dlist h head xs" and "p \<notin> insert head (set xs)"
  shows "dlist (set_next p v h) head xs" and "dlist (set_prev p v h) head xs"
  using assms by (auto intro!: dlist_frame [OF assms(1)] simp: set_next_def set_prev_def)

lemma dlist_del:
  assumes "dlist h head (as @ e # bs)"
  shows "dlist (list_del e h) head (as @ bs)"
proof -
  from assms have "e \<notin> insert head (set (as @ bs))" by (auto simp: dlist_def)
  then show ?thesis
    unfolding list_del_def Let_def
    by (intro dlist_set_outside dlist_del_between assms)
qed

lemma dlist_del_remove1:
  assumes "dlist h head xs" and "e \<in> set xs"
  shows "dlist (list_del e h) head (remove1 e xs)"
proof -
  from assms(2) obtain as bs where xs: "xs = as @ e # bs" "e \<notin> set as"
    by (auto dest: split_list_first)
  with assms(1) show ?thesis by (simp add: dlist_del list_facts)
qed

lemma dlist_del_init:
  assumes "dlist h head (as @ e # bs)"
  shows "dlist (list_del_init e h) head (as @ bs)" and "dlist (list_del_init e h) e []"
proof -
  from assms have e: "e \<notin> insert head (set (as @ bs))" by (auto simp: dlist_def)
  from e show "dlist (list_del_init e h) head (as @ bs)"
    unfolding list_del_init_def INIT_LIST_HEAD_def Let_def
    by (intro dlist_set_outside dlist_del_between [OF assms])
  show "dlist (list_del_init e h) e []"
    by (simp add: list_del_init_def dlist_init)
qed

lemma dlist_move:
  assumes "dlist h head (as @ e # bs)"
  shows "dlist (list_move e head h) head (e # as @ bs)"
    and "dlist (list_move_tail e head h) head (as @ bs @ [e])"
proof -
  note d = dlist_del_between [OF assms]
  have e: "e \<notin> insert head (set (as @ bs))"
    using assms by (auto simp: dlist_def)
  show "dlist (list_move e head h) head (e # as @ bs)"
    using dlist_add [OF d e] by (simp add: list_move_def)
  show "dlist (list_move_tail e head h) head (as @ bs @ [e])"
    using dlist_add_tail [OF d e] by (simp add: list_move_tail_def)
qed

lemma replace_links [link_facts]:
  assumes "new \<noteq> old" and "nxt (h old) \<noteq> new" and "nxt (h old) \<noteq> old" and "prv (h old) \<noteq> new"
  shows "nxt (list_replace old new h q) =
      (if q = prv (h old) then new else if q = new then nxt (h old) else nxt (h q))"
    and "prv (list_replace old new h q) =
      (if q = new then prv (h old) else if q = nxt (h old) then new else prv (h q))"
  using assms by (simp_all add: list_replace_def Let_def)

lemma dlist_replace:
  assumes d: "dlist h head (as @ old # bs)" and new: "new \<notin> insert head (set (as @ old # bs))"
  shows "dlist (list_replace old new h) head (as @ new # bs)"
proof -
  let ?h = "list_replace old new h"
  from d have e: "prv (h old) = last (head # as)" "nxt (h old) = hd (bs @ [head])"
    by (auto simp: dlist_def dest: chain_ends)
  have pm: "prv (h old) \<in> insert head (set as)" using e by (cases as rule: rev_cases) auto
  have s: "new \<noteq> old" "nxt (h old) \<noteq> new" "nxt (h old) \<noteq> old" "prv (h old) \<noteq> new"
    using d new e by (cases bs; auto simp: dlist_def)+
  note links = replace_links [of new old h, OF s]
  have "chain ?h head as new"
  proof (cases as rule: rev_cases)
    case (snoc zs z)
    have "chain ?h head zs z = chain h head zs z"
      using d new snoc e by (intro chain_cong) (cases bs; auto simp: dlist_def links)+
    with d new snoc e show ?thesis by (auto simp: dlist_def links)
  qed (use d new e in \<open>auto simp: dlist_def links\<close>)
  moreover have "chain ?h new bs head"
  proof (cases bs)
    case (Cons c cs)
    have "chain ?h c cs head = chain h c cs head"
      using d new Cons e pm by (intro chain_cong) (auto simp: dlist_def links)
    with d new Cons e show ?thesis by (auto simp: dlist_def links)
  qed (use d new e in \<open>auto simp: dlist_def links\<close>)
  ultimately show ?thesis using d new by (auto simp: dlist_def)
qed

text \<open>A chain whose last link is redirected.\<close>

lemma chain_change_end:
  assumes "chain h a xs b" and "distinct (a # xs)"
    and "\<And>p. p \<in> insert a (set xs) \<Longrightarrow> p \<noteq> last (a # xs) \<Longrightarrow> nxt (h' p) = nxt (h p)"
    and "\<And>p. p \<in> set xs \<Longrightarrow> prv (h' p) = prv (h p)"
    and "nxt (h' (last (a # xs))) = c" and "prv (h' c) = last (a # xs)"
  shows "chain h' a xs c"
  using assms
proof (induction xs arbitrary: a)
  case Nil
  then show ?case by simp
next
  case (Cons x xs)
  have "chain h' x xs c"
    by (rule Cons.IH) (use Cons.prems in \<open>auto split: if_splits\<close>)
  moreover have "a \<noteq> last (x # xs)" using Cons.prems(2) last_in_set [of "x # xs"] by auto
  ultimately show ?case using Cons.prems by auto
qed

text \<open>
  Splicing the list \<open>xs\<close> of \<open>l\<close> in after the node \<open>p\<close>; with \<open>p\<close> the head or the last
  node this is both ends of the destination.
\<close>

lemma chain_splice:
  assumes l: "chain h l xs l" "distinct (l # xs)" "xs \<noteq> []"
    and p: "p = last (head # as)" and d: "distinct (head # as @ bs)"
    and cp: "chain h head as n" and cn: "bs \<noteq> [] \<Longrightarrow> chain h n (tl bs) head" and n: "n = hd (bs @ [head])"
    and pn: "nxt (h p) = n"
    and disj: "insert l (set xs) \<inter> insert head (set (as @ bs)) = {}"
  shows "chain (list_splice_between l p h) head (as @ xs @ bs) head"
proof -
  from l(3) obtain x ts where x: "xs = x # ts" by (cases xs) auto
  define z where "z = last (x # ts)"
  have ends: "nxt (h l) = x" "prv (h l) = z"
    using l(1) chain_ends [OF l(1)] x by (auto simp: z_def)
  have mem: "p \<in> insert head (set as)" "n \<in> insert head (set bs)" "z \<in> insert x (set ts)"
    unfolding p n z_def by (cases as rule: rev_cases; cases bs; auto)+
  note links = splice_between_links [of l p h, unfolded ends pn]
  have apart: "x \<notin> insert head (set as)" "z \<noteq> p" "n \<noteq> x" "p \<noteq> l" "z \<notin> insert head (set as)"
    "n \<notin> set as" "n \<notin> insert x (set ts)" "p \<notin> insert x (set ts)" "head \<notin> insert x (set ts)"
    using disj mem d x by auto
  have front: "chain (list_splice_between l p h) head as x"
  proof (rule chain_change_end [OF cp])
    show "distinct (head # as)" using d by auto
  next
    fix q assume "q \<in> insert head (set as)" "q \<noteq> last (head # as)"
    then show "nxt (list_splice_between l p h q) = nxt (h q)"
      unfolding links p [symmetric] using apart by auto
  next
    fix q assume "q \<in> set as"
    then show "prv (list_splice_between l p h q) = prv (h q)"
      unfolding links using apart by auto
  qed (unfold links p [symmetric], use apart in auto)
  have cx: "chain h x ts l" using l(1) x by simp
  have mid: "chain (list_splice_between l p h) x ts n"
  proof (rule chain_change_end [OF cx])
    show "distinct (x # ts)" using l(2) x by auto
  next
    fix q assume "q \<in> insert x (set ts)" "q \<noteq> last (x # ts)"
    then show "nxt (list_splice_between l p h q) = nxt (h q)"
      unfolding links z_def [symmetric] using apart by auto
  next
    fix q assume "q \<in> set ts"
    moreover have "x \<notin> set ts" using l(2) x by auto
    ultimately show "prv (list_splice_between l p h q) = prv (h q)"
      unfolding links using apart by auto
  qed (unfold links z_def [symmetric], use apart in auto)
  show ?thesis
  proof (cases bs)
    case Nil
    with front mid x n show ?thesis by simp
  next
    case (Cons c cs)
    have "chain (list_splice_between l p h) c cs head = chain h c cs head"
    proof (rule chain_cong)
      fix q assume "q \<in> insert c (set cs)"
      then show "nxt (list_splice_between l p h q) = nxt (h q)"
        unfolding links using disj d mem x Cons by auto
    next
      fix q assume "q \<in> insert head (set cs)"
      then show "prv (list_splice_between l p h q) = prv (h q)"
        unfolding links using disj d n x Cons by auto
    qed
    with cn front mid x n Cons show ?thesis by simp
  qed
qed

lemma dlist_splice:
  assumes l: "dlist h l xs" and d: "dlist h head ys"
    and disj: "insert l (set xs) \<inter> insert head (set ys) = {}"
  shows "dlist (list_splice l head h) head (xs @ ys)"
    and "dlist (list_splice_tail l head h) head (ys @ xs)"
proof -
  have "chain (list_splice_between l head h) head ([] @ xs @ ys) head" if "xs \<noteq> []"
    using l d disj that by (intro chain_splice [where n = "nxt (h head)"]) (cases ys; auto simp: dlist_def)+
  then show "dlist (list_splice l head h) head (xs @ ys)"
    using l d disj dlist_empty_iff [OF l] by (cases "xs = []") (auto simp: list_splice_def dlist_def)
  have "chain (list_splice_between l (prv (h head)) h) head (ys @ xs @ []) head" if "xs \<noteq> []"
    using l d disj that dlist_ends [OF d]
    by (intro chain_splice [where n = head]) (cases ys rule: rev_cases; auto simp: dlist_def)+
  then show "dlist (list_splice_tail l head h) head (ys @ xs)"
    using l d disj dlist_empty_iff [OF l] by (cases "xs = []") (auto simp: list_splice_tail_def dlist_def)
qed

lemma list_splice_init_eq:
  "list_splice_init l head h = (if list_empty l h then h else INIT_LIST_HEAD l (list_splice l head h))"
  "list_splice_tail_init l head h =
     (if list_empty l h then h else INIT_LIST_HEAD l (list_splice_tail l head h))"
  by (simp_all add: list_splice_init_def list_splice_def list_splice_tail_init_def list_splice_tail_def)

lemma dlist_init_outside:
  "dlist h head xs \<Longrightarrow> l \<notin> insert head (set xs) \<Longrightarrow> dlist (INIT_LIST_HEAD l h) head xs"
  unfolding INIT_LIST_HEAD_def Let_def by (intro dlist_set_outside)

lemma dlist_splice_init:
  assumes l: "dlist h l xs" and d: "dlist h head ys"
    and disj: "insert l (set xs) \<inter> insert head (set ys) = {}"
  shows "dlist (list_splice_init l head h) head (xs @ ys)"
    and "dlist (list_splice_tail_init l head h) head (ys @ xs)"
    and "dlist (list_splice_init l head h) l []"
    and "dlist (list_splice_tail_init l head h) l []"
proof -
  have o: "l \<notin> insert head (set (xs @ ys))" "l \<notin> insert head (set (ys @ xs))"
    using l disj by (auto simp: dlist_def)
  note s = dlist_splice [OF l d disj]
  show "dlist (list_splice_init l head h) head (xs @ ys)"
    "dlist (list_splice_tail_init l head h) head (ys @ xs)"
    using dlist_init_outside [OF s(1) o(1)] dlist_init_outside [OF s(2) o(2)] d
      dlist_empty_iff [OF l]
    by (auto simp: list_splice_init_eq)
  show "dlist (list_splice_init l head h) l []" "dlist (list_splice_tail_init l head h) l []"
    using l dlist_empty_iff [OF l] by (auto simp: list_splice_init_eq dlist_init)
qed

section \<open>Iteration\<close>

lemma visit_from_chain:
  "chain h a xs b \<Longrightarrow> b \<notin> set xs \<Longrightarrow> visit_from (nxt (h a)) b h = Some xs"
  by (induction xs arbitrary: a) (subst visit_from.simps; force)+

lemma visit_back_from_chain:
  "chain h a xs b \<Longrightarrow> a \<notin> set xs \<Longrightarrow> visit_back_from (prv (h b)) a h = Some (rev xs)"
  by (induction xs arbitrary: b rule: rev_induct) (subst visit_back_from.simps; force)+

lemma dlist_for_each:
  "dlist h head xs \<Longrightarrow> list_for_each_entry head h = Some xs"
  "dlist h head xs \<Longrightarrow> list_for_each_entry_reverse head h = Some (rev xs)"
  unfolding dlist_def list_for_each_entry_def list_for_each_entry_reverse_def
  by (auto intro: visit_from_chain visit_back_from_chain)

lemma dlist_first_last:
  "dlist h head (x # xs) \<Longrightarrow> list_first_entry head h = x"
  "dlist h head (xs @ [x]) \<Longrightarrow> list_last_entry head h = x"
  by (auto simp: list_first_entry_def list_last_entry_def dest: dlist_ends)

section \<open>The interface the rest of the program uses\<close>

text \<open>
  Clients of \<^verbatim>\<open>list.h\<close> only build lists with \<^verbatim>\<open>INIT_LIST_HEAD\<close>, add at either end,
  take the first entry, delete entries and iterate.  The locale names these operations with
  the laws the clients rely on; what follows for every client is proved once inside it.
\<close>

locale intrusive_list =
  fixes rep :: "'h \<Rightarrow> 'p \<Rightarrow> 'p list \<Rightarrow> bool"
    and init :: "'p \<Rightarrow> 'h \<Rightarrow> 'h"
    and add :: "'p \<Rightarrow> 'p \<Rightarrow> 'h \<Rightarrow> 'h"
    and add_tail :: "'p \<Rightarrow> 'p \<Rightarrow> 'h \<Rightarrow> 'h"
    and del :: "'p \<Rightarrow> 'h \<Rightarrow> 'h"
    and first :: "'p \<Rightarrow> 'h \<Rightarrow> 'p"
    and empty :: "'p \<Rightarrow> 'h \<Rightarrow> bool"
    and iter :: "'p \<Rightarrow> 'h \<Rightarrow> 'p list option"
  assumes rep_init: "rep (init l h) l []"
    and rep_distinct: "rep h head xs \<Longrightarrow> distinct (head # xs)"
    and rep_add: "rep h head xs \<Longrightarrow> p \<notin> insert head (set xs) \<Longrightarrow> rep (add p head h) head (p # xs)"
    and rep_add_tail:
      "rep h head xs \<Longrightarrow> p \<notin> insert head (set xs) \<Longrightarrow> rep (add_tail p head h) head (xs @ [p])"
    and rep_del: "rep h head (as @ p # bs) \<Longrightarrow> rep (del p h) head (as @ bs)"
    and rep_first: "rep h head (x # xs) \<Longrightarrow> first head h = x"
    and rep_empty: "rep h head xs \<Longrightarrow> empty head h \<longleftrightarrow> xs = []"
    and rep_iter: "rep h head xs \<Longrightarrow> iter head h = Some xs"
begin

definition enqueue_all :: "'p \<Rightarrow> 'p list \<Rightarrow> 'h \<Rightarrow> 'h" where
  "enqueue_all head ps h = fold (\<lambda>p. add_tail p head) ps h"

definition push_all :: "'p \<Rightarrow> 'p list \<Rightarrow> 'h \<Rightarrow> 'h" where
  "push_all head ps h = fold (\<lambda>p. add p head) ps h"

fun take_first :: "'p \<Rightarrow> nat \<Rightarrow> 'h \<Rightarrow> 'p list \<times> 'h" where
  "take_first head 0 h = ([], h)"
| "take_first head (Suc n) h =
     (if empty head h then ([], h)
      else let p = first head h; (ps, h') = take_first head n (del p h) in (p # ps, h'))"

lemma enqueue_all_rep:
  "rep h head xs \<Longrightarrow> distinct ps \<Longrightarrow> set ps \<inter> insert head (set xs) = {} \<Longrightarrow>
   rep (enqueue_all head ps h) head (xs @ ps)"
  unfolding enqueue_all_def
proof (induction ps arbitrary: h xs)
  case (Cons p ps)
  then have "rep (add_tail p head h) head (xs @ [p])" by (intro rep_add_tail) auto
  from Cons.IH [OF this] Cons.prems show ?case by auto
qed simp

lemma push_all_rep:
  "rep h head xs \<Longrightarrow> distinct ps \<Longrightarrow> set ps \<inter> insert head (set xs) = {} \<Longrightarrow>
   rep (push_all head ps h) head (rev ps @ xs)"
  unfolding push_all_def
proof (induction ps arbitrary: h xs)
  case (Cons p ps)
  then have "rep (add p head h) head (p # xs)" by (intro rep_add) auto
  from Cons.IH [OF this] Cons.prems show ?case by auto
qed simp

lemma take_first_rep:
  "rep h head xs \<Longrightarrow>
   fst (take_first head n h) = take n xs \<and> rep (snd (take_first head n h)) head (drop n xs)"
proof (induction n arbitrary: h xs)
  case (Suc n)
  show ?case
  proof (cases xs)
    case (Cons y ys)
    then have "rep (del y h) head ys" using rep_del [of h head "[]" y ys] Suc.prems by simp
    from Suc.IH [OF this] Suc.prems Cons show ?thesis
      by (simp add: rep_empty rep_first Let_def split_def)
  qed (use Suc.prems in \<open>simp add: rep_empty\<close>)
qed simp

lemma fifo:
  assumes "distinct ps" and "head \<notin> set ps"
  shows "fst (take_first head (length ps) (enqueue_all head ps (init head h))) = ps"
  using take_first_rep [OF enqueue_all_rep [OF rep_init assms(1)]] assms by simp

lemma iter_after_push:
  assumes "distinct ps" and "head \<notin> set ps"
  shows "iter head (push_all head ps (init head h)) = Some (rev ps)"
  using rep_iter [OF push_all_rep [OF rep_init assms(1)]] assms by simp

end

interpretation klist: intrusive_list dlist INIT_LIST_HEAD list_add list_add_tail list_del
  list_first_entry list_empty list_for_each_entry
  by unfold_locales
    (auto simp: dlist_init dlist_add dlist_add_tail dlist_empty_iff
      dlist_first_last dlist_for_each dlist_del,
     auto simp: dlist_def)

section \<open>Linking an entry twice\<close>

text \<open>A traversal follows a part of a chain whose next pointers are as they were.\<close>

lemma visit_from_prefix:
  assumes "chain h a as x" and "\<And>p. p \<in> insert a (set as) \<Longrightarrow> nxt (h' p) = nxt (h p)" and "c \<notin> set as"
  shows "visit_from (nxt (h' a)) c h' = map_option ((@) as) (visit_from x c h')"
  using assms
proof (induction as arbitrary: a)
  case Nil
  then show ?case by (simp add: option.map_ident)
next
  case (Cons b as)
  have "visit_from b c h' = map_option ((#) b) (visit_from (nxt (h' b)) c h')"
    using Cons.prems(3) by (auto simp: visit_from.simps [of b] map_conv_bind_option comp_def)
  also have "visit_from (nxt (h' b)) c h' = map_option ((@) as) (visit_from x c h')"
    using Cons.prems by (intro Cons.IH) auto
  finally show ?case using Cons.prems(1,2) by (simp add: option.map_comp comp_def)
qed

text \<open>
  Adding an entry at the end of a list it is on already does not move it: the entries that
  were behind it are lost to every traversal.
\<close>

theorem list_add_tail_twice:
  assumes "dlist h head (as @ x # bs)" and "bs \<noteq> []"
  shows "list_for_each_entry head (list_add_tail x head h) = Some (as @ [x])"
proof -
  let ?h = "list_add_tail x head h"
  have ch: "chain h head as x" and d: "distinct (head # as @ x # bs)" using assms(1) by (simp_all add: dlist_def)
  have p: "prv (h head) = last bs" using dlist_ends(2) [OF assms(1)] assms(2) by simp
  have "last bs \<in> set bs" using assms(2) by simp
  with d have n: "nxt (?h q) = (if q = x then head else nxt (h q))" if "q \<in> insert x (insert head (set as))" for q
    using that by (auto simp: list_add_tail_def add_between_links p)
  have "x \<noteq> head" using d by auto
  with n [of x] have "visit_from x head ?h = Some [x]"
    by (simp add: visit_from.simps [of x] visit_from.simps [of head])
  moreover have "visit_from (nxt (?h head)) head ?h = map_option ((@) as) (visit_from x head ?h)"
    by (rule visit_from_prefix [OF ch]) (use d n in auto)
  ultimately show ?thesis by (simp add: list_for_each_entry_def)
qed

theorem list_add_tail_twice_witness:
  "\<exists>h. list_for_each_entry 0 h = Some [8, 16, 24 :: u64] \<and> list_for_each_entry 0 (list_add_tail 8 0 h) = Some [8]"
proof -
  let ?h = "klist.enqueue_all 0 [8, 16, 24] (INIT_LIST_HEAD 0 h)"
  have d: "dlist ?h 0 ([] @ 8 # [16, 24])"
    using klist.enqueue_all_rep [OF dlist_init, of "[8, 16, 24]" 0] by simp
  from list_add_tail_twice [OF d] dlist_for_each(1) [OF d] show ?thesis by (intro exI [of _ ?h]) simp
qed

end
