(* ===== verification/Pages.thy ===== *)
theory Pages
  imports Linked_List
begin

text \<open>
  Page frames: \<^verbatim>\<open>src/cp/include/page.h\<close> and \<^verbatim>\<open>src/cp/mm/page.c\<close>.  The array of
  \<^verbatim>\<open>struct page\<close> starts at \<^verbatim>\<open>PAGE_INFO_BASE\<close>; an entry is one \<^verbatim>\<open>list_head\<close>, 16
  bytes.  The conversions between page numbers, entries and storage addresses are computed on
  64-bit values, as in the code; the lemmas show they are inverse to each other, which is why
  the allocators above name a \<^verbatim>\<open>struct page *\<close> by its page number.
\<close>

abbreviation PAGE_SHIFT :: nat where "PAGE_SHIFT \<equiv> 12"

definition PAGE_SIZE :: nat where "PAGE_SIZE = 4096"
definition PAGE_MASK :: u64 where "PAGE_MASK = 0xfff"
definition PAGE_INFO_BASE :: u64 where "PAGE_INFO_BASE = 0x400000"

datatype zone = ZONE_NORMAL | ZONE_LOW

definition ZONE_NORMAL_MAX_ORDER :: nat where "ZONE_NORMAL_MAX_ORDER = 64 - PAGE_SHIFT"
definition ZONE_LOW_MAX_ORDER :: nat where "ZONE_LOW_MAX_ORDER = 31 - PAGE_SHIFT"

definition sizeof_page :: u64 where "sizeof_page = 16"

definition page_num_to_ptr :: "u64 \<Rightarrow> u64" where
  "page_num_to_ptr pnum = PAGE_INFO_BASE + sizeof_page * pnum"

definition page_to_addr :: "u64 \<Rightarrow> u64" where
  "page_to_addr page = push_bit PAGE_SHIFT ((page - PAGE_INFO_BASE) div sizeof_page)"

definition addr_to_page :: "u64 \<Rightarrow> u64" where
  "addr_to_page addr = PAGE_INFO_BASE + sizeof_page * drop_bit PAGE_SHIFT addr"

definition IS_LOW_ZONE :: "u64 \<Rightarrow> bool" where
  "IS_LOW_ZONE page \<longleftrightarrow> page_to_addr page < 0x80000000"

definition ZONE_TYPE :: "u64 \<Rightarrow> zone" where
  "ZONE_TYPE page = (if IS_LOW_ZONE page then ZONE_LOW else ZONE_NORMAL)"

definition ADDR31 :: "u64 \<Rightarrow> u32 result" where
  "ADDR31 ip = bindR (BUG_ON (ip AND NOT 0x7fffffff \<noteq> 0)) (\<lambda>_. Ok (ucast ip))"

definition ADDR64 :: "u64 \<Rightarrow> u64" where
  "ADDR64 ip = ip"

text \<open>
  \<^verbatim>\<open>init_pages\<close> makes every entry an empty list of its own; the list node of an entry is
  its first field, so it has the entry's address.
\<close>

definition init_page :: "u64 \<Rightarrow> store \<Rightarrow> store" where
  "init_page page h = INIT_LIST_HEAD page h"

definition init_pages :: "u64 \<Rightarrow> store \<Rightarrow> store" where
  "init_pages memsize h =
     fold (\<lambda>pnum. init_page (page_num_to_ptr (of_nat pnum))) [0..<unat (drop_bit PAGE_SHIFT memsize)] h"

section \<open>Conversions\<close>

lemma unat_drop_bit_12: "unat (drop_bit 12 (a :: u64)) = unat a div 4096"
  by (simp only: unat_drop_bit_eq) (simp add: drop_bit_eq_div)

lemma drop_bit_12_bound: "unat (drop_bit 12 (a :: u64)) < 2 ^ 52"
  using unsigned_less [of a, where ?'a = nat] by (simp add: unat_drop_bit_12 less_mult_imp_div_less del: unsigned_less)

lemma div_sizeof_page:
  assumes "unat (n :: u64) < 2 ^ 52"
  shows "(sizeof_page * n) div sizeof_page = n"
proof (rule word_unat_eq_iff [THEN iffD2])
  have "unat (sizeof_page * n) = 16 * unat n"
    using assms by (simp add: sizeof_page_def unat_word_ariths)
  then show "unat ((sizeof_page * n) div sizeof_page) = unat n"
    by (simp add: unat_div sizeof_page_def)
qed

lemma page_to_addr_num:
  assumes "unat n < 2 ^ 52"
  shows "page_to_addr (page_num_to_ptr n) = push_bit 12 n"
  using div_sizeof_page [OF assms] by (simp add: page_to_addr_def page_num_to_ptr_def)

lemma addr_to_page_num: "addr_to_page a = page_num_to_ptr (drop_bit 12 a)"
  by (simp add: addr_to_page_def page_num_to_ptr_def)

lemma push_drop_12: "push_bit 12 (drop_bit 12 (a :: u64)) = a AND NOT PAGE_MASK"
proof -
  have "PAGE_MASK = mask 12" by (simp add: PAGE_MASK_def mask_eq_exp_minus_1)
  then show ?thesis
    by (simp add: bit_eq_iff bit_simps) (auto simp: not_le)
qed

text \<open>Going to the \<^verbatim>\<open>struct page\<close> of an address and back gives the start of its page.\<close>

lemma page_addr_roundtrip: "page_to_addr (addr_to_page a) = a AND NOT PAGE_MASK"
  using page_to_addr_num [OF drop_bit_12_bound [of a]] by (simp add: addr_to_page_num push_drop_12)

lemma addr_page_roundtrip:
  assumes "unat n < 2 ^ 52"
  shows "addr_to_page (page_to_addr (page_num_to_ptr n)) = page_num_to_ptr n"
proof -
  have "drop_bit 12 (push_bit 12 n) = n"
  proof (rule word_unat_eq_iff [THEN iffD2])
    have "unat (push_bit 12 n) = 4096 * unat n"
      using assms by (simp add: push_bit_eq_mult unat_word_ariths)
    then show "unat (drop_bit 12 (push_bit 12 n)) = unat n" by (simp add: unat_drop_bit_12)
  qed
  then show ?thesis by (simp add: page_to_addr_num [OF assms] addr_to_page_num)
qed

lemma low_zone_num:
  assumes "unat n < 2 ^ 52"
  shows "IS_LOW_ZONE (page_num_to_ptr n) \<longleftrightarrow> unat n < 2 ^ 19"
proof -
  have "unat (push_bit 12 n) = 4096 * unat n"
    using assms by (simp add: push_bit_eq_mult unat_word_ariths)
  then show ?thesis
    by (simp add: IS_LOW_ZONE_def page_to_addr_num [OF assms] word_less_nat_alt)
qed

lemma ADDR31_ok: "ADDR31 p = Ok q \<Longrightarrow> ucast q = p"
proof -
  assume "ADDR31 p = Ok q"
  then have z: "p AND NOT 0x7fffffff = 0" and q: "q = ucast p"
    by (auto simp: ADDR31_def BUG_ON_def split: if_splits)
  have m: "(0x7fffffff :: u64) = mask 31" by (simp add: mask_eq_exp_minus_1)
  show "ucast q = p"
  proof (rule bit_word_eqI)
    fix n assume "n < LENGTH(64)"
    have "bit (p AND NOT (mask 31)) n = False" using z m by simp
    with \<open>n < LENGTH(64)\<close> show "bit (ucast q :: u64) n = bit p n"
      unfolding q by (auto simp: bit_simps)
  qed
qed

end
