(* ===== verification/Buddy.thy ===== *)
theory Buddy
  imports Pages "HOL-Library.Multiset"
begin

text \<open>
  The page allocator of \<^verbatim>\<open>src/cp/mm/buddy.c\<close>.  The state is the two arrays of free
  lists; a \<^verbatim>\<open>struct page *\<close> is the 64-bit number of the page it describes (see
  \<open>Pages\<close>), a \<^verbatim>\<open>list_head\<close> the list of the pages on it.  An index past the end of an
  array is the stop \<open>OutOfBounds\<close>.  Each operation is the body between
  \<^verbatim>\<open>spin_lock_intsave\<close> and \<^verbatim>\<open>spin_unlock_intrestore\<close>, which the code runs under
  \<^verbatim>\<open>orders_lock\<close> with interruptions disabled: one atomic step.

  Shifts of \<^verbatim>\<open>int\<close> are kept at 32 bits: \<^verbatim>\<open>1 << order\<close> and \<^verbatim>\<open>PAGE_SIZE << order\<close>
  are computed in an \<^verbatim>\<open>int\<close> and sign-extended when they meet a 64-bit operand.  C leaves
  a shift by 32 or more undefined; the machine's shift gives 0, and so does the model.
\<close>

record buddy =
  orders_normal :: "u64 list list"
  orders_low :: "u64 list list"

definition shl_int :: "u32 \<Rightarrow> nat \<Rightarrow> u32" where
  "shl_int x n = push_bit n x"

definition low_page :: "u64 \<Rightarrow> bool" where
  "low_page p = IS_LOW_ZONE (page_num_to_ptr p)"

section \<open>Initialisation\<close>

fun init_orders_from :: "nat list \<Rightarrow> u64 \<Rightarrow> u32 \<Rightarrow> u64 list list" where
  "init_orders_from [] base pages = []"
| "init_orders_from (order # os) base pages =
     (if pages AND shl_int 1 order \<noteq> 0
      then [drop_bit PAGE_SHIFT base]
             # init_orders_from os (base + scast (shl_int 0x1000 order)) pages
      else [] # init_orders_from os base pages)"

definition init_orders :: "u64 \<Rightarrow> u32 \<Rightarrow> nat \<Rightarrow> u64 list list" where
  "init_orders base pages max_order = init_orders_from [0..<max_order] base pages"

definition init_buddy_alloc :: "u64 \<Rightarrow> u64 \<Rightarrow> buddy" where
  "init_buddy_alloc memsize start =
     (let (low_pages, normal_pages) =
            (if memsize > 0x80000000
             then let low_pages = drop_bit PAGE_SHIFT (0x80000000 - start)
                  in (low_pages, drop_bit PAGE_SHIFT (memsize - start) - low_pages)
             else (drop_bit PAGE_SHIFT (memsize - start), 0))
      in \<lparr>orders_normal = init_orders 0x80000000 (ucast normal_pages) ZONE_NORMAL_MAX_ORDER,
          orders_low = init_orders start (ucast low_pages) ZONE_LOW_MAX_ORDER\<rparr>)"

section \<open>Allocation and release\<close>

definition do_alloc_pages :: "nat \<Rightarrow> u64 list list \<Rightarrow> (u64 option \<times> u64 list list) result" where
  "do_alloc_pages order orders =
     (if order < length orders
      then (case orders ! order of
              [] \<Rightarrow> Ok (None, orders)
            | page # rest \<Rightarrow> Ok (Some page, orders[order := rest]))
      else Stop OutOfBounds)"

definition alloc_pages_low :: "nat \<Rightarrow> buddy \<Rightarrow> (u64 option \<times> buddy) result" where
  "alloc_pages_low order st =
     bindR (do_alloc_pages order (orders_low st))
       (\<lambda>(p, orders). Ok (p, st\<lparr>orders_low := orders\<rparr>))"

definition alloc_pages_exact :: "nat \<Rightarrow> zone \<Rightarrow> buddy \<Rightarrow> (u64 option \<times> buddy) result" where
  "alloc_pages_exact order type st =
     (if type = ZONE_LOW then alloc_pages_low order st
      else bindR (do_alloc_pages order (orders_normal st))
             (\<lambda>(p, orders). case p of
                Some page \<Rightarrow> Ok (Some page, st\<lparr>orders_normal := orders\<rparr>)
              | None \<Rightarrow> alloc_pages_low order st))"

definition orders_add :: "u64 \<Rightarrow> nat \<Rightarrow> u64 list list \<Rightarrow> u64 list list result" where
  "orders_add p order orders =
     (if order < length orders then Ok (orders[order := p # orders ! order])
      else Stop OutOfBounds)"

definition zone_add :: "bool \<Rightarrow> u64 \<Rightarrow> nat \<Rightarrow> buddy \<Rightarrow> buddy result" where
  "zone_add low p order st =
     (if low
      then bindR (orders_add p order (orders_low st)) (\<lambda>os. Ok (st\<lparr>orders_low := os\<rparr>))
      else bindR (orders_add p order (orders_normal st)) (\<lambda>os. Ok (st\<lparr>orders_normal := os\<rparr>)))"

fun chip_loop :: "bool \<Rightarrow> u64 \<Rightarrow> nat \<Rightarrow> nat \<Rightarrow> buddy \<Rightarrow> buddy result" where
  "chip_loop low base 0 wanted st = Ok st"
| "chip_loop low base (Suc a) wanted st =
     (if Suc a > wanted
      then bindR (zone_add low (base + scast (shl_int 1 a)) a st)
             (\<lambda>st. chip_loop low base a wanted st)
      else Ok st)"

definition chip_pages :: "u64 \<Rightarrow> nat \<Rightarrow> nat \<Rightarrow> buddy \<Rightarrow> buddy result" where
  "chip_pages base actual wanted st = chip_loop (low_page base) base actual wanted st"

fun alloc_search :: "nat list \<Rightarrow> nat \<Rightarrow> zone \<Rightarrow> buddy \<Rightarrow> (u64 option \<times> buddy) result" where
  "alloc_search [] order type st = Ok (None, st)"
| "alloc_search (gord # gs) order type st =
     bindR (alloc_pages_exact gord type st)
       (\<lambda>(p, st). case p of
          None \<Rightarrow> alloc_search gs order type st
        | Some page \<Rightarrow> bindR (chip_pages page gord order st) (\<lambda>st. Ok (Some page, st)))"

definition zone_max_order :: "zone \<Rightarrow> nat" where
  "zone_max_order type =
     (if type = ZONE_LOW then ZONE_LOW_MAX_ORDER else ZONE_NORMAL_MAX_ORDER)"

definition alloc_pages :: "nat \<Rightarrow> zone \<Rightarrow> buddy \<Rightarrow> (u64 option \<times> buddy) result" where
  "alloc_pages order type st =
     bindR (alloc_pages_exact order type st)
       (\<lambda>(p, st). case p of
          Some page \<Rightarrow> Ok (Some page, st)
        | None \<Rightarrow> alloc_search [Suc order..<zone_max_order type] order type st)"

definition free_pages :: "u64 \<Rightarrow> nat \<Rightarrow> buddy \<Rightarrow> buddy result" where
  "free_pages ptr order st =
     (let base = drop_bit PAGE_SHIFT ptr in zone_add (low_page base) base order st)"

section \<open>The frames on the free lists\<close>

definition frames :: "u64 \<Rightarrow> nat \<Rightarrow> nat set" where
  "frames p order = {unat p ..< unat p + 2 ^ order}"

definition list_frames :: "nat \<Rightarrow> u64 list \<Rightarrow> nat multiset" where
  "list_frames order ps = (\<Sum>p\<leftarrow>ps. mset_set (frames p order))"

definition zone_frames :: "u64 list list \<Rightarrow> nat multiset" where
  "zone_frames orders = (\<Sum>order<length orders. list_frames order (orders ! order))"

definition free_frames :: "buddy \<Rightarrow> nat multiset" where
  "free_frames st = zone_frames (orders_normal st) + zone_frames (orders_low st)"

text \<open>
  Well-formed free lists: the arrays have their declared sizes, a block on a low list lies
  below 2 GB, a block on a normal list between 2 GB and 8 TB (the range in which the
  \<^verbatim>\<open>int\<close> shifts of the code are exact).
\<close>

definition low_blocks_ok :: "u64 list list \<Rightarrow> bool" where
  "low_blocks_ok orders \<longleftrightarrow> length orders = ZONE_LOW_MAX_ORDER \<and>
     (\<forall>order < length orders. \<forall>p \<in> set (orders ! order). unat p + 2 ^ order \<le> 2 ^ 19)"

definition normal_blocks_ok :: "u64 list list \<Rightarrow> bool" where
  "normal_blocks_ok orders \<longleftrightarrow> length orders = ZONE_NORMAL_MAX_ORDER \<and>
     (\<forall>order < length orders. \<forall>p \<in> set (orders ! order).
        2 ^ 19 \<le> unat p \<and> unat p + 2 ^ order \<le> 2 ^ 31)"

definition buddy_wf :: "buddy \<Rightarrow> bool" where
  "buddy_wf st \<longleftrightarrow> normal_blocks_ok (orders_normal st) \<and> low_blocks_ok (orders_low st)"

definition no_overlap :: "buddy \<Rightarrow> bool" where
  "no_overlap st \<longleftrightarrow> (\<forall>f. count (free_frames st) f \<le> 1)"

lemma finite_frames [simp]: "finite (frames p order)"
  by (simp add: frames_def)

lemma max_order_simps [simp]:
  "ZONE_LOW_MAX_ORDER = 19" "ZONE_NORMAL_MAX_ORDER = 52"
  "zone_max_order ZONE_LOW = 19" "zone_max_order ZONE_NORMAL = 52"
  by (simp_all add: ZONE_LOW_MAX_ORDER_def ZONE_NORMAL_MAX_ORDER_def zone_max_order_def)

lemma list_frames_simps [simp]:
  "list_frames order [] = {#}"
  "list_frames order (p # ps) = mset_set (frames p order) + list_frames order ps"
  by (simp_all add: list_frames_def)

lemma zone_frames_update:
  assumes "i < length orders"
  shows "zone_frames (orders[i := ps]) + list_frames i (orders ! i)
         = zone_frames orders + list_frames i ps"
proof -
  let ?f = "\<lambda>os k. list_frames k (os ! k)"
  have "(\<Sum>k\<in>{..<length orders} - {i}. ?f (orders[i := ps]) k)
      = (\<Sum>k\<in>{..<length orders} - {i}. ?f orders k)"
    by (rule sum.cong) auto
  moreover have "i \<in> {..<length orders}" using assms by simp
  ultimately show ?thesis
    unfolding zone_frames_def using assms
    by (simp add: sum.remove [of "{..<length orders}" i])
qed

section \<open>One list at a time\<close>

lemma do_alloc_pages_Some:
  assumes "do_alloc_pages order orders = Ok (Some p, orders')"
  obtains ps where "order < length orders" "orders ! order = p # ps" "orders' = orders[order := ps]"
    "zone_frames orders = zone_frames orders' + mset_set (frames p order)"
proof -
  from assms obtain ps where ps: "order < length orders" "orders ! order = p # ps"
    "orders' = orders[order := ps]"
    by (auto simp: do_alloc_pages_def split: if_splits list.splits)
  then show thesis using zone_frames_update [OF ps(1), of ps] by (intro that [of ps]) simp_all
qed

lemma do_alloc_pages_None_iff:
  "do_alloc_pages order orders = Ok (None, orders') \<longleftrightarrow>
     order < length orders \<and> orders ! order = [] \<and> orders' = orders"
  by (auto simp: do_alloc_pages_def split: list.splits)

lemma do_alloc_pages_Stop_iff: "do_alloc_pages order orders = Stop e \<longleftrightarrow>
    \<not> order < length orders \<and> e = OutOfBounds"
  by (auto simp: do_alloc_pages_def split: list.splits)

lemma blocks_ok_update:
  "low_blocks_ok orders \<Longrightarrow> set ps \<subseteq> set (orders ! i) \<Longrightarrow> low_blocks_ok (orders[i := ps])"
  "normal_blocks_ok orders \<Longrightarrow> set ps \<subseteq> set (orders ! i) \<Longrightarrow> normal_blocks_ok (orders[i := ps])"
  unfolding low_blocks_ok_def normal_blocks_ok_def
  by (auto simp: nth_list_update_if split: if_splits)

lemma blocks_ok_add:
  "low_blocks_ok orders \<Longrightarrow> unat p + 2 ^ i \<le> 2 ^ 19 \<Longrightarrow> low_blocks_ok (orders[i := p # orders ! i])"
  "normal_blocks_ok orders \<Longrightarrow> 2 ^ 19 \<le> unat p \<Longrightarrow> unat p + 2 ^ i \<le> 2 ^ 31 \<Longrightarrow>
     normal_blocks_ok (orders[i := p # orders ! i])"
  unfolding low_blocks_ok_def normal_blocks_ok_def
  by (auto simp: nth_list_update_if split: if_splits)

lemma zone_frames_add:
  "i < length orders \<Longrightarrow>
   zone_frames (orders[i := p # orders ! i]) = zone_frames orders + mset_set (frames p i)"
  using zone_frames_update [of i orders "p # orders ! i"] by (simp add: add.assoc [symmetric])

lemma low_page_unat: "unat p < 2 ^ 52 \<Longrightarrow> low_page p \<longleftrightarrow> unat p < 2 ^ 19"
  by (simp add: low_page_def low_zone_num)

text \<open>The block a zone can hold, and what adding it to the zone's list does.\<close>

definition zone_block :: "bool \<Rightarrow> u64 \<Rightarrow> nat \<Rightarrow> bool" where
  "zone_block low p order \<longleftrightarrow>
     (if low then order < ZONE_LOW_MAX_ORDER \<and> unat p + 2 ^ order \<le> 2 ^ 19
      else 2 ^ 19 \<le> unat p \<and> unat p + 2 ^ order \<le> 2 ^ 31)"

lemma pow2_le_cancel: "n + 2 ^ a \<le> (2 :: nat) ^ b \<Longrightarrow> a \<le> b"
  by (metis add_leD2 one_less_numeral_iff power_le_imp_le_exp semiring_norm(76))

lemma zone_add_spec:
  assumes wf: "buddy_wf st" and blk: "zone_block low p order"
  obtains st' where "zone_add low p order st = Ok st'" "buddy_wf st'"
    "free_frames st' = free_frames st + mset_set (frames p order)"
proof (cases low)
  case True
  with wf blk show ?thesis
    by (intro that [of "st\<lparr>orders_low := (orders_low st)[order := p # orders_low st ! order]\<rparr>"])
      (auto simp: zone_add_def orders_add_def buddy_wf_def zone_block_def low_blocks_ok_def
        free_frames_def zone_frames_add nth_list_update_if split: if_splits)
next
  case False
  have "order < 52" using pow2_le_cancel [of "unat p" order 31] blk False by (simp add: zone_block_def)
  with wf blk False show ?thesis
    by (intro that [of "st\<lparr>orders_normal := (orders_normal st)[order := p # orders_normal st ! order]\<rparr>"])
      (auto simp: zone_add_def orders_add_def buddy_wf_def zone_block_def normal_blocks_ok_def
        free_frames_def zone_frames_add nth_list_update_if split: if_splits)
qed

section \<open>Splitting a block\<close>

lemma upper_half:
  fixes base :: u64
  assumes "unat base + 2 ^ Suc a \<le> 2 ^ 31"
  shows "unat (base + scast (shl_int 1 a)) = unat base + 2 ^ a"
proof -
  have a: "a < 31" using pow2_le_cancel [OF assms] by simp
  have "(scast (shl_int 1 a) :: u64) = push_bit a 1"
    unfolding shl_int_def using a by (intro bit_word_eqI) (auto simp: bit_simps min_def)
  then have "(scast (shl_int 1 a) :: u64) = 2 ^ a" by (simp add: push_bit_eq_mult)
  moreover have "unat (2 ^ a :: u64) = 2 ^ a" using a unat_of_nat [of "2 ^ a", where ?'a = 64] power_strict_increasing [of a 64 "2::nat"]
    by simp
  ultimately show ?thesis
    using assms by (simp add: unat_word_ariths)
qed

lemma frames_split:
  assumes "unat q = unat p + 2 ^ a"
  shows "mset_set (frames p (Suc a)) = mset_set (frames p a) + mset_set (frames q a)"
proof -
  have "frames p (Suc a) = frames p a \<union> frames q a" "frames p a \<inter> frames q a = {}"
    using assms by (auto simp: frames_def)
  then show ?thesis by (simp add: mset_set_Union)
qed

lemma zone_block_halves:
  assumes "zone_block low base (Suc a)"
  shows "zone_block low base a" "unat (base + scast (shl_int 1 a)) = unat base + 2 ^ a"
    "zone_block low (base + scast (shl_int 1 a)) a"
proof -
  have le: "unat base + 2 ^ Suc a \<le> 2 ^ 31" using assms by (auto simp: zone_block_def split: if_splits)
  note u = upper_half [OF le]
  show "zone_block low base a" "unat (base + scast (shl_int 1 a)) = unat base + 2 ^ a"
    "zone_block low (base + scast (shl_int 1 a)) a"
    using assms by (auto simp: zone_block_def u split: if_splits)
qed

lemma chip_loop_spec:
  assumes "buddy_wf st" and "zone_block low base actual" and "wanted \<le> actual"
  obtains st' where "chip_loop low base actual wanted st = Ok st'" "buddy_wf st'"
    "free_frames st' + mset_set (frames base wanted) = free_frames st + mset_set (frames base actual)"
  using assms
proof (induction actual arbitrary: st thesis)
  case 0
  then show ?case by auto
next
  case (Suc a)
  show ?case
  proof (cases "wanted \<le> a")
    case False
    with Suc.prems show ?thesis by (cases "wanted = Suc a") auto
  next
    case True
    note h = zone_block_halves [OF Suc.prems(3)]
    obtain st1 where s1: "zone_add low (base + scast (shl_int 1 a)) a st = Ok st1" "buddy_wf st1"
      "free_frames st1 = free_frames st + mset_set (frames (base + scast (shl_int 1 a)) a)"
      by (rule zone_add_spec [OF Suc.prems(2) h(3)])
    obtain st2 where s2: "chip_loop low base a wanted st1 = Ok st2" "buddy_wf st2"
      "free_frames st2 + mset_set (frames base wanted) = free_frames st1 + mset_set (frames base a)"
      by (rule Suc.IH [OF _ s1(2) h(1) True])
    show ?thesis
      by (rule Suc.prems(1) [of st2])
        (use s1 s2 True frames_split [OF h(2)] in \<open>simp_all add: ac_simps\<close>)
  qed
qed

lemma zone_block_mono:
  assumes "zone_block low p b" and "a \<le> b"
  shows "zone_block low p a"
proof -
  have "unat p + 2 ^ a \<le> unat p + 2 ^ b" using assms(2) by (simp add: power_increasing)
  with assms show ?thesis unfolding zone_block_def by (meson le_trans le_less_trans)
qed

lemma zone_block_low_page:
  assumes z: "zone_block low p order"
  shows "low_page p = low"
proof -
  have pos: "(0::nat) < 2 ^ order" by simp
  have b: "low \<Longrightarrow> unat p + 2 ^ order \<le> 2 ^ 19" "\<not> low \<Longrightarrow> 2 ^ 19 \<le> unat p"
    "unat p + 2 ^ order \<le> 2 ^ 31"
    using z by (auto simp: zone_block_def split: if_splits)
  have "unat p < 2 ^ 52" using add_leD1 [OF b(3)] by simp
  moreover have "unat p < 2 ^ 19 \<longleftrightarrow> low" using b pos by (cases low) linarith+
  ultimately show ?thesis by (simp add: low_page_unat)
qed

section \<open>Allocating\<close>

text \<open>
  One attempt at one order: it takes a block off the list it finds, or leaves the state alone;
  it stops only when it reaches past the end of \<^verbatim>\<open>orders_low\<close>.
\<close>

lemma alloc_low_Some:
  assumes "buddy_wf st" and "alloc_pages_low order st = Ok (Some p, st')"
  shows "buddy_wf st' \<and> free_frames st = free_frames st' + mset_set (frames p order)
    \<and> zone_block True p order"
proof -
  from assms(2) obtain os where os: "do_alloc_pages order (orders_low st) = Ok (Some p, os)"
    and st': "st' = st\<lparr>orders_low := os\<rparr>"
    by (auto simp: alloc_pages_low_def bindR_eq_Ok)
  from os obtain ps where "order < length (orders_low st)" "orders_low st ! order = p # ps"
    "os = (orders_low st)[order := ps]"
    "zone_frames (orders_low st) = zone_frames os + mset_set (frames p order)"
    by (rule do_alloc_pages_Some)
  moreover from this have "set ps \<subseteq> set (orders_low st ! order)" by auto
  ultimately show ?thesis using assms(1) st' blocks_ok_update(1) [of "orders_low st" ps order]
    by (auto simp: buddy_wf_def free_frames_def) (auto simp: zone_block_def low_blocks_ok_def)
qed

lemma alloc_exact_Some:
  assumes wf: "buddy_wf st" and alloc: "alloc_pages_exact order type st = Ok (Some p, st')"
  shows "buddy_wf st' \<and> free_frames st = free_frames st' + mset_set (frames p order)
    \<and> (\<exists>low. zone_block low p order \<and> (type = ZONE_LOW \<longrightarrow> low))"
proof (cases "alloc_pages_low order st = Ok (Some p, st')")
  case True
  with alloc_low_Some [OF wf] show ?thesis by blast
next
  case False
  with alloc obtain os where os: "do_alloc_pages order (orders_normal st) = Ok (Some p, os)"
    and st': "st' = st\<lparr>orders_normal := os\<rparr>" and ty: "type \<noteq> ZONE_LOW"
    by (auto simp: alloc_pages_exact_def bindR_eq_Ok split: if_splits option.splits)
  from os obtain ps where "order < length (orders_normal st)" "orders_normal st ! order = p # ps"
    "os = (orders_normal st)[order := ps]"
    "zone_frames (orders_normal st) = zone_frames os + mset_set (frames p order)"
    by (rule do_alloc_pages_Some)
  moreover from this have "set ps \<subseteq> set (orders_normal st ! order)" by auto
  ultimately have "buddy_wf st'" "free_frames st = free_frames st' + mset_set (frames p order)"
    "zone_block False p order"
    using wf st' blocks_ok_update(2) [of "orders_normal st" ps order]
    by (auto simp: buddy_wf_def free_frames_def) (auto simp: zone_block_def normal_blocks_ok_def)
  with ty show ?thesis by blast
qed

text \<open>The lists an attempt at one order looks at.\<close>

definition none_at :: "nat \<Rightarrow> zone \<Rightarrow> buddy \<Rightarrow> bool" where
  "none_at order type st \<longleftrightarrow> orders_low st ! order = []
     \<and> (type = ZONE_NORMAL \<longrightarrow> orders_normal st ! order = [])"

lemma alloc_exact_None:
  assumes "alloc_pages_exact order type st = Ok (None, st')"
  shows "st' = st \<and> order < length (orders_low st) \<and> none_at order type st"
  using assms
  by (cases type) (auto simp: alloc_pages_exact_def alloc_pages_low_def none_at_def bindR_eq_Ok
      do_alloc_pages_None_iff split: option.splits)

lemma alloc_exact_Stop_iff:
  assumes "buddy_wf st" and "order < zone_max_order type"
  shows "alloc_pages_exact order type st = Stop e \<longleftrightarrow>
    e = OutOfBounds \<and> type = ZONE_NORMAL \<and> 19 \<le> order \<and> orders_normal st ! order = []"
  using assms
  by (cases type) (auto simp: alloc_pages_exact_def alloc_pages_low_def do_alloc_pages_def
      buddy_wf_def low_blocks_ok_def normal_blocks_ok_def split: list.splits)

lemma alloc_search_Some:
  assumes "buddy_wf st" and "alloc_search gs order type st = Ok (Some p, st')"
    and "\<forall>g \<in> set gs. order \<le> g"
  shows "buddy_wf st' \<and> free_frames st = free_frames st' + mset_set (frames p order)
    \<and> (\<exists>low. zone_block low p order \<and> (type = ZONE_LOW \<longrightarrow> low))"
  using assms
proof (induction gs)
  case (Cons g gs)
  from Cons.prems(2) obtain q st1 where
    q: "alloc_pages_exact g type st = Ok (q, st1)" by (auto simp: bindR_eq_Ok)
  show ?case
  proof (cases q)
    case None
    with q have "st1 = st" by (simp add: alloc_exact_None)
    with Cons q None show ?thesis by simp
  next
    case (Some page)
    with q alloc_exact_Some [OF Cons.prems(1)] obtain low where
      s1: "buddy_wf st1" "free_frames st = free_frames st1 + mset_set (frames page g)"
        "zone_block low page g" "type = ZONE_LOW \<longrightarrow> low" by blast
    have le: "order \<le> g" using Cons.prems(3) by simp
    obtain st2 where s2: "chip_loop low page g order st1 = Ok st2" "buddy_wf st2"
      "free_frames st2 + mset_set (frames page order) = free_frames st1 + mset_set (frames page g)"
      by (rule chip_loop_spec [OF s1(1,3) le])
    have "p = page" "st' = st2"
      using Cons.prems(2) q Some s2(1) by (auto simp: chip_pages_def zone_block_low_page [OF s1(3)])
    then show ?thesis using s1 s2 zone_block_mono [OF s1(3) le] by auto
  qed
qed simp

lemma alloc_search_None:
  "alloc_search gs order type st = Ok (None, st') \<Longrightarrow>
   st' = st \<and> (\<forall>g \<in> set gs. g < length (orders_low st) \<and> none_at g type st)"
proof (induction gs)
  case (Cons g gs)
  then obtain q st1 where q: "alloc_pages_exact g type st = Ok (q, st1)"
    by (auto simp: bindR_eq_Ok)
  with Cons.prems have "q = None" by (cases q) (auto simp: bindR_eq_Ok)
  with q Cons alloc_exact_None [of g type st] show ?case by auto
qed simp

text \<open>
  A successful allocation takes exactly the pages of its block off the free lists, and keeps
  the lists well-formed.
\<close>

lemma alloc_pages_takes:
  assumes "buddy_wf st" and "alloc_pages order type st = Ok (Some p, st')"
  shows "buddy_wf st' \<and> free_frames st = free_frames st' + mset_set (frames p order)
    \<and> (\<exists>low. zone_block low p order \<and> (type = ZONE_LOW \<longrightarrow> low))"
proof -
  from assms(2) obtain q st1 where q: "alloc_pages_exact order type st = Ok (q, st1)"
    by (auto simp: alloc_pages_def bindR_eq_Ok)
  show ?thesis
  proof (cases q)
    case None
    with q have "st1 = st" by (simp add: alloc_exact_None)
    with assms q None alloc_search_Some [OF assms(1)] show ?thesis by (simp add: alloc_pages_def)
  next
    case (Some page)
    with assms q alloc_exact_Some [OF assms(1)] show ?thesis by (simp add: alloc_pages_def)
  qed
qed

lemma alloc_pages_None:
  assumes "alloc_pages order type st = Ok (None, st')"
  shows "st' = st \<and> (\<forall>g \<in> {order..<zone_max_order type}. none_at g type st)"
proof -
  from assms obtain q st1 where q: "alloc_pages_exact order type st = Ok (q, st1)"
    by (auto simp: alloc_pages_def bindR_eq_Ok)
  with assms have "q = None" by (cases q) (auto simp: alloc_pages_def)
  with q alloc_exact_None [of order type st] have e: "st1 = st" "none_at order type st" by auto
  with assms q \<open>q = None\<close> have "alloc_search [Suc order..<zone_max_order type] order type st = Ok (None, st')"
    by (simp add: alloc_pages_def)
  from alloc_search_None [OF this] e show ?thesis
    by (auto simp: order_le_less Suc_le_eq)
qed

lemma alloc_exact_empty:
  assumes "buddy_wf st" and "order < 19" and "none_at order type st"
  shows "alloc_pages_exact order type st = Ok (None, st)"
  using assms
  by (cases type) (auto simp: alloc_pages_exact_def alloc_pages_low_def do_alloc_pages_def none_at_def
      buddy_wf_def low_blocks_ok_def normal_blocks_ok_def)

lemma alloc_search_skips:
  assumes "buddy_wf st" and "\<forall>g \<in> set gs. g < 19 \<and> none_at g type st"
  shows "alloc_search (gs @ hs) order type st = alloc_search hs order type st"
  using assms by (induction gs) (simp_all add: alloc_exact_empty)

text \<open>
  With nothing left that is large enough, a request for \<^verbatim>\<open>ZONE_NORMAL\<close> storage does not
  report it: the search goes on to orders that \<^verbatim>\<open>orders_low\<close> does not have.
\<close>

lemma alloc_pages_normal_exhausted:
  assumes wf: "buddy_wf st" and order: "order < 19"
    and none: "\<forall>g \<in> {order..<19}. none_at g ZONE_NORMAL st" and top: "orders_normal st ! 19 = []"
  shows "alloc_pages order ZONE_NORMAL st = Stop OutOfBounds"
proof -
  have "[Suc order..<52] = [Suc order..<19] @ 19 # [20..<52]"
    using order upt_add_eq_append [of "Suc order" 19 33] by (simp add: upt_conv_Cons)
  moreover have "alloc_pages_exact 19 ZONE_NORMAL st = Stop OutOfBounds"
    using wf top by (simp add: alloc_exact_Stop_iff)
  ultimately have "alloc_search [Suc order..<52] order ZONE_NORMAL st = Stop OutOfBounds"
    using none by (simp add: alloc_search_skips [OF wf])
  then show ?thesis
    using alloc_exact_empty [OF wf order] none order by (simp add: alloc_pages_def)
qed

lemma alloc_pages_normal_not_None:
  assumes "buddy_wf st"
  shows "alloc_pages order ZONE_NORMAL st \<noteq> Ok (None, st')"
proof
  assume none: "alloc_pages order ZONE_NORMAL st = Ok (None, st')"
  have len: "length (orders_low st) = 19"
    using assms by (simp add: buddy_wf_def low_blocks_ok_def)
  from none obtain q st1 where q: "alloc_pages_exact order ZONE_NORMAL st = Ok (q, st1)"
    by (auto simp: alloc_pages_def bindR_eq_Ok)
  with none have "q = None" by (cases q) (auto simp: alloc_pages_def)
  with q alloc_exact_None [of order ZONE_NORMAL st] len have "order < 19" "st1 = st" by auto
  with none q \<open>q = None\<close> have "alloc_search [Suc order..<52] order ZONE_NORMAL st = Ok (None, st')"
    by (simp add: alloc_pages_def)
  from alloc_search_None [OF this] \<open>order < 19\<close> len show False by auto
qed

lemma alloc_search_low_ok:
  assumes "buddy_wf st" and "\<forall>g \<in> set gs. order \<le> g \<and> g < 19"
  shows "\<exists>r. alloc_search gs order ZONE_LOW st = Ok r"
  using assms
proof (induction gs)
  case (Cons g gs)
  have "\<exists>r. alloc_pages_exact g ZONE_LOW st = Ok r"
    using alloc_exact_Stop_iff [OF Cons.prems(1), of g ZONE_LOW] Cons.prems(2)
    by (cases "alloc_pages_exact g ZONE_LOW st") auto
  then obtain q st1 where q: "alloc_pages_exact g ZONE_LOW st = Ok (q, st1)" by auto
  show ?case
  proof (cases q)
    case None
    with q alloc_exact_None [of g ZONE_LOW st] Cons show ?thesis by auto
  next
    case (Some page)
    with q alloc_exact_Some [OF Cons.prems(1)] obtain low where
      s1: "buddy_wf st1" "zone_block low page g" by blast
    have "order \<le> g" using Cons.prems(2) by simp
    then obtain st2 where "chip_loop low page g order st1 = Ok st2"
      by (rule chip_loop_spec [OF s1])
    with q Some s1 show ?thesis by (simp add: chip_pages_def zone_block_low_page [OF s1(2)])
  qed
qed simp

lemma alloc_pages_low_ok:
  assumes "buddy_wf st" and "order < 19"
  shows "\<exists>r. alloc_pages order ZONE_LOW st = Ok r"
proof -
  have "\<exists>r. alloc_pages_exact order ZONE_LOW st = Ok r"
    using alloc_exact_Stop_iff [OF assms(1), of order ZONE_LOW] assms(2)
    by (cases "alloc_pages_exact order ZONE_LOW st") auto
  then obtain q st1 where q: "alloc_pages_exact order ZONE_LOW st = Ok (q, st1)" by auto
  then show ?thesis
    using alloc_search_low_ok [OF assms(1), of "[Suc order..<19]" order] alloc_exact_None [of order ZONE_LOW st]
    by (cases q) (auto simp: alloc_pages_def)
qed

section \<open>The contract of a page allocator\<close>

text \<open>
  What the rest of the program relies on.  \<open>free\<close> counts, for every page frame, on how many
  free blocks it lies; the laws say that an allocation moves the frames of one block out of
  it, and a release back in.
\<close>

locale page_allocator =
  fixes alloc :: "nat \<Rightarrow> 't \<Rightarrow> 's \<Rightarrow> ('p option \<times> 's) result"
    and release :: "'p \<Rightarrow> nat \<Rightarrow> 's \<Rightarrow> 's result"
    and block :: "'p \<Rightarrow> nat \<Rightarrow> nat set"
    and valid :: "'p \<Rightarrow> nat \<Rightarrow> bool"
    and free :: "'s \<Rightarrow> nat multiset"
    and wf :: "'s \<Rightarrow> bool"
  assumes block_finite: "finite (block p n)"
    and alloc_takes: "wf s \<Longrightarrow> alloc n t s = Ok (Some p, s') \<Longrightarrow>
      wf s' \<and> free s = free s' + mset_set (block p n) \<and> valid p n"
    and alloc_fails: "wf s \<Longrightarrow> alloc n t s = Ok (None, s') \<Longrightarrow> s' = s"
    and release_gives: "wf s \<Longrightarrow> valid p n \<Longrightarrow>
      \<exists>s'. release p n s = Ok s' \<and> wf s' \<and> free s' = free s + mset_set (block p n)"
begin

definition disjoint_free :: "'s \<Rightarrow> bool" where
  "disjoint_free s \<longleftrightarrow> (\<forall>f. count (free s) f \<le> 1)"

lemma count_block: "count (mset_set (block p n)) f = (if f \<in> block p n then 1 else 0)"
  using block_finite by (simp add: count_mset_set')

lemma alloc_disjoint:
  assumes "wf s" and "disjoint_free s" and "alloc n t s = Ok (Some p, s')"
  shows "disjoint_free s' \<and> (\<forall>f \<in> block p n. f \<in># free s \<and> f \<notin># free s')"
proof -
  have eq: "count (free s) f = count (free s') f + (if f \<in> block p n then 1 else 0)" for f
    using alloc_takes [OF assms(1,3)] by (simp add: count_block)
  have le: "count (free s) f \<le> 1" for f using assms(2) by (simp add: disjoint_free_def)
  show ?thesis
  proof (intro conjI ballI)
    show "disjoint_free s'"
      unfolding disjoint_free_def using eq le by (metis le_add1 le_trans)
    fix f assume "f \<in> block p n"
    with eq [of f] le [of f] show "f \<in># free s" "f \<notin># free s'"
      by (auto simp: count_greater_zero_iff [symmetric] not_in_iff)
  qed
qed

lemma two_allocs_disjoint:
  assumes "wf s" and "disjoint_free s"
    and "alloc n t s = Ok (Some p, s1)" and "alloc m u s1 = Ok (Some q, s2)"
  shows "block p n \<inter> block q m = {}"
proof -
  have "wf s1" using alloc_takes [OF assms(1,3)] by blast
  with alloc_disjoint [OF assms(1-3)] alloc_disjoint [OF _ _ assms(4)] show ?thesis by blast
qed

lemma alloc_release:
  assumes "wf s" and "alloc n t s = Ok (Some p, s1)"
  shows "\<exists>s2. release p n s1 = Ok s2 \<and> wf s2 \<and> free s2 = free s"
  using alloc_takes [OF assms] release_gives [of s1 p n] by auto

end

definition page_release :: "u64 \<Rightarrow> nat \<Rightarrow> buddy \<Rightarrow> buddy result" where
  "page_release p order st = free_pages (page_to_addr (page_num_to_ptr p)) order st"

definition buddy_block :: "u64 \<Rightarrow> nat \<Rightarrow> bool" where
  "buddy_block p order \<longleftrightarrow> (\<exists>low. zone_block low p order)"

lemma page_release_zone_add:
  assumes "zone_block low p order"
  shows "page_release p order st = zone_add low p order st"
proof -
  have "unat p + 2 ^ order \<le> 2 ^ 31" using assms by (auto simp: zone_block_def split: if_splits)
  then have b: "unat p < 2 ^ 52" using add_leD1 by fastforce
  have "drop_bit 12 (push_bit 12 p) = p"
  proof (rule word_unat_eq_iff [THEN iffD2])
    have "unat (push_bit 12 p) = 4096 * unat p"
      using b by (simp add: push_bit_eq_mult unat_word_ariths)
    then show "unat (drop_bit 12 (push_bit 12 p)) = unat p" by (simp add: unat_drop_bit_12)
  qed
  then show ?thesis
    by (simp add: page_release_def free_pages_def Let_def page_to_addr_num [OF b]
        zone_block_low_page [OF assms])
qed

interpretation buddy: page_allocator alloc_pages page_release frames buddy_block free_frames buddy_wf
proof unfold_locales
  fix s n t p s'
  assume wf: "buddy_wf s" and some: "alloc_pages n t s = Ok (Some p, s')"
  from alloc_pages_takes [OF wf some]
  show "buddy_wf s' \<and> free_frames s = free_frames s' + mset_set (frames p n) \<and> buddy_block p n"
    by (simp only: buddy_block_def) blast
next
  fix s n t s'
  assume "alloc_pages n t s = Ok (None, s')"
  from alloc_pages_None [OF this] show "s' = s" by (rule conjunct1)
next
  fix s p n
  assume wf: "buddy_wf s" and "buddy_block p n"
  then obtain low where z: "zone_block low p n" by (auto simp: buddy_block_def)
  obtain s' where "zone_add low p n s = Ok s'" "buddy_wf s'"
    "free_frames s' = free_frames s + mset_set (frames p n)"
    by (rule zone_add_spec [OF wf z])
  then show "\<exists>s'. page_release p n s = Ok s' \<and> buddy_wf s'
      \<and> free_frames s' = free_frames s + mset_set (frames p n)"
    using page_release_zone_add [OF z, of s] by auto
qed (rule finite_frames)

section \<open>Initialisation covers the storage\<close>

fun frames_from :: "nat \<Rightarrow> u64 list list \<Rightarrow> nat multiset" where
  "frames_from k [] = {#}"
| "frames_from k (ps # pss) = list_frames k ps + frames_from (Suc k) pss"

lemma frames_from_sum: "frames_from k pss = (\<Sum>i<length pss. list_frames (k + i) (pss ! i))"
  by (induction pss arbitrary: k) (simp_all add: sum.lessThan_Suc_shift del: sum.lessThan_Suc)

lemma zone_frames_from: "zone_frames orders = frames_from 0 orders"
  by (simp add: frames_from_sum zone_frames_def)

lemma pages_bit: "(pages :: u32) AND shl_int 1 k \<noteq> 0 \<longleftrightarrow> k < 32 \<and> odd (unat pages div 2 ^ k)"
proof -
  have "pages AND shl_int 1 k = (if k < 32 \<and> bit pages k then 2 ^ k else 0)"
    by (rule bit_word_eqI) (auto simp: shl_int_def bit_simps)
  moreover have "bit pages k \<longleftrightarrow> odd (unat pages div 2 ^ k)"
    by (simp add: bit_unsigned_iff flip: bit_iff_odd)
  ultimately show ?thesis by auto
qed

lemma init_orders_none:
  "unat pages < 2 ^ k \<Longrightarrow> init_orders_from [k..<m] base pages = replicate (m - k) []"
proof (induction "m - k" arbitrary: k)
  case (Suc d)
  then have "[k..<m] = k # [Suc k..<m]" by (simp add: upt_conv_Cons)
  moreover have "\<not> odd (unat pages div 2 ^ k)" using Suc.prems by simp
  moreover have "unat pages < 2 ^ Suc k" using Suc.prems by simp
  ultimately show ?case using Suc.hyps(1) [of "Suc k"] Suc.hyps(2)
    by (simp add: pages_bit Suc_diff_le) (metis Suc_diff_Suc replicate_Suc zero_less_Suc zero_less_diff)
qed simp

lemma frames_from_none: "frames_from k (replicate n []) = {#}"
  by (induction n arbitrary: k) auto

lemma next_base:
  assumes "k < 19"
  shows "(scast (shl_int 0x1000 k) :: u64) = 2 ^ (12 + k)"
proof -
  have "(scast (shl_int 0x1000 k) :: u64) = push_bit (12 + k) 1"
  proof -
    have "(0x1000 :: u32) = push_bit 12 1" by simp
    then have "shl_int 0x1000 k = push_bit (12 + k) 1"
      by (simp only: shl_int_def push_bit_push_bit) (simp add: add.commute)
    then show ?thesis using assms
      by (simp only:) (intro bit_word_eqI, auto simp: bit_simps min_def)
  qed
  then show ?thesis by (simp add: push_bit_eq_mult)
qed

lemma odd_high_bits:
  assumes "odd (n div 2 ^ k)"
  shows "(n :: nat) div 2 ^ k * 2 ^ k = 2 ^ k + n div 2 ^ Suc k * 2 ^ Suc k"
proof -
  have "n div 2 ^ k = 2 * (n div 2 ^ Suc k) + 1"
    using assms by (simp add: power_Suc2 div_mult2_eq del: power_Suc)
  then show ?thesis by (simp add: algebra_simps)
qed

lemma block_prefix:
  assumes "unat p = b" and "odd (n div 2 ^ k)"
  shows "mset_set (frames p k) + mset_set {b + 2 ^ k ..< b + 2 ^ k + n div 2 ^ Suc k * 2 ^ Suc k}
         = mset_set {b ..< b + n div 2 ^ k * 2 ^ k}"
proof -
  note len = odd_high_bits [OF assms(2)]
  let ?m = "n div 2 ^ Suc k * 2 ^ Suc k"
  have "{b ..< b + n div 2 ^ k * 2 ^ k} = {b ..< b + 2 ^ k} \<union> {b + 2 ^ k ..< b + 2 ^ k + ?m}"
    unfolding len by (auto simp del: power_Suc)
  then show ?thesis
    using assms(1) by (simp add: frames_def mset_set_Union ivl_disj_int del: power_Suc)
qed

text \<open>
  Building the lists from order \<open>k\<close> on covers the pages of the higher bits of the count.
  Twenty bits are the most for which the \<^verbatim>\<open>int\<close> shift of the page size is exact wherever
  its result matters.
\<close>

lemma init_orders_cover:
  assumes "unat base = 4096 * b" and "unat pages < 2 ^ 20" and "unat pages < 2 ^ m"
    and "b + unat pages div 2 ^ k * 2 ^ k \<le> 2 ^ 40"
  shows "frames_from k (init_orders_from [k..<m] base pages)
         = mset_set {b ..< b + unat pages div 2 ^ k * 2 ^ k}"
  using assms(1,4)
proof (induction "m - k" arbitrary: k base b)
  case 0
  then have "unat pages < 2 ^ k"
    by (intro less_le_trans [OF assms(3)] power_increasing) auto
  with 0 show ?case by simp
next
  case (Suc j)
  show ?case
  proof (cases "unat pages < 2 ^ k")
    case True
    then show ?thesis by (simp add: init_orders_none frames_from_none)
  next
    case False
    have k: "k < 20"
      using False assms(2) by (meson le_trans less_le_trans not_le one_le_numeral power_increasing)
    have upt: "[k..<m] = k # [Suc k..<m]" using Suc.hyps(2) by (simp add: upt_conv_Cons)
    have b: "unat (drop_bit 12 base) = b" using Suc.prems by (simp add: unat_drop_bit_12)
    show ?thesis
    proof (cases "odd (unat pages div 2 ^ k)")
      case odd: True
      let ?base = "base + scast (shl_int 0x1000 k)"
      have rest: "frames_from (Suc k) (init_orders_from [Suc k..<m] ?base pages)
          = mset_set {b + 2 ^ k ..< b + 2 ^ k + unat pages div 2 ^ Suc k * 2 ^ Suc k}"
      proof (cases "k < 19")
        case True
        have "unat (2 ^ (12 + k) :: u64) = 2 ^ (12 + k)"
          using True unat_of_nat [of "2 ^ (12 + k)", where ?'a = 64]
            power_strict_increasing [of "12 + k" 64 "2::nat"] by simp
        moreover have sum: "b + 2 ^ k + unat pages div 2 ^ Suc k * 2 ^ Suc k \<le> 2 ^ 40"
          using Suc.prems(2) odd_high_bits [OF odd] by (simp del: power_Suc)
        then have "b + 2 ^ k \<le> 2 ^ 40" by (rule add_leD1)
        ultimately have "unat ?base = 4096 * (b + 2 ^ k)"
          using Suc.prems(1) by (simp add: next_base [OF True] unat_word_ariths power_add)
        note this sum
        with Suc.hyps(2) show ?thesis by (intro Suc.hyps(1)) (auto simp del: power_Suc)
      next
        case False
        with k have "k = 19" by simp
        then have "unat pages < 2 ^ Suc k" using assms(2) by simp
        then show ?thesis by (simp add: init_orders_none frames_from_none del: power_Suc)
      qed
      show ?thesis
        unfolding upt using odd k block_prefix [OF b odd]
        by (simp add: pages_bit rest del: power_Suc)
    next
      case False
      then have "unat pages div 2 ^ k = 2 * (unat pages div 2 ^ Suc k)"
        by (simp add: power_Suc2 div_mult2_eq del: power_Suc)
      then have "unat pages div 2 ^ k * 2 ^ k = unat pages div 2 ^ Suc k * 2 ^ Suc k" by simp
      with False Suc.hyps(1) [of "Suc k" base b] Suc.prems Suc.hyps(2) show ?thesis
        unfolding upt by (simp add: pages_bit del: power_Suc)
    qed
  qed
qed

lemma length_init_orders: "length (init_orders_from ks base pages) = length ks"
  by (induction ks arbitrary: base) auto

lemma block_in_list: "p \<in> set ps \<Longrightarrow> mset_set (frames p k) \<subseteq># list_frames k ps"
  by (induction ps) (auto intro: subset_mset.add_increasing)

lemma block_in_zone:
  assumes "k < length orders" and "p \<in> set (orders ! k)"
  shows "frames p k \<subseteq> set_mset (zone_frames orders)"
proof -
  have "mset_set (frames p k) \<subseteq># list_frames k (orders ! k)"
    by (rule block_in_list [OF assms(2)])
  also have "\<dots> \<subseteq># zone_frames orders"
    unfolding zone_frames_def using assms(1)
    by (subst sum.remove [of _ k]) auto
  finally show ?thesis by (metis finite_frames finite_set_mset_mset_set set_mset_mono)
qed

lemma block_in_range:
  assumes "zone_frames orders = mset_set {lo..<hi}" and "k < length orders" and "p \<in> set (orders ! k)"
  shows "lo \<le> unat p \<and> unat p + 2 ^ k \<le> hi"
proof -
  have "{unat p ..< unat p + 2 ^ k} \<subseteq> {lo..<hi}"
    using block_in_zone [OF assms(2,3)] assms(1) by (simp add: frames_def)
  then show ?thesis by (subst (asm) ivl_subset) auto
qed

lemma init_orders_zone:
  assumes "unat base = 4096 * b" and "unat pages < 2 ^ 20" and "unat pages < 2 ^ m"
    and "b + unat pages \<le> 2 ^ 40"
  shows "zone_frames (init_orders base pages m) = mset_set {b ..< b + unat pages}"
  using init_orders_cover [OF assms(1-3), of 0] assms(4)
  by (simp add: init_orders_def zone_frames_from)

lemma init_orders_ok:
  assumes "unat base = 4096 * b"
  shows "unat pages < 2 ^ 19 \<Longrightarrow> b + unat pages \<le> 2 ^ 19 \<Longrightarrow>
      low_blocks_ok (init_orders base pages 19)"
    and "unat pages < 2 ^ 20 \<Longrightarrow> 2 ^ 19 \<le> b \<Longrightarrow> b + unat pages \<le> 2 ^ 31 \<Longrightarrow>
      normal_blocks_ok (init_orders base pages 52)"
proof -
  assume p: "unat pages < 2 ^ 19" "b + unat pages \<le> 2 ^ 19"
  then have "zone_frames (init_orders base pages 19) = mset_set {b ..< b + unat pages}"
    by (intro init_orders_zone [OF assms]) auto
  from block_in_range [OF this] p show "low_blocks_ok (init_orders base pages 19)"
    unfolding low_blocks_ok_def by (fastforce simp: init_orders_def length_init_orders)
next
  assume p: "unat pages < 2 ^ 20" "2 ^ 19 \<le> b" "b + unat pages \<le> 2 ^ 31"
  then have "zone_frames (init_orders base pages 52) = mset_set {b ..< b + unat pages}"
    by (intro init_orders_zone [OF assms]) auto
  from block_in_range [OF this] p show "normal_blocks_ok (init_orders base pages 52)"
    unfolding normal_blocks_ok_def by (fastforce simp: init_orders_def length_init_orders)
qed

lemma unat_ucast32: "unat (p :: u64) < 2 ^ 32 \<Longrightarrow> unat (ucast p :: u32) = unat p"
  by (simp add: unsigned_ucast_eq take_bit_nat_eq_self)

lemma page_count:
  assumes "start \<le> (a :: u64)" and "unat start = 4096 * s"
  shows "unat (drop_bit 12 (a - start)) = unat a div 4096 - s"
proof -
  have "unat (a - start) = unat a - unat start" using assms(1) by (simp add: unat_sub)
  then show ?thesis using assms(2) by (simp add: unat_drop_bit_12)
qed

lemma init_low:
  assumes "unat start = 4096 * s" and "0 < s" and "start \<le> a" and "unat a \<le> 2 ^ 31"
  shows "zone_frames (init_orders start (ucast (drop_bit 12 (a - start))) 19)
           = mset_set {s ..< unat a div 4096}"
    and "low_blocks_ok (init_orders start (ucast (drop_bit 12 (a - start))) 19)"
proof -
  have le: "s \<le> unat a div 4096" using assms(1,3) by (simp add: word_le_nat_alt)
  have c: "unat (drop_bit 12 (a - start)) = unat a div 4096 - s" by (rule page_count [OF assms(3,1)])
  have hi: "unat a div 4096 \<le> 2 ^ 19" using assms(4) by simp
  have lt: "unat a div 4096 - s < 2 ^ 19" using hi assms(2) by simp
  have u: "unat (ucast (drop_bit 12 (a - start)) :: u32) = unat a div 4096 - s"
    using c lt by (simp add: unat_ucast32)
  have sum: "s + (unat a div 4096 - s) = unat a div 4096" using le by simp
  show "zone_frames (init_orders start (ucast (drop_bit 12 (a - start))) 19)
        = mset_set {s ..< unat a div 4096}"
    using init_orders_zone [OF assms(1), of "ucast (drop_bit 12 (a - start))" 19] lt hi sum
    unfolding u by simp
  show "low_blocks_ok (init_orders start (ucast (drop_bit 12 (a - start))) 19)"
    using lt hi sum by (intro init_orders_ok(1) [OF assms(1)]) (simp_all add: u)
qed

lemma zone_frames_none: "zone_frames (init_orders base 0 m) = {#}" "normal_blocks_ok (init_orders base 0 52)"
  using init_orders_none [of 0 0 m base] init_orders_none [of 0 0 52 base]
  by (simp_all add: init_orders_def zone_frames_from frames_from_none normal_blocks_ok_def)

text \<open>
  Storage up to 6 GB: initialisation puts every page from \<open>start\<close> to the end of storage on
  the free lists exactly once.
\<close>

lemma init_buddy_alloc_covers:
  assumes start: "unat start = 4096 * s" "0 < s" "unat start \<le> 2 ^ 31"
    and mem: "unat start \<le> unat memsize" "unat memsize < 6 * 2 ^ 30"
  shows "buddy_wf (init_buddy_alloc memsize start)"
    and "free_frames (init_buddy_alloc memsize start) = mset_set {s ..< unat memsize div 4096}"
proof -
  let ?st = "init_buddy_alloc memsize start"
  have "buddy_wf ?st \<and> free_frames ?st = mset_set {s ..< unat memsize div 4096}"
  proof (cases "memsize > 0x80000000")
    case False
    then have m: "unat memsize \<le> 2 ^ 31" by (simp add: word_less_nat_alt not_less)
    with init_low [OF start(1,2), of memsize] mem(1) show ?thesis
      using False by (simp add: init_buddy_alloc_def Let_def buddy_wf_def free_frames_def
          zone_frames_none word_le_nat_alt)
  next
    case True
    let ?n = "drop_bit 12 (memsize - start) - drop_bit 12 (0x80000000 - start)"
    have le: "start \<le> 0x80000000" "start \<le> memsize" using start(3) mem(1) by (simp_all add: word_le_nat_alt)
    have big: "unat memsize > 2 ^ 31" using True by (simp add: word_less_nat_alt)
    have c: "unat (drop_bit 12 (memsize - start)) = unat memsize div 4096 - s"
      "unat (drop_bit 12 (0x80000000 - start)) = 2 ^ 19 - s"
      using page_count [OF le(2) start(1)] page_count [OF le(1) start(1)] by simp_all
    have "2 ^ 19 \<le> unat memsize div 4096" using big by simp
    then have n: "unat ?n = unat memsize div 4096 - 2 ^ 19"
      using c start by (subst unat_sub) (auto simp: word_le_nat_alt)
    have lt: "unat ?n < 2 ^ 20" using n mem(2) by simp
    have u: "unat (ucast ?n :: u32) = unat memsize div 4096 - 2 ^ 19"
      using n lt by (subst unat_ucast32) auto
    have b: "unat (0x80000000 :: u64) = 4096 * 2 ^ 19" by simp
    have "zone_frames (init_orders 0x80000000 (ucast ?n) 52) = mset_set {2 ^ 19 ..< unat memsize div 4096}"
      using init_orders_zone [OF b, of "ucast ?n" 52] lt n u \<open>2 ^ 19 \<le> unat memsize div 4096\<close> by simp
    moreover have "normal_blocks_ok (init_orders 0x80000000 (ucast ?n) 52)"
      using lt n u mem(2) by (intro init_orders_ok(2) [OF b]) simp_all
    moreover have "mset_set {s ..< unat memsize div 4096}
        = mset_set {2 ^ 19 ..< unat memsize div 4096} + mset_set {s ..< 2 ^ 19}"
    proof -
      have "{s ..< unat memsize div 4096} = {2 ^ 19 ..< unat memsize div 4096} \<union> {s ..< 2 ^ 19}"
        using start \<open>2 ^ 19 \<le> unat memsize div 4096\<close> by auto
      then show ?thesis by (simp add: mset_set_Union ivl_disj_int)
    qed
    ultimately show ?thesis
      using init_low [OF start(1,2) le(1)] True
      by (simp add: init_buddy_alloc_def Let_def buddy_wf_def free_frames_def)
  qed
  then show "buddy_wf ?st" "free_frames ?st = mset_set {s ..< unat memsize div 4096}" by auto
qed

section \<open>Properties\<close>

lemma no_overlap_disjoint: "no_overlap st = buddy.disjoint_free st"
  by (simp add: no_overlap_def buddy.disjoint_free_def)

text \<open>A small machine for the examples: eight pages, from 4 KB to 36 KB.\<close>

definition small_storage :: buddy where
  "small_storage = init_buddy_alloc 0x9000 0x1000"

lemma small_storage_ok: "buddy_wf small_storage" "free_frames small_storage = mset_set {1..<9}"
  "no_overlap small_storage"
proof -
  show "buddy_wf small_storage" and f: "free_frames small_storage = mset_set {1..<9}"
    using init_buddy_alloc_covers [of "0x1000" 1 "0x9000"] by (simp_all add: small_storage_def)
  show "no_overlap small_storage" by (simp add: no_overlap_def f count_mset_set')
qed

lemma small_storage_lists: "orders_low small_storage = [[], [], [], [1]] @ replicate 15 []"
  "orders_normal small_storage = replicate 52 []"
  by code_simp+

text \<open>
  (C1) An allocation that succeeds takes exactly its block's pages from the free pages: the
  free lists stay well-formed and free of overlaps, the block's pages were free before, none
  of them is free after, every other page is as free as it was, and a request for low storage
  gets pages below 2 GB.
\<close>

theorem alloc_pages_correct:
  assumes "buddy_wf st" and "no_overlap st" and "alloc_pages order type st = Ok (Some p, st')"
  shows "buddy_wf st' \<and> no_overlap st'
    \<and> free_frames st = free_frames st' + mset_set (frames p order)
    \<and> (\<forall>f \<in> frames p order. f \<in># free_frames st \<and> f \<notin># free_frames st')
    \<and> (type = ZONE_LOW \<longrightarrow> unat p + 2 ^ order \<le> 2 ^ 19)"
proof -
  have d: "buddy.disjoint_free st" using assms(2) by (simp add: no_overlap_disjoint)
  note a = buddy.alloc_disjoint [OF assms(1) d assms(3)] and t = alloc_pages_takes [OF assms(1,3)]
  from t have "type = ZONE_LOW \<longrightarrow> unat p + 2 ^ order \<le> 2 ^ 19"
    by (auto simp: zone_block_def)
  with a t show ?thesis by (simp add: no_overlap_disjoint)
qed

theorem alloc_pages_correct_witness:
  "\<exists>p st'. alloc_pages 1 ZONE_LOW small_storage = Ok (Some p, st') \<and> buddy_wf st' \<and> no_overlap st'
     \<and> (\<forall>f \<in> frames p 1. f \<in># free_frames small_storage \<and> f \<notin># free_frames st')"
proof -
  obtain p st' where a: "alloc_pages 1 ZONE_LOW small_storage = Ok (Some p, st')"
  proof -
    have "alloc_pages 1 ZONE_LOW small_storage =
        Ok (Some 1, small_storage\<lparr>orders_low := [[], [3], [5]] @ replicate 16 []\<rparr>)"
      by code_simp
    then show thesis by (rule that)
  qed
  from alloc_pages_correct [OF small_storage_ok(1,3) a] a show ?thesis by blast
qed

text \<open>
  (C21) Freeing what was allocated gives the free pages back: \<^verbatim>\<open>free_pages\<close> at the
  block's address, with the order it was allocated with, succeeds and restores the free pages
  exactly.
\<close>

theorem free_pages_restores:
  assumes "buddy_wf st" and "alloc_pages order type st = Ok (Some p, st1)"
  shows "\<exists>st2. free_pages (page_to_addr (page_num_to_ptr p)) order st1 = Ok st2
           \<and> buddy_wf st2 \<and> free_frames st2 = free_frames st"
  using buddy.alloc_release [OF assms] by (simp add: page_release_def)

theorem free_pages_restores_witness:
  "\<exists>p st1 st2. alloc_pages 0 ZONE_NORMAL small_storage = Ok (Some p, st1)
     \<and> free_pages (page_to_addr (page_num_to_ptr p)) 0 st1 = Ok st2
     \<and> free_frames st2 = mset_set {1..<9}"
proof -
  have a: "alloc_pages 0 ZONE_NORMAL small_storage =
      Ok (Some 1, small_storage\<lparr>orders_low := [[2], [3], [5]] @ replicate 16 []\<rparr>)"
    by code_simp
  from free_pages_restores [OF small_storage_ok(1) a] a show ?thesis
    by (auto simp: small_storage_ok(2))
qed

text \<open>
  Blocks handed out one after the other never share a page.
\<close>

theorem alloc_pages_disjoint:
  assumes "buddy_wf st" and "no_overlap st"
    and "alloc_pages m t st = Ok (Some p, st1)" and "alloc_pages n u st1 = Ok (Some q, st2)"
  shows "frames p m \<inter> frames q n = {}"
  using buddy.two_allocs_disjoint [OF assms(1) _ assms(3,4)] assms(2) by (simp add: no_overlap_disjoint)

theorem alloc_pages_disjoint_witness:
  "\<exists>p q st1 st2. alloc_pages 1 ZONE_LOW small_storage = Ok (Some p, st1)
     \<and> alloc_pages 2 ZONE_NORMAL st1 = Ok (Some q, st2) \<and> frames p 1 \<inter> frames q 2 = {}"
proof -
  let ?st1 = "small_storage\<lparr>orders_low := [[], [3], [5]] @ replicate 16 []\<rparr>"
  have a: "alloc_pages 1 ZONE_LOW small_storage = Ok (Some 1, ?st1)" by code_simp
  have b: "alloc_pages 2 ZONE_NORMAL ?st1 =
      Ok (Some 5, small_storage\<lparr>orders_low := [[], [3], []] @ replicate 16 []\<rparr>)" by code_simp
  from alloc_pages_disjoint [OF small_storage_ok(1,3) a b] a b show ?thesis by blast
qed

text \<open>
  (C24) Initialisation, on a machine with less than 6 GB: every page from the first free one
  to the end of storage lies on exactly one free list, no other page does, and the lists are
  well-formed.
\<close>

theorem init_buddy_alloc_correct:
  assumes "unat start = 4096 * s" and "0 < s" and "unat start \<le> 2 ^ 31"
    and "unat start \<le> unat memsize" and "unat memsize < 6 * 2 ^ 30"
  shows "buddy_wf (init_buddy_alloc memsize start) \<and> no_overlap (init_buddy_alloc memsize start)
    \<and> free_frames (init_buddy_alloc memsize start) = mset_set {s ..< unat memsize div 4096}"
proof -
  note c = init_buddy_alloc_covers [OF assms]
  have "no_overlap (init_buddy_alloc memsize start)"
    unfolding no_overlap_def c(2) by (simp add: count_mset_set')
  with c show ?thesis by blast
qed

theorem init_buddy_alloc_correct_witness:
  "buddy_wf (init_buddy_alloc 0x100000000 0x1000000) \<and> no_overlap (init_buddy_alloc 0x100000000 0x1000000)
   \<and> free_frames (init_buddy_alloc 0x100000000 0x1000000) = mset_set {4096 ..< 1048576}"
  using init_buddy_alloc_correct [of "0x1000000" 4096 "0x100000000"] by simp

text \<open>
  (C33) On 8 GB the initialisation goes wrong: the \<^verbatim>\<open>int\<close> shift that advances the base
  after the 2 GB block at 2 GB overflows, the base returns to 0, and the 4 GB block starting
  at page 0 (the nucleus, the page descriptors and all low storage) is entered as free.
\<close>

theorem init_buddy_alloc_8GB_overlaps:
  "orders_normal (init_buddy_alloc 0x200000000 0x1000000) ! 19 = [0x80000]
   \<and> orders_normal (init_buddy_alloc 0x200000000 0x1000000) ! 20 = [0]
   \<and> \<not> no_overlap (init_buddy_alloc 0x200000000 0x1000000)"
proof -
  let ?st = "init_buddy_alloc 0x200000000 0x1000000"
  let ?os = "orders_normal ?st"
  have l: "?os ! 19 = [0x80000]" "?os ! 20 = [0]" "length ?os = 52" by code_simp+
  have "list_frames 19 (?os ! 19) + list_frames 20 (?os ! 20) \<subseteq># zone_frames ?os"
    unfolding zone_frames_def l(3)
    by (subst sum.remove [of _ 19]; simp) (subst sum.remove [of _ 20]; simp)
  also have "\<dots> \<subseteq># free_frames ?st" by (simp add: free_frames_def)
  finally have "count (list_frames 19 (?os ! 19) + list_frames 20 (?os ! 20)) 0x80000
      \<le> count (free_frames ?st) 0x80000"
    by (rule mset_subset_eq_count)
  then have "2 \<le> count (free_frames ?st) 0x80000"
    by (simp add: l frames_def count_mset_set')
  then have "\<not> count (free_frames ?st) 0x80000 \<le> 1" by simp
  then have "\<not> no_overlap ?st" unfolding no_overlap_def by blast
  with l show ?thesis by simp
qed

text \<open>
  A request for low storage always returns: with a block, or with \<^verbatim>\<open>NULL\<close> exactly
  when no free low block is large enough, the state then unchanged.
\<close>

theorem alloc_pages_low_complete:
  assumes "buddy_wf st" and "order < ZONE_LOW_MAX_ORDER"
  shows "(\<exists>p st'. alloc_pages order ZONE_LOW st = Ok (Some p, st'))
       \<or> alloc_pages order ZONE_LOW st = Ok (None, st)
         \<and> (\<forall>g \<in> {order..<ZONE_LOW_MAX_ORDER}. orders_low st ! g = [])"
proof -
  from alloc_pages_low_ok [OF assms(1), of order] assms(2) obtain q st'
    where a: "alloc_pages order ZONE_LOW st = Ok (q, st')" by auto
  then show ?thesis
    using alloc_pages_None [of order ZONE_LOW st st'] by (cases q) (auto simp: none_at_def)
qed

theorem alloc_pages_low_complete_witness:
  "alloc_pages 4 ZONE_LOW small_storage = Ok (None, small_storage)
   \<and> list_all (\<lambda>g. orders_low small_storage ! g = []) [4..<ZONE_LOW_MAX_ORDER]"
proof -
  have "(4::nat) < ZONE_LOW_MAX_ORDER" by simp
  note alloc_pages_low_complete [OF small_storage_ok(1) this]
  moreover have "alloc_pages 4 ZONE_LOW small_storage = Ok (None, small_storage)" by code_simp
  ultimately show ?thesis by (auto simp: list_all_iff)
qed

text \<open>
  A request for \<^verbatim>\<open>ZONE_NORMAL\<close> storage never reports that storage is exhausted: the
  search for a larger block runs over all 52 orders but looks each of them up in the
  19-element \<^verbatim>\<open>orders_low\<close> as well, so it leaves the array instead of returning
  \<^verbatim>\<open>NULL\<close>.
\<close>

theorem alloc_pages_normal_runs_off:
  assumes "buddy_wf st" and "order < ZONE_LOW_MAX_ORDER"
    and "\<forall>g \<in> {order..<ZONE_LOW_MAX_ORDER}. orders_low st ! g = [] \<and> orders_normal st ! g = []"
    and "orders_normal st ! 19 = []"
  shows "alloc_pages order ZONE_NORMAL st = Stop OutOfBounds"
  using alloc_pages_normal_exhausted [OF assms(1) _ _ assms(4)] assms(2,3)
  by (simp add: none_at_def)

theorem alloc_pages_normal_runs_off_witness:
  "alloc_pages 4 ZONE_NORMAL small_storage = Stop OutOfBounds"
proof (rule alloc_pages_normal_runs_off [OF small_storage_ok(1)])
  show "\<forall>g \<in> {4..<ZONE_LOW_MAX_ORDER}. orders_low small_storage ! g = [] \<and> orders_normal small_storage ! g = []"
    by (auto simp: small_storage_lists nth_append nth_Cons')
qed (simp_all add: small_storage_lists)

end
