(* ===== verification/Slab.thy ===== *)
theory Slab
  imports Buddy
begin

text \<open>
  The small-object allocator of \<^verbatim>\<open>src/cp/mm/slab.c\<close>: caches of pages, each with a
  header, an allocation bitmap and an array of equal objects.  A page in use by a cache is an
  entry of \<open>slabs\<close>, keyed by the page's address; \<open>generic\<close> holds the seven caches of
  \<^verbatim>\<open>malloc\<close>.  Pages come from the allocator of \<open>Buddy\<close>.  The contents of the
  objects are not part of the state.  Fields keep their width: \<^verbatim>\<open>used\<close>,
  \<^verbatim>\<open>count\<close>, \<^verbatim>\<open>objsize\<close> and \<^verbatim>\<open>startoff\<close> are 16-bit.
\<close>

definition SLAB_MAGIC :: u32 where "SLAB_MAGIC = 0xe2d3c1c2"
definition SLAB_CONT_MAGIC :: u32 where "SLAB_CONT_MAGIC = 0xe2d3c1c3"

record slab =
  magic :: u32
  slab_pages :: "u64 list"
  first :: u64
  objsize :: u16
  startoff :: u16
  nobj :: u16
  used :: u16
  bitmap :: "u8 list"

text \<open>\<^verbatim>\<open>sizeof(struct slab)\<close>: magic, lock, list head, pointer and four 16-bit fields, packed.\<close>

definition sizeof_slab :: nat where "sizeof_slab = 40"

record mem =
  mm :: buddy
  slabs :: "u64 \<Rightarrow> slab option"
  generic :: "u64 option list"

section \<open>The layout of a slab page\<close>

text \<open>
  \<open>slab_geometry objsize align\<close> computes the fields of \<^verbatim>\<open>create_slab\<close> that depend on
  the object size: the effective size, the number of objects and the offset of the first one.
\<close>

definition round_up16 :: "u16 \<Rightarrow> u8 \<Rightarrow> u16" where
  "round_up16 x msk =
     (if x AND ucast msk \<noteq> 0 then x + (ucast msk + 1 - (x AND ucast msk)) else x)"

definition slab_geometry :: "u16 \<Rightarrow> u8 \<Rightarrow> u16 \<times> u16 \<times> u16" where
  "slab_geometry osize align =
     (let msk = align - 1;
          osize = round_up16 osize msk;
          cnt = of_nat (8 * (PAGE_SIZE - sizeof_slab) div (8 * unat osize + 1)) :: u16;
          off = of_nat (sizeof_slab + (unat cnt + 4) div 8) :: u16;
          off' = round_up16 off msk;
          cnt' = (if off AND ucast msk \<noteq> 0
                  then let tmp = off' + cnt * osize
                       in if unat tmp > PAGE_SIZE then cnt - 1 else cnt
                  else cnt)
      in (osize, cnt', off'))"

text \<open>
  The page is cleared before it is used, so all bits of the map are 0; the map is as long as
  the objects need.
\<close>

definition bitmap_bytes :: "u16 \<Rightarrow> nat" where
  "bitmap_bytes n = (unat n + 7) div 8"

definition create_slab :: "u16 \<Rightarrow> u8 \<Rightarrow> mem \<Rightarrow> (u64 option \<times> mem) result" where
  "create_slab osize align st =
     (if osize = 0 \<or> align = 0 then Ok (None, st)
      else bindR (alloc_pages 0 ZONE_NORMAL (mm st))
        (\<lambda>(page, b). case page of
           None \<Rightarrow> Ok (None, st\<lparr>mm := b\<rparr>)
         | Some p \<Rightarrow>
             let a = page_to_addr (page_num_to_ptr p);
                 (osize, cnt, off) = slab_geometry osize align;
                 s = \<lparr>magic = SLAB_MAGIC, slab_pages = [], first = a, objsize = osize,
                      startoff = off, nobj = cnt, used = 0,
                      bitmap = replicate (bitmap_bytes cnt) 0\<rparr>
             in Ok (Some a, st\<lparr>mm := b, slabs := (slabs st)(a \<mapsto> s)\<rparr>)))"

definition get_slab :: "u64 \<Rightarrow> mem \<Rightarrow> slab result" where
  "get_slab a st = (case slabs st a of None \<Rightarrow> Stop BadPointer | Some s \<Rightarrow> Ok s)"

definition free_slab_page :: "u64 \<Rightarrow> mem \<Rightarrow> mem result" where
  "free_slab_page a st =
     bindR (free_pages a 0 (mm st)) (\<lambda>b. Ok (st\<lparr>mm := b, slabs := (slabs st)(a := None)\<rparr>))"

fun free_slab_conts :: "u64 list \<Rightarrow> mem \<Rightarrow> mem result" where
  "free_slab_conts [] st = Ok st"
| "free_slab_conts (a # as) st =
     bindR (get_slab a st) (\<lambda>s.
     bindR (BUG_ON (magic s \<noteq> SLAB_CONT_MAGIC)) (\<lambda>_.
     bindR (BUG_ON (used s \<noteq> 0)) (\<lambda>_.
     bindR (free_slab_page a st) (\<lambda>st. free_slab_conts as st))))"

definition free_slab :: "u64 option \<Rightarrow> mem \<Rightarrow> mem result" where
  "free_slab passed st =
     (case passed of
        None \<Rightarrow> Ok st
      | Some a \<Rightarrow>
          bindR (get_slab a st) (\<lambda>s.
          bindR (BUG_ON (magic s \<noteq> SLAB_MAGIC)) (\<lambda>_.
          bindR (BUG_ON (used s \<noteq> 0)) (\<lambda>_.
          bindR (free_slab_conts (slab_pages s) st) (\<lambda>st. free_slab_page a st)))))"

section \<open>Objects\<close>

definition obj_mask :: "nat \<Rightarrow> u8" where
  "obj_mask i = push_bit (7 - i mod 8) 1"

definition obj_used :: "u8 list \<Rightarrow> nat \<Rightarrow> bool" where
  "obj_used bm i \<longleftrightarrow> bm ! (i div 8) AND obj_mask i \<noteq> 0"

definition obj_addr :: "u64 \<Rightarrow> slab \<Rightarrow> nat \<Rightarrow> u64" where
  "obj_addr a s i = a + ucast (startoff s) + ucast (objsize s) * of_nat i"

fun find_free_obj :: "u8 list \<Rightarrow> nat list \<Rightarrow> nat option" where
  "find_free_obj bm [] = None"
| "find_free_obj bm (i # is) = (if obj_used bm i then find_free_obj bm is else Some i)"

definition alloc_in_page :: "u64 \<Rightarrow> slab \<Rightarrow> mem \<Rightarrow> u64 option \<times> mem" where
  "alloc_in_page a s st =
     (case find_free_obj (bitmap s) [0..<unat (nobj s)] of
        None \<Rightarrow> (None, st)
      | Some i \<Rightarrow>
          let s' = s\<lparr>used := used s + 1,
                     bitmap := (bitmap s)[i div 8 := bitmap s ! (i div 8) OR obj_mask i]\<rparr>
          in (Some (obj_addr a s i), st\<lparr>slabs := (slabs st)(a \<mapsto> s')\<rparr>))"

definition page_zone :: "u64 \<Rightarrow> zone" where
  "page_zone a = ZONE_TYPE (addr_to_page a)"

definition has_room :: "u64 \<Rightarrow> zone \<Rightarrow> slab \<Rightarrow> bool" where
  "has_room a type s \<longleftrightarrow> used s < nobj s \<and> page_zone a = type"

fun find_room :: "u64 list \<Rightarrow> zone \<Rightarrow> mem \<Rightarrow> (u64 \<times> slab) option result" where
  "find_room [] type st = Ok None"
| "find_room (a # as) type st =
     bindR (get_slab a st) (\<lambda>s.
       if has_room a type s then Ok (Some (a, s)) else find_room as type st)"

definition newpage :: "u64 \<Rightarrow> slab \<Rightarrow> zone \<Rightarrow> mem \<Rightarrow> (u64 option \<times> mem) result" where
  "newpage head s type st =
     bindR (alloc_pages 0 type (mm st))
       (\<lambda>(page, b). case page of
          None \<Rightarrow> Ok (None, st\<lparr>mm := b\<rparr>)
        | Some p \<Rightarrow>
            let a = page_to_addr (page_num_to_ptr p);
                new = \<lparr>magic = SLAB_CONT_MAGIC, slab_pages = [], first = head,
                       objsize = objsize s, startoff = startoff s, nobj = nobj s, used = 0,
                       bitmap = replicate (bitmap_bytes (nobj s)) 0\<rparr>;
                sl = (slabs st)(a \<mapsto> new);
                sl = sl(head \<mapsto> s\<lparr>slab_pages := slab_pages s @ [a]\<rparr>)
            in Ok (Some a, st\<lparr>mm := b, slabs := sl\<rparr>))"

definition alloc_slab_obj :: "u64 option \<Rightarrow> zone \<Rightarrow> mem \<Rightarrow> (u64 option \<times> mem) result" where
  "alloc_slab_obj passed type st =
     (case passed of
        None \<Rightarrow> Ok (None, st)
      | Some head \<Rightarrow>
          bindR (get_slab head st) (\<lambda>s.
          bindR (BUG_ON (magic s \<noteq> SLAB_MAGIC)) (\<lambda>_.
            if has_room head type s then Ok (alloc_in_page head s st)
            else
              bindR (find_room (slab_pages s) type st) (\<lambda>found.
                case found of
                  Some (a, sa) \<Rightarrow> Ok (alloc_in_page a sa st)
                | None \<Rightarrow>
                    bindR (newpage head s type st) (\<lambda>(page, st).
                      case page of
                        None \<Rightarrow> Ok (None, st)
                      | Some a \<Rightarrow> bindR (get_slab a st) (\<lambda>sa. Ok (alloc_in_page a sa st)))))))"

definition slab_base :: "u64 \<Rightarrow> u64" where
  "slab_base ptr = ptr AND NOT 0xfff"

definition free_slab_obj :: "u64 \<Rightarrow> mem \<Rightarrow> mem result" where
  "free_slab_obj ptr st =
     (let a = slab_base ptr in
      bindR (get_slab a st) (\<lambda>s.
        let i = unat ((ptr - a - ucast (startoff s)) div ucast (objsize s)) in
        if i div 8 < length (bitmap s)
        then Ok (st\<lparr>slabs := (slabs st)(a \<mapsto>
               s\<lparr>bitmap := (bitmap s)[i div 8 := bitmap s ! (i div 8) AND NOT (obj_mask i)],
                 used := used s - 1\<rparr>)\<rparr>)
        else Stop OutOfBounds))"

definition allocsize :: "u64 \<Rightarrow> mem \<Rightarrow> u16 result" where
  "allocsize ptr st = bindR (get_slab (slab_base ptr) st) (\<lambda>s. Ok (objsize s))"

section \<open>malloc and free\<close>

definition size_class :: "int \<Rightarrow> nat option" where
  "size_class sz =
     (if sz = 0 then None
      else if sz \<le> 16 then Some 0
      else if sz \<le> 32 then Some 1
      else if sz \<le> 64 then Some 2
      else if sz \<le> 128 then Some 3
      else if sz \<le> 256 then Some 4
      else if sz \<le> 512 then Some 5
      else if sz \<le> 1024 then Some 6
      else None)"

definition malloc :: "int \<Rightarrow> zone \<Rightarrow> mem \<Rightarrow> (u64 option \<times> mem) result" where
  "malloc sz type st =
     (case size_class sz of
        None \<Rightarrow> Ok (None, st)
      | Some k \<Rightarrow> alloc_slab_obj (generic st ! k) type st)"

definition free :: "u64 option \<Rightarrow> mem \<Rightarrow> mem result" where
  "free ptr st = (case ptr of None \<Rightarrow> Ok st | Some p \<Rightarrow> free_slab_obj p st)"

definition generic_sizes :: "(u16 \<times> u8) list" where
  "generic_sizes = [(16, 4), (32, 4), (64, 4), (128, 4), (256, 8), (512, 8), (1024, 8)]"

fun create_generic :: "(u16 \<times> u8) list \<Rightarrow> nat \<Rightarrow> mem \<Rightarrow> (bool \<times> mem) result" where
  "create_generic [] i st = Ok (True, st)"
| "create_generic ((sz, al) # rest) i st =
     bindR (create_slab sz al st) (\<lambda>(s, st).
       let st = st\<lparr>generic := (generic st)[i := s]\<rparr> in
       case s of None \<Rightarrow> Ok (False, st) | Some _ \<Rightarrow> create_generic rest (Suc i) st)"

fun free_generic :: "u64 option list \<Rightarrow> mem \<Rightarrow> mem result" where
  "free_generic [] st = Ok st"
| "free_generic (g # gs) st = bindR (free_slab g st) (\<lambda>st. free_generic gs st)"

definition init_slab :: "mem \<Rightarrow> (errno option \<times> mem) result" where
  "init_slab st =
     bindR (create_generic generic_sizes 0 st) (\<lambda>(ok, st).
       if ok then Ok (None, st)
       else bindR (free_generic (generic st) st) (\<lambda>st. Ok (Some ENOMEM, st)))"

definition boot_mem :: "buddy \<Rightarrow> mem" where
  "boot_mem b = \<lparr>mm = b, slabs = (\<lambda>_. None), generic = replicate 7 None\<rparr>"

section \<open>The bitmap\<close>

lemma bit_obj_mask: "bit (obj_mask i) n \<longleftrightarrow> n = 7 - i mod 8"
  by (auto simp: obj_mask_def bit_simps)

lemma obj_used_bit: "obj_used bm i \<longleftrightarrow> bit (bm ! (i div 8)) (7 - i mod 8)"
proof
  assume "obj_used bm i"
  then obtain n where "bit (bm ! (i div 8) AND obj_mask i) n"
    by (auto simp: obj_used_def bit_eq_iff)
  then show "bit (bm ! (i div 8)) (7 - i mod 8)" by (auto simp: bit_and_iff bit_obj_mask)
next
  assume "bit (bm ! (i div 8)) (7 - i mod 8)"
  then have "bit (bm ! (i div 8) AND obj_mask i) (7 - i mod 8)"
    by (simp add: bit_and_iff bit_obj_mask)
  then show "obj_used bm i" by (auto simp: obj_used_def)
qed

lemma same_slot: "i div 8 = j div 8 \<and> 7 - i mod 8 = 7 - (j :: nat) mod 8 \<longleftrightarrow> i = j"
proof
  assume "i div 8 = j div 8 \<and> 7 - i mod 8 = 7 - j mod 8"
  moreover have "i mod 8 < 8" "j mod 8 < 8" by simp_all
  ultimately have "i div 8 = j div 8" "i mod 8 = j mod 8" by linarith+
  then show "i = j" by (metis div_mult_mod_eq)
qed simp

lemma obj_used_set:
  assumes "i div 8 < length bm"
  shows "obj_used (bm[i div 8 := bm ! (i div 8) OR obj_mask i]) j \<longleftrightarrow> j = i \<or> obj_used bm j"
  using assms same_slot [of i j]
  by (cases "i div 8 = j div 8") (auto simp: obj_used_bit bit_or_iff bit_obj_mask)

lemma obj_used_clear:
  assumes "i div 8 < length bm"
  shows "obj_used (bm[i div 8 := bm ! (i div 8) AND NOT (obj_mask i)]) j \<longleftrightarrow> j \<noteq> i \<and> obj_used bm j"
  using assms same_slot [of i j]
  by (cases "i div 8 = j div 8")
    (auto simp: obj_used_bit bit_and_iff bit_not_iff bit_obj_mask)

lemma set_clear:
  assumes "i div 8 < length bm" and "\<not> obj_used bm i"
  shows "(bm[i div 8 := bm ! (i div 8) OR obj_mask i])
           [i div 8 := (bm ! (i div 8) OR obj_mask i) AND NOT (obj_mask i)] = bm"
proof -
  have "(bm ! (i div 8) OR obj_mask i) AND NOT (obj_mask i) = bm ! (i div 8)"
    using assms(2)
    by (intro bit_word_eqI) (auto simp: bit_simps bit_obj_mask obj_used_bit)
  then show ?thesis by simp
qed

lemma obj_used_zero: "i div 8 < n \<Longrightarrow> \<not> obj_used (replicate n 0) i"
  by (simp add: obj_used_def)

lemma find_free_obj_Some: "find_free_obj bm is = Some i \<Longrightarrow> i \<in> set is \<and> \<not> obj_used bm i"
  by (induction "is") (auto split: if_splits)

lemma find_free_obj_None: "find_free_obj bm is = None \<longleftrightarrow> (\<forall>i \<in> set is. obj_used bm i)"
  by (induction "is") auto

section \<open>Well-formed slabs\<close>

definition used_objs :: "slab \<Rightarrow> nat set" where
  "used_objs s = {i. i < unat (nobj s) \<and> obj_used (bitmap s) i}"

definition slab_ok :: "u64 \<Rightarrow> slab \<Rightarrow> bool" where
  "slab_ok a s \<longleftrightarrow> a AND PAGE_MASK = 0 \<and> length (bitmap s) = bitmap_bytes (nobj s)
     \<and> unat (used s) = card (used_objs s) \<and> 0 < unat (objsize s) \<and> 0 < unat (nobj s)
     \<and> unat (startoff s) + unat (nobj s) * unat (objsize s) \<le> PAGE_SIZE"

lemma finite_used_objs [simp]: "finite (used_objs s)"
  by (simp add: used_objs_def)

lemma bitmap_index: "length bm = bitmap_bytes n \<Longrightarrow> i < unat n \<Longrightarrow> i div 8 < length bm"
  by (simp add: bitmap_bytes_def)

lemma page_aligned: "(a :: u64) AND PAGE_MASK = 0 \<longleftrightarrow> unat a mod 4096 = 0"
proof -
  have "a AND PAGE_MASK = take_bit 12 a"
    by (simp add: PAGE_MASK_def take_bit_eq_mask mask_eq_exp_minus_1)
  moreover have "unat (take_bit 12 a) = unat a mod 4096"
    by (simp add: take_bit_eq_mod unat_mod_distrib)
  ultimately show ?thesis by (simp only: unat_eq_0 [symmetric])
qed

lemma slab_page_room: "(a :: u64) AND PAGE_MASK = 0 \<Longrightarrow> unat a + 4096 \<le> 2 ^ 64"
proof -
  assume "a AND PAGE_MASK = 0"
  then obtain q where "unat a = 4096 * q" by (auto simp: page_aligned)
  with unsigned_less [of a, where ?'a = nat] show "unat a + 4096 \<le> 2 ^ 64"
    by (simp del: unsigned_less)
qed

lemma unat_obj_addr:
  assumes "slab_ok a s" and "i < unat (nobj s)"
  shows "unat (obj_addr a s i) = unat a + (unat (startoff s) + unat (objsize s) * i)"
    and "unat (startoff s) + unat (objsize s) * i + unat (objsize s) \<le> 4096"
proof -
  have "unat (objsize s) * Suc i \<le> unat (objsize s) * unat (nobj s)"
    using assms(2) by (intro mult_le_mono) auto
  then show b: "unat (startoff s) + unat (objsize s) * i + unat (objsize s) \<le> 4096"
    using assms(1) by (simp add: slab_ok_def PAGE_SIZE_def mult.commute)
  have r: "unat a + 4096 \<le> 2 ^ 64" using assms(1) slab_page_room [of a] unfolding slab_ok_def by blast
  have "i < 65536" using assms(2) unsigned_less [of "nobj s", where ?'a = nat] by simp
  then have i: "unat (of_nat i :: u64) = i" by (simp add: unat_of_nat)
  show "unat (obj_addr a s i) = unat a + (unat (startoff s) + unat (objsize s) * i)"
    unfolding obj_addr_def using b r assms(1) by (simp add: unat_word_ariths i slab_ok_def)
qed

lemma slab_base_obj:
  assumes "slab_ok a s" and "i < unat (nobj s)"
  shows "slab_base (obj_addr a s i) = a"
proof -
  have al: "unat a mod 4096 = 0" using assms(1) by (simp add: slab_ok_def page_aligned)
  have "NOT (0xfff :: u64) = NOT (mask 12)" by (simp add: mask_eq_exp_minus_1)
  then have "slab_base p = push_bit 12 (drop_bit 12 p)" for p
    by (simp only: slab_base_def push_drop_12 PAGE_MASK_def)
  moreover have "unat (push_bit 12 (drop_bit 12 (p :: u64))) = unat p - unat p mod 4096" for p
  proof -
    have "unat (push_bit 12 (drop_bit 12 p)) = (4096 * (unat p div 4096)) mod 2 ^ 64"
      by (simp add: push_bit_eq_mult unat_word_ariths unat_drop_bit_12 [symmetric] mult.commute)
    also have "\<dots> = 4096 * (unat p div 4096)"
      using unsigned_less [of p, where ?'a = nat] by (simp del: unsigned_less)
    finally show ?thesis by (simp add: minus_mod_eq_mult_div)
  qed
  moreover have "(unat a + k) mod 4096 = k" if "k < 4096" for k
    using al that by (metis add.commute mod_add_right_eq mod_less add_0_right)
  ultimately show ?thesis
    using unat_obj_addr [OF assms] assms(1)
    by (intro word_unat_eq_iff [THEN iffD2]) (simp add: slab_ok_def)
qed

section \<open>One page: taking and returning an object\<close>

lemma alloc_in_page_spec:
  assumes ok: "slab_ok a s" and room: "used s < nobj s"
  obtains i where "i < unat (nobj s)" "i \<notin> used_objs s"
    "alloc_in_page a s st = (Some (obj_addr a s i), st\<lparr>slabs := (slabs st)(a \<mapsto>
       s\<lparr>used := used s + 1,
         bitmap := (bitmap s)[i div 8 := bitmap s ! (i div 8) OR obj_mask i]\<rparr>)\<rparr>)"
proof -
  have "card (used_objs s) < unat (nobj s)"
    using ok room by (simp add: slab_ok_def word_less_nat_alt)
  then have "used_objs s \<noteq> {0..<unat (nobj s)}" by auto
  then have "\<not> (\<forall>i \<in> set [0..<unat (nobj s)]. obj_used (bitmap s) i)" by (auto simp: used_objs_def)
  then obtain i where i: "find_free_obj (bitmap s) [0..<unat (nobj s)] = Some i"
    using find_free_obj_None by fastforce
  with find_free_obj_Some [OF i] show thesis
    by (intro that [of i]) (auto simp: alloc_in_page_def used_objs_def)
qed

lemma used_objs_take:
  assumes ok: "slab_ok a s" and i: "i < unat (nobj s)" "i \<notin> used_objs s"
  defines "s' \<equiv> s\<lparr>used := used s + 1,
         bitmap := (bitmap s)[i div 8 := bitmap s ! (i div 8) OR obj_mask i]\<rparr>"
  shows "used_objs s' = insert i (used_objs s)" and "slab_ok a s'"
proof -
  have idx: "i div 8 < length (bitmap s)" using ok i(1) bitmap_index [of "bitmap s" "nobj s" i] by (simp add: slab_ok_def)
  show u: "used_objs s' = insert i (used_objs s)"
    using i(1) by (auto simp: used_objs_def s'_def obj_used_set [OF idx])
  have "used_objs s \<subseteq> {0..<unat (nobj s)} - {i}" using i by (auto simp: used_objs_def)
  then have "card (used_objs s) \<le> card ({0..<unat (nobj s)} - {i})" by (rule card_mono [rotated]) simp
  then have "card (used_objs s) < unat (nobj s)" using i(1) by simp
  then have "unat (used s + 1) = card (used_objs s) + 1"
    using ok unsigned_less [of "nobj s", where ?'a = nat]
    by (simp add: slab_ok_def unat_word_ariths del: unsigned_less)
  then show "slab_ok a s'"
    using ok i u by (simp add: slab_ok_def s'_def)
qed

lemma obj_index:
  assumes "slab_ok a s" and "i < unat (nobj s)"
  shows "unat ((obj_addr a s i - a - ucast (startoff s)) div ucast (objsize s)) = i"
proof -
  note u = unat_obj_addr [OF assms]
  have "unat (obj_addr a s i - a) = unat (startoff s) + unat (objsize s) * i"
    using u by (subst unat_sub) (auto simp: word_le_nat_alt)
  then have "unat (obj_addr a s i - a - ucast (startoff s)) = unat (objsize s) * i"
    by (subst unat_sub) (auto simp: word_le_nat_alt)
  then show ?thesis using assms(1) by (simp add: unat_div slab_ok_def)
qed

lemma free_slab_obj_spec:
  assumes "slabs st a = Some s" and "slab_ok a s" and "i < unat (nobj s)"
  shows "free_slab_obj (obj_addr a s i) st = Ok (st\<lparr>slabs := (slabs st)(a \<mapsto>
      s\<lparr>bitmap := (bitmap s)[i div 8 := bitmap s ! (i div 8) AND NOT (obj_mask i)],
        used := used s - 1\<rparr>)\<rparr>)"
  using assms bitmap_index [of "bitmap s" "nobj s" i]
  by (simp add: free_slab_obj_def slab_base_obj get_slab_def obj_index slab_ok_def)

lemma used_objs_give:
  assumes ok: "slab_ok a s" and i: "i \<in> used_objs s"
  defines "s' \<equiv> s\<lparr>bitmap := (bitmap s)[i div 8 := bitmap s ! (i div 8) AND NOT (obj_mask i)],
        used := used s - 1\<rparr>"
  shows "used_objs s' = used_objs s - {i}" and "slab_ok a s'"
proof -
  have lt: "i < unat (nobj s)" using i by (simp add: used_objs_def)
  have idx: "i div 8 < length (bitmap s)" using ok lt bitmap_index [of "bitmap s" "nobj s" i] by (simp add: slab_ok_def)
  show u: "used_objs s' = used_objs s - {i}"
    by (auto simp: used_objs_def s'_def obj_used_clear [OF idx])
  have "0 < card (used_objs s)" using i by (auto simp: card_gt_0_iff)
  then have "unat (used s - 1) = card (used_objs s) - 1"
    using ok by (subst unat_sub) (auto simp: slab_ok_def word_le_nat_alt)
  then show "slab_ok a s'" using ok i u by (simp add: slab_ok_def s'_def)
qed

section \<open>The whole allocator\<close>

text \<open>
  The pages of a cache: its first page and the pages on the list of the first page, all with
  the same geometry.  The invariant of the memory state: every slab page is well-formed, is
  not free, and every cache of \<open>generic\<close> is intact.
\<close>

definition cache_pages :: "u64 \<Rightarrow> slab \<Rightarrow> u64 list" where
  "cache_pages h s = h # slab_pages s"

definition cache_ok :: "mem \<Rightarrow> u64 \<Rightarrow> bool" where
  "cache_ok st h \<longleftrightarrow> (\<exists>s. slabs st h = Some s \<and> magic s = SLAB_MAGIC \<and> h \<notin> set (slab_pages s)
     \<and> distinct (slab_pages s)
     \<and> (\<forall>a \<in> set (slab_pages s). \<exists>sa. slabs st a = Some sa \<and> magic sa = SLAB_CONT_MAGIC
          \<and> objsize sa = objsize s))"

definition mem_ok :: "mem \<Rightarrow> bool" where
  "mem_ok st \<longleftrightarrow> buddy_wf (mm st) \<and> no_overlap (mm st)
     \<and> (\<forall>a s. slabs st a = Some s \<longrightarrow> slab_ok a s \<and> unat a div 4096 \<notin># free_frames (mm st))"

definition page_live :: "mem \<Rightarrow> u64 \<Rightarrow> u64 set" where
  "page_live st a = (case slabs st a of None \<Rightarrow> {} | Some s \<Rightarrow> obj_addr a s ` used_objs s)"

definition live :: "mem \<Rightarrow> u64 set" where
  "live st = (\<Union>a. page_live st a)"

lemma obj_addr_inj:
  assumes "slab_ok a s" "i < unat (nobj s)" "slab_ok b t" "j < unat (nobj t)"
    and "obj_addr a s i = obj_addr b t j"
  shows "a = b"
  using slab_base_obj [OF assms(1,2)] slab_base_obj [OF assms(3,4)] assms(5) by metis

lemma obj_addr_inj_idx:
  assumes "slab_ok a s" "i < unat (nobj s)" "j < unat (nobj s)" "obj_addr a s i = obj_addr a s j"
  shows "i = j"
  using obj_index [OF assms(1,2)] obj_index [OF assms(1,3)] assms(4) by metis

text \<open>Replacing one page by a version of it with one more, or one less, used object.\<close>

lemma live_upd_used:
  assumes slabs: "\<forall>b t. slabs st b = Some t \<longrightarrow> slab_ok b t"
    and s: "slabs st a = Some s" and ok: "slab_ok a s" "slab_ok a s'"
    and same: "nobj s' = nobj s" "objsize s' = objsize s" "startoff s' = startoff s"
    and i: "i < unat (nobj s)"
  shows "used_objs s' = insert i (used_objs s) \<Longrightarrow>
      live (st\<lparr>slabs := (slabs st)(a \<mapsto> s')\<rparr>) = insert (obj_addr a s i) (live st)"
    and "used_objs s' = used_objs s - {i} \<Longrightarrow>
      live (st\<lparr>slabs := (slabs st)(a \<mapsto> s')\<rparr>) = live st - {obj_addr a s i}"
proof -
  let ?st = "st\<lparr>slabs := (slabs st)(a \<mapsto> s')\<rparr>" and ?rest = "\<Union>b\<in>-{a}. page_live st b"
  have addr: "obj_addr a s' = obj_addr a s" by (simp add: obj_addr_def same fun_eq_iff)
  have split: "(\<Union>b. f b) = f a \<union> (\<Union>b\<in>-{a}. f b)" for f :: "u64 \<Rightarrow> u64 set" by auto
  have live: "live st = obj_addr a s ` used_objs s \<union> ?rest"
    unfolding live_def split [of "page_live st"] using s by (simp add: page_live_def)
  have live': "live ?st = obj_addr a s ` used_objs s' \<union> ?rest"
    unfolding live_def split [of "page_live ?st"] by (simp add: page_live_def addr)
  show "used_objs s' = insert i (used_objs s) \<Longrightarrow> live ?st = insert (obj_addr a s i) (live st)"
    unfolding live live' by simp
  have "x = i" if "obj_addr a s x = obj_addr a s i" "x \<in> used_objs s" for x
    using obj_addr_inj_idx [OF ok(1) _ i that(1)] that(2) by (simp add: used_objs_def)
  then have 1: "obj_addr a s ` (used_objs s - {i}) = obj_addr a s ` used_objs s - {obj_addr a s i}"
    by auto
  have 2: "obj_addr a s i \<notin> ?rest"
  proof
    assume "obj_addr a s i \<in> ?rest"
    then obtain b where b: "b \<noteq> a" "obj_addr a s i \<in> page_live st b" by blast
    then obtain t j where "slabs st b = Some t" "j \<in> used_objs t" "obj_addr a s i = obj_addr b t j"
      by (auto simp: page_live_def split: option.splits)
    note b(1) this
    with slabs obj_addr_inj [OF ok(1) i, of b t j] show False by (auto simp: used_objs_def)
  qed
  show "used_objs s' = used_objs s - {i} \<Longrightarrow> live ?st = live st - {obj_addr a s i}"
    unfolding live live' using 1 2 by auto
qed

lemma cache_ok_upd:
  assumes "cache_ok st h" and "slabs st a = Some s"
    and "magic s' = magic s" "slab_pages s' = slab_pages s" "objsize s' = objsize s"
  shows "cache_ok (st\<lparr>slabs := (slabs st)(a \<mapsto> s')\<rparr>) h"
  using assms unfolding cache_ok_def by (cases "h = a") fastforce+

text \<open>
  What an allocation promises about the state: the invariant and every cache are kept, the
  object was not in use, it is the only change to the objects in use, and it lies in a page
  whose objects have the size \<open>n\<close>.
\<close>

definition same_sizes :: "mem \<Rightarrow> mem \<Rightarrow> bool" where
  "same_sizes st st' \<longleftrightarrow>
     (\<forall>h s. slabs st h = Some s \<longrightarrow> (\<exists>s'. slabs st' h = Some s' \<and> objsize s' = objsize s))"

definition gives_obj :: "mem \<Rightarrow> u64 \<Rightarrow> u16 \<Rightarrow> mem \<Rightarrow> bool" where
  "gives_obj st p n st' \<longleftrightarrow> mem_ok st' \<and> p \<notin> live st \<and> live st' = insert p (live st)
     \<and> allocsize p st' = Ok n \<and> (\<forall>h. cache_ok st h \<longrightarrow> cache_ok st' h)
     \<and> generic st' = generic st \<and> same_sizes st st'"

lemma same_sizes_trans: "same_sizes a b \<Longrightarrow> same_sizes b c \<Longrightarrow> same_sizes a c"
  unfolding same_sizes_def by metis

lemma alloc_in_page_gives:
  assumes mem: "mem_ok st" and s: "slabs st a = Some s" and room: "used s < nobj s"
  obtains p st' where "alloc_in_page a s st = (Some p, st')" "gives_obj st p (objsize s) st'"
    "slab_base p = a"
proof -
  have ok: "slab_ok a s" and all: "\<forall>b t. slabs st b = Some t \<longrightarrow> slab_ok b t"
    using mem s by (auto simp: mem_ok_def)
  obtain i where i: "i < unat (nobj s)" "i \<notin> used_objs s"
    and eq: "alloc_in_page a s st = (Some (obj_addr a s i), st\<lparr>slabs := (slabs st)(a \<mapsto>
       s\<lparr>used := used s + 1,
         bitmap := (bitmap s)[i div 8 := bitmap s ! (i div 8) OR obj_mask i]\<rparr>)\<rparr>)"
    by (rule alloc_in_page_spec [OF ok room])
  let ?s = "s\<lparr>used := used s + 1,
         bitmap := (bitmap s)[i div 8 := bitmap s ! (i div 8) OR obj_mask i]\<rparr>"
  let ?st = "st\<lparr>slabs := (slabs st)(a \<mapsto> ?s)\<rparr>"
  note take = used_objs_take [OF ok i]
  have "obj_addr a s i \<notin> page_live st b" for b
  proof
    assume "obj_addr a s i \<in> page_live st b"
    then obtain t j where t: "slabs st b = Some t" "j \<in> used_objs t" "obj_addr a s i = obj_addr b t j"
      by (auto simp: page_live_def split: option.splits)
    then have "a = b" using all obj_addr_inj [OF ok i(1), of b t j] by (auto simp: used_objs_def)
    with t s i obj_addr_inj_idx [OF ok i(1), of j] show False by (auto simp: used_objs_def)
  qed
  then have "obj_addr a s i \<notin> live st" by (simp add: live_def)
  moreover have "live ?st = insert (obj_addr a s i) (live st)"
    by (rule live_upd_used(1) [OF all s ok take(2) _ _ _ i(1) take(1)]) simp_all
  moreover have "mem_ok ?st" using mem s take(2) by (auto simp: mem_ok_def)
  moreover have "allocsize (obj_addr a s i) ?st = Ok (objsize s)"
    by (simp add: allocsize_def slab_base_obj [OF ok i(1)] get_slab_def)
  moreover have "\<forall>h. cache_ok st h \<longrightarrow> cache_ok ?st h"
    using cache_ok_upd [OF _ s, of _ ?s] by simp
  moreover have "same_sizes st ?st" using s by (auto simp: same_sizes_def)
  ultimately show thesis
    using slab_base_obj [OF ok i(1)] by (intro that [OF eq]) (simp_all add: gives_obj_def)
qed

lemma frames_zero: "frames p 0 = {unat p}"
  by (auto simp: frames_def)

lemma page_addr_facts:
  assumes "buddy_block p 0"
  defines "a \<equiv> page_to_addr (page_num_to_ptr p)"
  shows "a AND PAGE_MASK = 0" and "unat a div 4096 = unat p"
proof -
  from assms obtain low where "zone_block low p 0" by (auto simp: buddy_block_def)
  then have b: "unat p < 2 ^ 52" by (auto simp: zone_block_def split: if_splits)
  then have "unat a = 4096 * unat p"
    unfolding a_def by (simp add: page_to_addr_num push_bit_eq_mult unat_word_ariths)
  then show "a AND PAGE_MASK = 0" and "unat a div 4096 = unat p" by (simp_all add: page_aligned)
qed

lemma fresh_page:
  assumes mem: "mem_ok st" and alloc: "alloc_pages 0 type (mm st) = Ok (Some p, b)"
  defines "a \<equiv> page_to_addr (page_num_to_ptr p)"
  shows "slabs st a = None" "a AND PAGE_MASK = 0" "unat a div 4096 \<notin># free_frames b"
    "mem_ok (st\<lparr>mm := b\<rparr>)"
proof -
  have wf: "buddy_wf (mm st)" "buddy.disjoint_free (mm st)"
    using mem by (auto simp: mem_ok_def no_overlap_disjoint)
  note t = buddy.alloc_takes [OF wf(1) alloc] and d = buddy.alloc_disjoint [OF wf alloc]
  have bl: "buddy_block p 0" using t by blast
  note pa = page_addr_facts [OF bl, folded a_def]
  have p: "unat p \<in># free_frames (mm st)" "unat p \<notin># free_frames b"
    using d by (auto simp: frames_zero)
  show "slabs st a = None"
  proof (rule ccontr)
    assume "slabs st a \<noteq> None"
    then have "unat a div 4096 \<notin># free_frames (mm st)" using mem by (auto simp: mem_ok_def)
    with p(1) pa(2) show False by simp
  qed
  show "a AND PAGE_MASK = 0" "unat a div 4096 \<notin># free_frames b" using pa p by simp_all
  show "mem_ok (st\<lparr>mm := b\<rparr>)"
    using mem t d by (auto simp: mem_ok_def no_overlap_disjoint)
qed

lemma used_objs_fresh:
  "used_objs (s\<lparr>bitmap := replicate (bitmap_bytes (nobj s)) 0\<rparr>) = {}"
  by (auto simp: used_objs_def bitmap_bytes_def obj_used_zero)

lemma newpage_gives:
  assumes mem: "mem_ok st" and s: "slabs st h = Some s" and new: "newpage h s type st = Ok (Some a, st')"
  obtains sa where "slabs st' a = Some sa" "objsize sa = objsize s" "used sa < nobj sa" "mem_ok st'"
    "live st' = live st" "\<forall>g. cache_ok st g \<longrightarrow> cache_ok st' g" "generic st' = generic st"
    "same_sizes st st'" "slabs st a = None"
proof -
  from new obtain p b where alloc: "alloc_pages 0 type (mm st) = Ok (Some p, b)"
    and a: "a = page_to_addr (page_num_to_ptr p)"
    by (auto simp: newpage_def bindR_eq_Ok Let_def split: option.splits)
  note f = fresh_page [OF mem alloc, folded a]
  define sa where "sa = \<lparr>magic = SLAB_CONT_MAGIC, slab_pages = [], first = h, objsize = objsize s,
    startoff = startoff s, nobj = nobj s, used = 0, bitmap = replicate (bitmap_bytes (nobj s)) 0\<rparr>"
  define sh where "sh = s\<lparr>slab_pages := slab_pages s @ [a]\<rparr>"
  have ha: "a \<noteq> h" using f(1) s by auto
  have st': "st' = st\<lparr>mm := b, slabs := (slabs st)(a \<mapsto> sa, h \<mapsto> sh)\<rparr>"
    using new alloc a by (simp add: newpage_def Let_def sa_def sh_def)
  have oks: "slab_ok h s" using mem s by (simp add: mem_ok_def)
  have empty: "used_objs sa = {}" using used_objs_fresh [of sa] by (simp add: sa_def)
  have oka: "slab_ok a sa" using oks f(2) empty by (simp add: slab_ok_def sa_def bitmap_bytes_def)
  have okh: "slab_ok h sh" "used_objs sh = used_objs s" "obj_addr h sh = obj_addr h s"
    using oks by (simp_all add: slab_ok_def sh_def used_objs_def obj_addr_def fun_eq_iff)
  have "used sa < nobj sa" using oks by (simp add: sa_def slab_ok_def word_less_nat_alt)
  moreover have "mem_ok st'"
    using f(3,4) oka okh s by (auto simp: st' mem_ok_def split: if_splits)
  moreover have "page_live st' c = page_live st c" for c
    using f(1) s ha empty okh by (auto simp: page_live_def st')
  then have "live st' = live st" by (simp add: live_def)
  moreover have "cache_ok st' g" if g: "cache_ok st g" for g
  proof -
    from g obtain t where t: "slabs st g = Some t" "magic t = SLAB_MAGIC" "g \<notin> set (slab_pages t)"
      "distinct (slab_pages t)" and conts: "\<forall>c \<in> set (slab_pages t). \<exists>sc. slabs st c = Some sc
        \<and> magic sc = SLAB_CONT_MAGIC \<and> objsize sc = objsize t" by (auto simp: cache_ok_def)
    have "g \<noteq> a" "a \<notin> set (slab_pages t)" using t f(1) conts by auto
    moreover have "\<forall>c \<in> set (slab_pages t). \<exists>sc. slabs st' c = Some sc
        \<and> magic sc = SLAB_CONT_MAGIC \<and> objsize sc = objsize t"
      using conts s calculation by (auto simp: st' sh_def)
    ultimately show ?thesis
      using t s ha by (cases "g = h") (auto simp: cache_ok_def st' sh_def sa_def)
  qed
  moreover have "same_sizes st st'" using f(1) s ha by (auto simp: same_sizes_def st' sh_def)
  ultimately show thesis using ha f(1) by (intro that [of sa]) (auto simp: st' sa_def)
qed

lemma find_room_None:
  assumes "\<forall>a \<in> set as. \<exists>s. slabs st a = Some s \<and> \<not> has_room a type s"
  shows "find_room as type st = Ok None"
  using assms by (induction as) (auto simp: get_slab_def)

lemma find_room_Some:
  assumes "find_room as type st = Ok (Some (a, s))"
  shows "a \<in> set as \<and> slabs st a = Some s \<and> has_room a type s"
  using assms
proof (induction as)
  case (Cons b as)
  then show ?case
    by (cases "slabs st b") (auto simp: get_slab_def split: if_splits)
qed simp

lemma alloc_slab_obj_gives:
  assumes mem: "mem_ok st" and h: "cache_ok st h" and s: "slabs st h = Some s"
    and alloc: "alloc_slab_obj (Some h) type st = Ok (Some p, st')"
  shows "gives_obj st p (objsize s) st'"
proof -
  have magic: "magic s = SLAB_MAGIC" and conts: "\<And>a sa. a \<in> set (slab_pages s) \<Longrightarrow>
      slabs st a = Some sa \<Longrightarrow> objsize sa = objsize s"
    using h s by (auto simp: cache_ok_def)
  show ?thesis
  proof (cases "has_room h type s")
    case True
    then have "alloc_in_page h s st = (Some p, st')"
      using alloc s magic by (simp add: alloc_slab_obj_def get_slab_def)
    with True alloc_in_page_gives [OF mem s] show ?thesis by (auto simp: has_room_def)
  next
    case False
    with alloc s magic obtain r where r: "find_room (slab_pages s) type st = Ok r"
      by (auto simp: alloc_slab_obj_def get_slab_def bindR_eq_Ok)
    show ?thesis
    proof (cases r)
      case (Some as)
      then obtain a sa where as: "r = Some (a, sa)" by (cases as) auto
      with find_room_Some r have f: "a \<in> set (slab_pages s)" "slabs st a = Some sa" "has_room a type sa"
        by blast+
      have "alloc_in_page a sa st = (Some p, st')"
        using alloc s magic False r as by (simp add: alloc_slab_obj_def get_slab_def)
      with f conts [OF f(1,2)] alloc_in_page_gives [OF mem f(2)] show ?thesis
        by (auto simp: has_room_def)
    next
      case None
      then obtain page st1 where n: "newpage h s type st = Ok (page, st1)"
        and rest: "(case page of None \<Rightarrow> Ok (None, st1)
                      | Some a \<Rightarrow> bindR (get_slab a st1) (\<lambda>sa. Ok (alloc_in_page a sa st1))) = Ok (Some p, st')"
        using alloc s magic False r by (auto simp: alloc_slab_obj_def get_slab_def bindR_eq_Ok)
      then obtain a where a: "page = Some a" by (cases page) auto
      obtain sa where sa: "slabs st1 a = Some sa" "objsize sa = objsize s" "used sa < nobj sa" "mem_ok st1"
        "live st1 = live st" "\<forall>g. cache_ok st g \<longrightarrow> cache_ok st1 g" "generic st1 = generic st"
        "same_sizes st st1" "slabs st a = None"
        by (rule newpage_gives [OF mem s n [unfolded a]])
      have "alloc_in_page a sa st1 = (Some p, st')" using rest a sa(1) by (simp add: get_slab_def)
      with alloc_in_page_gives [OF sa(4,1,3)] have "gives_obj st1 p (objsize sa) st'" by auto
      with sa same_sizes_trans [of st st1 st'] show ?thesis by (simp add: gives_obj_def)
    qed
  qed
qed

section \<open>The heap of the program\<close>

text \<open>\<open>heap_ok\<close>: the seven caches of \<^verbatim>\<open>malloc\<close> exist, each with its object size.\<close>

definition heap_ok :: "mem \<Rightarrow> bool" where
  "heap_ok st \<longleftrightarrow> mem_ok st \<and> length (generic st) = 7
     \<and> (\<forall>k < 7. \<exists>h s. generic st ! k = Some h \<and> cache_ok st h \<and> slabs st h = Some s
          \<and> objsize s = fst (generic_sizes ! k))"

lemma heap_ok_mono:
  assumes "heap_ok st" and "mem_ok st'" and "generic st' = generic st" and "same_sizes st st'"
    and "\<forall>h. cache_ok st h \<longrightarrow> cache_ok st' h"
  shows "heap_ok st'"
  unfolding heap_ok_def
proof (intro conjI allI impI)
  fix k :: nat assume "k < 7"
  with assms(1) obtain h s where h: "generic st ! k = Some h" "cache_ok st h" "slabs st h = Some s"
    "objsize s = fst (generic_sizes ! k)" by (auto simp: heap_ok_def)
  with assms(4) obtain s' where "slabs st' h = Some s'" "objsize s' = objsize s"
    unfolding same_sizes_def by blast
  with h assms(3,5) show "\<exists>h s. generic st' ! k = Some h \<and> cache_ok st' h \<and> slabs st' h = Some s
      \<and> objsize s = fst (generic_sizes ! k)" by auto
qed (use assms in \<open>auto simp: heap_ok_def\<close>)

lemma heap_ok_gives: "heap_ok st \<Longrightarrow> gives_obj st p n st' \<Longrightarrow> heap_ok st'"
  unfolding gives_obj_def by (intro heap_ok_mono [of st st']) auto

lemma size_class_fits:
  assumes "size_class sz = Some k"
  shows "k < 7" and "sz \<le> uint (fst (generic_sizes ! k))"
  using assms by (auto simp: size_class_def generic_sizes_def split: if_splits)

lemma malloc_gives:
  assumes heap: "heap_ok st" and m: "malloc sz type st = Ok (Some p, st')"
  shows "\<exists>n. gives_obj st p n st' \<and> sz \<le> uint n"
proof -
  from m obtain k where k: "size_class sz = Some k"
    by (auto simp: malloc_def split: option.splits)
  from heap size_class_fits(1) [OF k] obtain h s where h: "generic st ! k = Some h" "cache_ok st h"
    "slabs st h = Some s" "objsize s = fst (generic_sizes ! k)" by (auto simp: heap_ok_def)
  have "gives_obj st p (objsize s) st'"
    by (rule alloc_slab_obj_gives [OF _ h(2,3)]) (use heap m k h(1) in \<open>auto simp: heap_ok_def malloc_def\<close>)
  with size_class_fits(2) [OF k] h(4) show ?thesis by auto
qed

lemma free_takes:
  assumes heap: "heap_ok st" and p: "p \<in> live st"
  shows "\<exists>st'. free (Some p) st = Ok st' \<and> heap_ok st' \<and> live st' = live st - {p}"
proof -
  have mem: "mem_ok st" using heap by (simp add: heap_ok_def)
  from p obtain a s i where s: "slabs st a = Some s" "i \<in> used_objs s" and pi: "p = obj_addr a s i"
    by (auto simp: live_def page_live_def split: option.splits)
  have all: "\<forall>b t. slabs st b = Some t \<longrightarrow> slab_ok b t" using mem by (simp add: mem_ok_def)
  then have ok: "slab_ok a s" using s by simp
  have i: "i < unat (nobj s)" using s(2) by (simp add: used_objs_def)
  let ?s = "s\<lparr>bitmap := (bitmap s)[i div 8 := bitmap s ! (i div 8) AND NOT (obj_mask i)],
        used := used s - 1\<rparr>"
  let ?st = "st\<lparr>slabs := (slabs st)(a \<mapsto> ?s)\<rparr>"
  note g = used_objs_give [OF ok s(2)]
  have "live ?st = live st - {p}"
    unfolding pi by (rule live_upd_used(2) [OF all s(1) ok g(2) _ _ _ i g(1)]) simp_all
  moreover have "mem_ok ?st" using mem s(1) g(2) by (auto simp: mem_ok_def)
  moreover have "\<forall>h. cache_ok st h \<longrightarrow> cache_ok ?st h" using cache_ok_upd [OF _ s(1), of _ ?s] by simp
  moreover have "same_sizes st ?st" using s(1) by (auto simp: same_sizes_def)
  ultimately show ?thesis
    using heap_ok_mono [OF heap, of ?st] free_slab_obj_spec [OF s(1) ok i]
    by (simp add: free_def pi)
qed

text \<open>
  The contract of an object allocator, and what its clients may conclude: objects in use stay
  in use until they are freed, and no two of them are the same.
\<close>

locale object_allocator =
  fixes alloc :: "'n \<Rightarrow> 't \<Rightarrow> 's \<Rightarrow> ('p option \<times> 's) result"
    and dealloc :: "'p \<Rightarrow> 's \<Rightarrow> 's result"
    and objs :: "'s \<Rightarrow> 'p set"
    and ok :: "'s \<Rightarrow> bool"
  assumes alloc_gives: "ok s \<Longrightarrow> alloc n t s = Ok (Some p, s') \<Longrightarrow>
      ok s' \<and> p \<notin> objs s \<and> objs s' = insert p (objs s)"
    and dealloc_takes: "ok s \<Longrightarrow> p \<in> objs s \<Longrightarrow>
      \<exists>s'. dealloc p s = Ok s' \<and> ok s' \<and> objs s' = objs s - {p}"
begin

fun alloc_all :: "('n \<times> 't) list \<Rightarrow> 's \<Rightarrow> ('p list \<times> 's) option" where
  "alloc_all [] s = Some ([], s)"
| "alloc_all ((n, t) # reqs) s =
     (case alloc n t s of
        Inr (Some p, s1) \<Rightarrow> (case alloc_all reqs s1 of None \<Rightarrow> None | Some (ps, s2) \<Rightarrow> Some (p # ps, s2))
      | _ \<Rightarrow> None)"

fun dealloc_all :: "'p list \<Rightarrow> 's \<Rightarrow> 's result" where
  "dealloc_all [] s = Ok s"
| "dealloc_all (p # ps) s = bindR (dealloc p s) (dealloc_all ps)"

lemma alloc_all_distinct:
  "ok s \<Longrightarrow> alloc_all reqs s = Some (ps, s') \<Longrightarrow>
   ok s' \<and> distinct ps \<and> set ps \<inter> objs s = {} \<and> objs s' = set ps \<union> objs s"
proof (induction reqs arbitrary: s ps)
  case (Cons r reqs)
  obtain n t where r: "r = (n, t)" by (cases r)
  from Cons.prems(2) r obtain p s1 qs where a: "alloc n t s = Ok (Some p, s1)"
    and rest: "alloc_all reqs s1 = Some (qs, s')" and ps: "ps = p # qs"
    by (auto split: sum.splits option.splits)
  from alloc_gives [OF Cons.prems(1) a] have g: "ok s1" "p \<notin> objs s" "objs s1 = insert p (objs s)" by auto
  from Cons.IH [OF g(1) rest] g ps show ?case by auto
qed simp

lemma dealloc_all_takes:
  "ok s \<Longrightarrow> distinct ps \<Longrightarrow> set ps \<subseteq> objs s \<Longrightarrow>
   \<exists>s'. dealloc_all ps s = Ok s' \<and> ok s' \<and> objs s' = objs s - set ps"
proof (induction ps arbitrary: s)
  case (Cons p ps)
  then obtain s1 where s1: "dealloc p s = Ok s1" "ok s1" "objs s1 = objs s - {p}"
    using dealloc_takes [of s p] by auto
  have "set ps \<subseteq> objs s1" using Cons.prems(2,3) s1(3) by auto
  with Cons.IH [OF s1(2)] Cons.prems(2) obtain s2 where
    s2: "dealloc_all ps s1 = Ok s2" "ok s2" "objs s2 = objs s1 - set ps" by auto
  have "objs s2 = objs s - set (p # ps)" unfolding s2(3) s1(3) by auto
  with s1(1) s2(1,2) show ?case by simp
qed simp

lemma alloc_dealloc_all:
  assumes "ok s" and "alloc_all reqs s = Some (ps, s1)"
  shows "\<exists>s2. dealloc_all ps s1 = Ok s2 \<and> ok s2 \<and> objs s2 = objs s"
proof -
  note d = alloc_all_distinct [OF assms]
  then obtain s2 where "dealloc_all ps s1 = Ok s2" "ok s2" "objs s2 = objs s1 - set ps"
    using dealloc_all_takes [of s1 ps] by auto
  moreover have "objs s1 - set ps = objs s" using d by blast
  ultimately show ?thesis by simp
qed

end

interpretation heap: object_allocator malloc "\<lambda>p. free (Some p)" live heap_ok
proof unfold_locales
  fix s n t p s'
  assume ok: "heap_ok s" and m: "malloc n t s = Ok (Some p, s')"
  from malloc_gives [OF ok m] heap_ok_gives [OF ok]
  show "heap_ok s' \<and> p \<notin> live s \<and> live s' = insert p (live s)" by (auto simp: gives_obj_def)
qed (rule free_takes)

section \<open>Starting the caches\<close>

definition geometry_ok :: "u16 \<times> u16 \<times> u16 \<Rightarrow> bool" where
  "geometry_ok g \<longleftrightarrow> (case g of (osz, cnt, off) \<Rightarrow>
     0 < unat osz \<and> 0 < unat cnt \<and> unat off + unat cnt * unat osz \<le> PAGE_SIZE)"

lemma create_slab_gives:
  assumes mem: "mem_ok st" and geo: "geometry_ok (slab_geometry osz al)"
    and c: "create_slab osz al st = Ok (Some a, st')"
  shows "mem_ok st' \<and> cache_ok st' a \<and> (\<exists>s. slabs st' a = Some s \<and> objsize s = fst (slab_geometry osz al))
    \<and> (\<forall>h. cache_ok st h \<longrightarrow> cache_ok st' h) \<and> generic st' = generic st \<and> same_sizes st st'
    \<and> live st' = live st"
proof -
  obtain osz' cnt off where g: "slab_geometry osz al = (osz', cnt, off)" by (cases "slab_geometry osz al")
  from c obtain p b where alloc: "alloc_pages 0 ZONE_NORMAL (mm st) = Ok (Some p, b)"
    and a: "a = page_to_addr (page_num_to_ptr p)"
    by (auto simp: create_slab_def bindR_eq_Ok Let_def g split: option.splits if_splits)
  note f = fresh_page [OF mem alloc, folded a]
  define s where "s = \<lparr>magic = SLAB_MAGIC, slab_pages = [], first = a, objsize = osz',
    startoff = off, nobj = cnt, used = 0, bitmap = replicate (bitmap_bytes cnt) 0\<rparr>"
  have st': "st' = st\<lparr>mm := b, slabs := (slabs st)(a \<mapsto> s)\<rparr>"
    using c alloc a by (auto simp: create_slab_def Let_def g s_def split: if_splits)
  have empty: "used_objs s = {}" using used_objs_fresh [of s] by (simp add: s_def)
  have "slab_ok a s" using geo f(2) empty by (simp add: slab_ok_def s_def bitmap_bytes_def geometry_ok_def g)
  then have "mem_ok st'" using f(3,4) by (auto simp: st' mem_ok_def)
  moreover have "cache_ok st' h" if h: "cache_ok st h" for h
  proof -
    from h f(1) have "h \<noteq> a" by (auto simp: cache_ok_def)
    with h f(1) show ?thesis unfolding cache_ok_def st' by fastforce
  qed
  moreover have "cache_ok st' a" by (simp add: cache_ok_def st' s_def)
  moreover have "page_live st' c = page_live st c" for c using f(1) empty by (auto simp: page_live_def st')
  then have "live st' = live st" by (simp add: live_def)
  moreover have "same_sizes st st'" using f(1) by (auto simp: same_sizes_def st')
  ultimately show ?thesis by (auto simp: st' s_def g)
qed

lemma geometries:
  "slab_geometry 16 4 = (16, 251, 72)" "slab_geometry 32 4 = (32, 126, 56)"
  "slab_geometry 64 4 = (64, 63, 48)" "slab_geometry 128 4 = (128, 31, 44)"
  "slab_geometry 256 8 = (256, 15, 48)" "slab_geometry 512 8 = (512, 7, 48)"
  "slab_geometry 1024 8 = (1024, 3, 40)"
  by (simp_all add: slab_geometry_def round_up16_def Let_def PAGE_SIZE_def sizeof_slab_def)

lemma generic_geometry:
  "list_all (\<lambda>(sz, al). geometry_ok (slab_geometry sz al) \<and> fst (slab_geometry sz al) = sz) generic_sizes"
  by (simp add: generic_sizes_def geometries geometry_ok_def PAGE_SIZE_def)

lemma create_generic_gives:
  assumes "mem_ok st" and "list_all (\<lambda>(sz, al). geometry_ok (slab_geometry sz al) \<and> fst (slab_geometry sz al) = sz) sizes"
    and "create_generic sizes i st = Ok (True, st')" and "i + length sizes = length (generic st)"
  shows "mem_ok st' \<and> (\<forall>h. cache_ok st h \<longrightarrow> cache_ok st' h) \<and> same_sizes st st'
    \<and> length (generic st') = length (generic st) \<and> take i (generic st') = take i (generic st)
    \<and> live st' = live st
    \<and> (\<forall>k < length sizes. \<exists>h s. generic st' ! (i + k) = Some h \<and> cache_ok st' h
          \<and> slabs st' h = Some s \<and> objsize s = fst (sizes ! k))"
  using assms
proof (induction sizes arbitrary: i st)
  case Nil
  then show ?case by (auto simp: same_sizes_def)
next
  case (Cons x sizes)
  obtain sz al where x: "x = (sz, al)" by (cases x)
  from Cons.prems(3) x obtain c st1 where c: "create_slab sz al st = Ok (c, st1)"
    and rest: "(case c of None \<Rightarrow> Ok (False, st1\<lparr>generic := (generic st1)[i := c]\<rparr>)
       | Some _ \<Rightarrow> create_generic sizes (Suc i) (st1\<lparr>generic := (generic st1)[i := c]\<rparr>)) = Ok (True, st')"
    by (auto simp: bindR_eq_Ok Let_def)
  then obtain a where a: "c = Some a" by (cases c) auto
  have geo: "geometry_ok (slab_geometry sz al)" "fst (slab_geometry sz al) = sz"
    using Cons.prems(2) x by auto
  note g = create_slab_gives [OF Cons.prems(1) geo(1) c [unfolded a]]
  let ?st = "st1\<lparr>generic := (generic st1)[i := Some a]\<rparr>"
  have ext: "mem_ok ?st = mem_ok st1" "cache_ok ?st h = cache_ok st1 h" "live ?st = live st1"
    "same_sizes st ?st = same_sizes st st1" for h
    by (simp_all add: mem_ok_def cache_ok_def same_sizes_def live_def page_live_def)
  have "mem_ok ?st" using g ext by simp
  from Cons.IH [OF this _ rest [unfolded a, simplified]] Cons.prems(2,4) g
  have IH: "mem_ok st'" "\<forall>h. cache_ok ?st h \<longrightarrow> cache_ok st' h" "same_sizes ?st st'"
    "length (generic st') = length (generic st)" "take (Suc i) (generic st') = take (Suc i) (generic ?st)"
    "live st' = live ?st"
    "\<forall>k < length sizes. \<exists>h s. generic st' ! (Suc i + k) = Some h \<and> cache_ok st' h
          \<and> slabs st' h = Some s \<and> objsize s = fst (sizes ! k)"
    by auto
  have i: "i < length (generic st')" using Cons.prems(4) IH(4) by simp
  have at_i: "generic st' ! i = Some a"
    using arg_cong [OF IH(5), of "\<lambda>xs. xs ! i"] i IH(4) g by simp
  from g obtain s where s: "slabs ?st a = Some s" "objsize s = sz" using geo(2) by auto
  with IH(3) obtain s' where s': "slabs st' a = Some s'" "objsize s' = sz"
    unfolding same_sizes_def by metis
  have "cache_ok st' a" using g IH(2) ext by simp
  with at_i s' IH(7) have "\<forall>k < length (x # sizes). \<exists>h s. generic st' ! (i + k) = Some h \<and> cache_ok st' h
          \<and> slabs st' h = Some s \<and> objsize s = fst ((x # sizes) ! k)"
    by (auto simp: less_Suc_eq_0_disj x)
  moreover have "take i (generic st') = take i (generic st)"
    using arg_cong [OF IH(5), of "take i"] g by (simp add: min_def)
  moreover have "same_sizes st st'" using g IH(3) ext same_sizes_trans [of st ?st st'] by simp
  ultimately show ?case using IH(1,2,4,6) g ext by auto
qed

lemma init_slab_heap_ok:
  assumes wf: "buddy_wf b" "no_overlap b" and init: "init_slab (boot_mem b) = Ok (None, st)"
  shows "heap_ok st" and "live st = {}"
proof -
  have m: "mem_ok (boot_mem b)" "live (boot_mem b) = {}"
    using wf by (simp_all add: mem_ok_def boot_mem_def live_def page_live_def)
  from init have "create_generic generic_sizes 0 (boot_mem b) = Ok (True, st)"
    by (auto simp: init_slab_def bindR_eq_Ok split: if_splits)
  from create_generic_gives [OF m(1) generic_geometry this]
  show "heap_ok st" "live st = {}"
    using m(2) by (simp_all add: heap_ok_def boot_mem_def generic_sizes_def)
qed

section \<open>Properties\<close>

text \<open>
  A heap for the examples: the caches started on the eight pages from 32 KB to 64 KB, one
  page each, which leaves one page free.
\<close>

definition low_lists :: "u64 list list \<Rightarrow> buddy" where
  "low_lists ls = \<lparr>orders_normal = replicate 52 [], orders_low = ls @ replicate 15 []\<rparr>"

definition example_slab :: "nat \<Rightarrow> u64 \<Rightarrow> slab" where
  "example_slab k a = (case generic_sizes ! k of (sz, al) \<Rightarrow> case slab_geometry sz al of (osz, cnt, off) \<Rightarrow>
     \<lparr>magic = SLAB_MAGIC, slab_pages = [], first = a, objsize = osz, startoff = off, nobj = cnt,
      used = 0, bitmap = replicate (bitmap_bytes cnt) 0\<rparr>)"

definition small_heap :: mem where
  "small_heap = \<lparr>mm = low_lists [[15], [], [], []],
     slabs = [0x8000 \<mapsto> example_slab 0 0x8000, 0x9000 \<mapsto> example_slab 1 0x9000,
              0xa000 \<mapsto> example_slab 2 0xa000, 0xb000 \<mapsto> example_slab 3 0xb000,
              0xc000 \<mapsto> example_slab 4 0xc000, 0xd000 \<mapsto> example_slab 5 0xd000,
              0xe000 \<mapsto> example_slab 6 0xe000],
     generic = map Some [0x8000, 0x9000, 0xa000, 0xb000, 0xc000, 0xd000, 0xe000]\<rparr>"

lemma low_lists_boot: "init_buddy_alloc 0x10000 0x8000 = low_lists [[], [], [], [8]]"
  by code_simp

lemma low_lists_allocs:
  "alloc_pages 0 ZONE_NORMAL (low_lists [[], [], [], [8]]) = Ok (Some 8, low_lists [[9], [10], [12], []])"
  "alloc_pages 0 ZONE_NORMAL (low_lists [[9], [10], [12], []]) = Ok (Some 9, low_lists [[], [10], [12], []])"
  "alloc_pages 0 ZONE_NORMAL (low_lists [[], [10], [12], []]) = Ok (Some 10, low_lists [[11], [], [12], []])"
  "alloc_pages 0 ZONE_NORMAL (low_lists [[11], [], [12], []]) = Ok (Some 11, low_lists [[], [], [12], []])"
  "alloc_pages 0 ZONE_NORMAL (low_lists [[], [], [12], []]) = Ok (Some 12, low_lists [[13], [14], [], []])"
  "alloc_pages 0 ZONE_NORMAL (low_lists [[13], [14], [], []]) = Ok (Some 13, low_lists [[], [14], [], []])"
  "alloc_pages 0 ZONE_NORMAL (low_lists [[], [14], [], []]) = Ok (Some 14, low_lists [[15], [], [], []])"
  "alloc_pages 0 ZONE_NORMAL (low_lists [[15], [], [], []]) = Ok (Some 15, low_lists [[], [], [], []])"
  by code_simp+

lemma page_addresses:
  "page_to_addr (page_num_to_ptr 8) = 0x8000" "page_to_addr (page_num_to_ptr 9) = 0x9000"
  "page_to_addr (page_num_to_ptr 10) = 0xa000" "page_to_addr (page_num_to_ptr 11) = 0xb000"
  "page_to_addr (page_num_to_ptr 12) = 0xc000" "page_to_addr (page_num_to_ptr 13) = 0xd000"
  "page_to_addr (page_num_to_ptr 14) = 0xe000" "page_to_addr (page_num_to_ptr 15) = 0xf000"
  by (simp_all add: page_to_addr_num)

lemma replicate7: "replicate 7 x = [x, x, x, x, x, x, x]"
  by (simp add: numeral_eq_Suc)

lemma small_heap_init: "init_slab (boot_mem (init_buddy_alloc 0x10000 0x8000)) = Ok (None, small_heap)"
  unfolding low_lists_boot
  by (simp add: replicate7 init_slab_def generic_sizes_def create_slab_def boot_mem_def Let_def geometries
      low_lists_allocs page_addresses small_heap_def example_slab_def)

lemma small_heap_ok: "heap_ok small_heap" "live small_heap = {}"
proof -
  have "buddy_wf (init_buddy_alloc 0x10000 0x8000)" "no_overlap (init_buddy_alloc 0x10000 0x8000)"
    using init_buddy_alloc_covers [of "0x8000" 8 "0x10000"]
    by (simp_all add: no_overlap_def count_mset_set')
  from init_slab_heap_ok [OF this small_heap_init]
  show "heap_ok small_heap" "live small_heap = {}" .
qed

lemma low_zones:
  "page_zone 0x8000 = ZONE_LOW" "page_zone 0x9000 = ZONE_LOW" "page_zone 0xa000 = ZONE_LOW"
  "page_zone 0xb000 = ZONE_LOW" "page_zone 0xc000 = ZONE_LOW" "page_zone 0xd000 = ZONE_LOW"
  "page_zone 0xe000 = ZONE_LOW"
  by (simp_all add: page_zone_def ZONE_TYPE_def IS_LOW_ZONE_def page_addr_roundtrip PAGE_MASK_def)

lemma zone_b000: "page_zone 0xb000 = ZONE_LOW"
  by (rule low_zones)

definition example_page :: "u16 \<Rightarrow> u8 \<Rightarrow> slab" where
  "example_page n bits = \<lparr>magic = SLAB_MAGIC, slab_pages = [], first = 0xb000, objsize = 128,
     startoff = 44, nobj = 31, used = n, bitmap = [bits, 0, 0, 0]\<rparr>"

lemma example_page_simps [simp]:
  "magic (example_page n bits) = SLAB_MAGIC" "slab_pages (example_page n bits) = []"
  by (simp_all add: example_page_def)

definition example_heap :: "u16 \<Rightarrow> u8 \<Rightarrow> mem" where
  "example_heap n bits = small_heap\<lparr>slabs := (slabs small_heap)(0xb000 \<mapsto> example_page n bits)\<rparr>"

lemma small_heap_example: "small_heap = example_heap 0 0"
proof -
  have "replicate 4 (0 :: u8) = [0, 0, 0, 0]" by code_simp
  then have "slabs small_heap 0xb000 = Some (example_page 0 0)"
    by (simp add: small_heap_def example_slab_def generic_sizes_def geometries bitmap_bytes_def
        example_page_def)
  then show ?thesis by (simp add: example_heap_def fun_upd_idem)
qed

lemma example_alloc_gen:
  assumes "find_free_obj [b, 0, 0, 0] [0..<31] = Some i" and "i < 8" and "n < 31"
  shows "malloc 100 ZONE_LOW (example_heap n b)
    = Ok (Some (0xb02c + 128 * of_nat i), example_heap (n + 1) (b OR obj_mask i))"
proof -
  have "generic (example_heap n b) ! 3 = Some 0xb000" by (simp add: example_heap_def small_heap_def)
  moreover have "get_slab 0xb000 (example_heap n b) = Ok (example_page n b)"
    by (simp add: get_slab_def example_heap_def)
  moreover have "alloc_in_page 0xb000 (example_page n b) (example_heap n b)
    = (Some (0xb02c + 128 * of_nat i), example_heap (n + 1) (b OR obj_mask i))"
    using assms(1,2) by (simp add: alloc_in_page_def example_page_def obj_addr_def example_heap_def)
  moreover have "has_room 0xb000 ZONE_LOW (example_page n b)"
    using assms(3) by (simp add: has_room_def zone_b000 example_page_def)
  ultimately show ?thesis
    by (simp add: malloc_def size_class_def alloc_slab_obj_def)
qed

lemma example_alloc: "malloc 100 ZONE_LOW small_heap = Ok (Some 0xb02c, example_heap 1 0x80)"
proof -
  have "find_free_obj [0, 0, 0, 0] [0..<31] = Some 0"
    by (simp add: upt_conv_Cons obj_used_def)
  from example_alloc_gen [OF this, of 0] show ?thesis
    by (simp add: small_heap_example obj_mask_def)
qed

lemma example_alloc2: "malloc 100 ZONE_LOW (example_heap 1 0x80) = Ok (Some 0xb0ac, example_heap 2 0xc0)"
proof -
  have "find_free_obj [0x80, 0, 0, 0] [0..<31] = Some 1"
    by (simp add: upt_conv_Cons obj_used_def obj_mask_def)
  from example_alloc_gen [OF this, of 1] show ?thesis by (simp add: obj_mask_def)
qed



text \<open>
  (C22) \<^verbatim>\<open>free\<close> of an object in use succeeds, takes exactly this object out of use and
  keeps the heap well-formed.
\<close>

theorem free_correct:
  assumes "heap_ok st" and "p \<in> live st"
  shows "\<exists>st'. free (Some p) st = Ok st' \<and> heap_ok st' \<and> live st' = live st - {p}"
  using assms by (rule heap.dealloc_takes)

theorem free_correct_witness:
  "\<exists>st st'. malloc 100 ZONE_LOW small_heap = Ok (Some 0xb02c, st) \<and> free (Some 0xb02c) st = Ok st'
     \<and> live st' = {}"
proof -
  note m = example_alloc
  from heap.alloc_gives [OF small_heap_ok(1) m] have "heap_ok (example_heap 1 0x80)"
    "live (example_heap 1 0x80) = {0xb02c}"
    by (simp_all add: small_heap_ok(2))
  with free_correct [of "example_heap 1 0x80" "0xb02c"] m show ?thesis by auto
qed

lemma live_range:
  assumes "heap_ok st" and "p \<in> live st" and "allocsize p st = Ok n"
  obtains a s i where "slabs st a = Some s" "slab_ok a s" "i \<in> used_objs s" "p = obj_addr a s i"
    "n = objsize s" "unat p = unat a + (unat (startoff s) + unat n * i)"
    "unat (startoff s) + unat n * i + unat n \<le> 4096" "unat a mod 4096 = 0"
proof -
  from assms(2) obtain a s i where s: "slabs st a = Some s" "i \<in> used_objs s" "p = obj_addr a s i"
    by (auto simp: live_def page_live_def split: option.splits)
  have ok: "slab_ok a s" using assms(1) s(1) by (simp add: heap_ok_def mem_ok_def)
  have i: "i < unat (nobj s)" using s(2) by (simp add: used_objs_def)
  have "n = objsize s" using assms(3) s by (simp add: allocsize_def get_slab_def slab_base_obj [OF ok i])
  with unat_obj_addr [OF ok i] s ok show thesis
    by (intro that [of a s i]) (simp_all add: slab_ok_def page_aligned)
qed



text \<open>
  Where the page header, the bitmap and the objects lie: in six of the seven caches of
  \<^verbatim>\<open>malloc\<close> the bitmap ends before the first object and the last object ends within the
  page.  In the cache of 1024-byte objects the code reserves no byte for the bitmap (it rounds
  the number of bits to bytes by adding 4, not 7), so the bitmap is the first byte of the
  first object.
\<close>

theorem generic_layout:
  "list_all (\<lambda>k. case slab_geometry (fst (generic_sizes ! k)) (snd (generic_sizes ! k)) of (osz, cnt, off) \<Rightarrow>
       sizeof_slab + bitmap_bytes cnt \<le> unat off \<and> unat off + unat cnt * unat osz \<le> PAGE_SIZE) [0, 1, 2, 3, 4, 5]
   \<and> (case slab_geometry (fst (generic_sizes ! 6)) (snd (generic_sizes ! 6)) of (osz, cnt, off) \<Rightarrow>
       bitmap_bytes cnt = 1 \<and> unat off = sizeof_slab)"
  by (simp add: generic_sizes_def geometries sizeof_slab_def bitmap_bytes_def PAGE_SIZE_def)

lemma small_heap_low: "\<forall>a s. slabs small_heap a = Some s \<longrightarrow> page_zone a = ZONE_LOW"
proof (intro allI impI)
  fix a s assume "slabs small_heap a = Some s"
  then have "a \<in> dom (slabs small_heap)" by blast
  also have "dom (slabs small_heap) = {0xe000, 0xd000, 0xc000, 0xb000, 0xa000, 0x9000, 0x8000}"
    by (simp only: small_heap_def mem.select_convs dom_fun_upd dom_empty option.simps if_False)
  finally show "page_zone a = ZONE_LOW"
    by (elim insertE emptyE) (simp_all only: low_zones)
qed

lemma example_newpage:
  "\<exists>a st. newpage 0xb000 (example_page 0 0) ZONE_NORMAL small_heap = Ok (Some a, st)"
proof -
  have "mm small_heap = low_lists [[15], [], [], []]" by (simp add: small_heap_def)
  with low_lists_allocs(8) show ?thesis by (simp add: newpage_def Let_def)
qed

lemma example_normal_alloc: "\<exists>p st. malloc 100 ZONE_NORMAL small_heap = Ok (Some p, st)"
proof -
  have s: "slabs small_heap 0xb000 = Some (example_page 0 0)"
    unfolding small_heap_example by (simp add: example_heap_def)
  have gen: "generic small_heap ! 3 = Some 0xb000" by (simp add: small_heap_def)
  have room: "\<not> has_room 0xb000 ZONE_NORMAL (example_page 0 0)" by (simp add: has_room_def zone_b000)
  obtain a st where n: "newpage 0xb000 (example_page 0 0) ZONE_NORMAL small_heap = Ok (Some a, st)"
    using example_newpage by blast
  have mem: "mem_ok small_heap" using small_heap_ok(1) by (simp add: heap_ok_def)
  obtain sa where sa: "slabs st a = Some sa" "used sa < nobj sa" "mem_ok st"
    by (rule newpage_gives [OF mem s n])
  obtain p st' where "alloc_in_page a sa st = (Some p, st')"
    by (rule alloc_in_page_gives [OF sa(3,1,2)])
  with n s gen room sa(1) have "malloc 100 ZONE_NORMAL small_heap = Ok (Some p, st')"
    by (simp add: malloc_def size_class_def alloc_slab_obj_def get_slab_def)
  then show ?thesis by blast
qed

text \<open>
  On a machine whose slab pages all lie below 2 GB, a request with
  \<^verbatim>\<open>ZONE_NORMAL\<close>, the type almost every caller passes, never shares a page: pages are
  only reused when their zone equals the requested type, so each such object takes a fresh
  page.
\<close>

theorem malloc_normal_takes_page:
  assumes "heap_ok st" and "\<forall>a s. slabs st a = Some s \<longrightarrow> page_zone a = ZONE_LOW"
    and "malloc sz ZONE_NORMAL st = Ok (Some p, st')"
  shows "slabs st (slab_base p) = None"
proof -
  from assms(3) obtain k where k: "size_class sz = Some k"
    by (auto simp: malloc_def split: option.splits)
  from assms(1) size_class_fits(1) [OF k] obtain h s where h: "generic st ! k = Some h"
    "cache_ok st h" "slabs st h = Some s" by (auto simp: heap_ok_def)
  have no_room: "\<not> has_room a ZONE_NORMAL t" if "slabs st a = Some t" for a t
    using assms(2) that by (simp add: has_room_def)
  have mem: "mem_ok st" using assms(1) by (simp add: heap_ok_def)
  from h have f: "find_room (slab_pages s) ZONE_NORMAL st = Ok None"
    by (intro find_room_None) (auto simp: cache_ok_def dest: no_room)
  from h have "magic s = SLAB_MAGIC" by (auto simp: cache_ok_def)
  with assms(3) k h(1,3) f no_room [OF h(3)] obtain a st1 where n: "newpage h s ZONE_NORMAL st = Ok (Some a, st1)"
    and rest: "bindR (get_slab a st1) (\<lambda>sa. Ok (alloc_in_page a sa st1)) = Ok (Some p, st')"
    by (auto simp: malloc_def alloc_slab_obj_def get_slab_def bindR_eq_Ok split: option.splits)
  obtain sa where sa: "slabs st1 a = Some sa" "used sa < nobj sa" "mem_ok st1" "slabs st a = None"
    by (rule newpage_gives [OF mem h(3) n])
  obtain p' st2 where "alloc_in_page a sa st1 = (Some p', st2)" "slab_base p' = a"
    by (rule alloc_in_page_gives [OF sa(3,1,2)])
  with rest sa(1,4) show ?thesis by (simp add: get_slab_def)
qed

theorem malloc_normal_takes_page_witness:
  "\<exists>p st'. malloc 100 ZONE_NORMAL small_heap = Ok (Some p, st') \<and> slabs small_heap (slab_base p) = None"
proof -
  from example_normal_alloc obtain p st' where m: "malloc 100 ZONE_NORMAL small_heap = Ok (Some p, st')"
    by blast
  from malloc_normal_takes_page [OF small_heap_ok(1) small_heap_low m] m show ?thesis by blast
qed

end
