(* ===== verification/Cstring.thy ===== *)
theory Cstring
  imports Slab
begin

text \<open>
  The string functions of \<^verbatim>\<open>src/lib/string.c\<close> and \<^verbatim>\<open>src/include/string.h\<close>, and
  \<^verbatim>\<open>src/cp/nucleus/util.c\<close>.  A pointer that is only read from is the list of the bytes
  from it to the end of its object, so reading past the object is \<open>Stop OutOfBounds\<close>.
  Where a function writes, the object is a list and the pointers into it are indices.
  \<^verbatim>\<open>char\<close> is unsigned on this machine and \<^verbatim>\<open>signed char\<close> is read by \<open>sint\<close>.
\<close>

section \<open>Reading and writing one byte\<close>

definition peek :: "u8 list \<Rightarrow> nat \<Rightarrow> u8 result" where
  "peek m i = (if i < length m then Ok (m ! i) else Stop OutOfBounds)"

definition poke :: "u8 list \<Rightarrow> nat \<Rightarrow> u8 \<Rightarrow> u8 list result" where
  "poke m i v = (if i < length m then Ok (m[i := v]) else Stop OutOfBounds)"

lemma peek_Ok [simp]: "i < length m \<Longrightarrow> peek m i = Ok (m ! i)"
  by (simp add: peek_def)

lemma poke_Ok [simp]: "i < length m \<Longrightarrow> poke m i v = Ok (m[i := v])"
  by (simp add: poke_def)

text \<open>The string at a pointer, and whether it is terminated inside the object.\<close>

definition cstr :: "u8 list \<Rightarrow> u8 list" where
  "cstr s = takeWhile (\<lambda>c. c \<noteq> 0) s"

definition terminated :: "u8 list \<Rightarrow> bool" where
  "terminated s \<longleftrightarrow> 0 \<in> set s"

lemma cstr_simps [simp]:
  "cstr [] = []"
  "cstr (c # s) = (if c = 0 then [] else c # cstr s)"
  by (simp_all add: cstr_def)

lemma cstr_append_0 [simp]: "0 \<notin> set s \<Longrightarrow> cstr (s @ 0 # r) = s"
  by (induction s) auto

lemma terminated_Cons [simp]: "terminated (c # s) \<longleftrightarrow> c = 0 \<or> terminated s" "\<not> terminated []"
  by (auto simp: terminated_def)

lemma cstr_nonzero [simp]: "0 \<notin> set (cstr s)"
  by (auto simp: cstr_def dest: set_takeWhileD)

lemma terminated_split: "terminated s \<Longrightarrow> \<exists>r. s = cstr s @ 0 # r"
  by (induction s) auto

section \<open>Length and comparison\<close>

fun strnlen :: "u8 list \<Rightarrow> nat \<Rightarrow> nat result" where
  "strnlen s 0 = Ok 0"
| "strnlen [] (Suc n) = Stop OutOfBounds"
| "strnlen (c # s) (Suc n) =
     (if c \<noteq> 0 then bindR (strnlen s n) (\<lambda>k. Ok (Suc k)) else Ok 0)"

fun strcmp :: "u8 list \<Rightarrow> u8 list \<Rightarrow> int result" where
  "strcmp (c # cs) (d # ct) =
     (let res = c - d in if res \<noteq> 0 \<or> c = 0 then Ok (sint res) else strcmp cs ct)"
| "strcmp cs ct = Stop OutOfBounds"

fun strncmp :: "u8 list \<Rightarrow> u8 list \<Rightarrow> u32 \<Rightarrow> int result" where
  "strncmp (c # cs) (d # ct) len =
     (let res = c - d in
      if res \<noteq> 0 \<or> c = 0 \<or> len \<noteq> 0 then Ok (sint res) else strncmp cs ct (len - 1))"
| "strncmp cs ct len = Stop OutOfBounds"

definition toupper :: "int \<Rightarrow> int" where
  "toupper c = (if 97 \<le> c \<and> c \<le> 122 then c + (65 - 97) else c)"

definition tolower :: "int \<Rightarrow> int" where
  "tolower c = (if 65 \<le> c \<and> c \<le> 90 then c - (65 - 97) else c)"

fun strcasecmp :: "u8 list \<Rightarrow> u8 list \<Rightarrow> int result" where
  "strcasecmp (c # s1) (d # s2) =
     (let c1 = tolower (uint c); c2 = tolower (uint d) in
      if c1 = c2 \<and> c1 \<noteq> 0 then strcasecmp s1 s2 else Ok (c1 - c2))"
| "strcasecmp s1 s2 = Stop OutOfBounds"

section \<open>Copying\<close>

fun strncpy_loop :: "u8 list \<Rightarrow> nat \<Rightarrow> u8 list \<Rightarrow> nat \<Rightarrow> u8 list result" where
  "strncpy_loop dest tmp src 0 = Ok dest"
| "strncpy_loop dest tmp src (Suc n) =
     bindR (peek src 0) (\<lambda>c.
     bindR (poke dest tmp c) (\<lambda>dest.
       strncpy_loop dest (Suc tmp) (if c \<noteq> 0 then tl src else src) n))"

definition strncpy :: "u8 list \<Rightarrow> u8 list \<Rightarrow> nat \<Rightarrow> u8 list result" where
  "strncpy dest src n = strncpy_loop dest 0 src n"

text \<open>In \<^verbatim>\<open>memmove\<close> both pointers are indices into the same storage.\<close>

fun copy_up :: "u8 list \<Rightarrow> nat \<Rightarrow> nat \<Rightarrow> nat \<Rightarrow> u8 list result" where
  "copy_up m tmp s 0 = Ok m"
| "copy_up m tmp s (Suc n) =
     bindR (peek m s) (\<lambda>v. bindR (poke m tmp v) (\<lambda>m. copy_up m (Suc tmp) (Suc s) n))"

fun copy_down :: "u8 list \<Rightarrow> nat \<Rightarrow> nat \<Rightarrow> nat \<Rightarrow> u8 list result" where
  "copy_down m tmp s 0 = Ok m"
| "copy_down m tmp s (Suc n) =
     bindR (peek m (s - 1)) (\<lambda>v. bindR (poke m (tmp - 1) v) (\<lambda>m. copy_down m (tmp - 1) (s - 1) n))"

definition memmove :: "u8 list \<Rightarrow> nat \<Rightarrow> nat \<Rightarrow> nat \<Rightarrow> u8 list result" where
  "memmove m dest src n =
     (if dest \<le> src then copy_up m dest src n
      else copy_down m (dest + n) (src + n) n)"

section \<open>Searching and splitting\<close>

text \<open>The inner loops look for a character of the second string; \<open>in_set\<close> is one of them.\<close>

fun in_set :: "u8 \<Rightarrow> u8 list \<Rightarrow> bool result" where
  "in_set c [] = Stop OutOfBounds"
| "in_set c (d # ct) = (if d = 0 then Ok False else if c = d then Ok True else in_set c ct)"

fun strpbrk :: "u8 list \<Rightarrow> u8 list \<Rightarrow> nat option result" where
  "strpbrk [] ct = Stop OutOfBounds"
| "strpbrk (c # cs) ct =
     (if c = 0 then Ok None
      else bindR (in_set c ct) (\<lambda>b.
        if b then Ok (Some 0)
        else bindR (strpbrk cs ct) (\<lambda>r. Ok (map_option Suc r))))"

fun strspn :: "u8 list \<Rightarrow> u8 list \<Rightarrow> nat result" where
  "strspn [] accept = Stop OutOfBounds"
| "strspn (c # s) accept =
     (if c = 0 then Ok 0
      else bindR (in_set c accept) (\<lambda>b.
        if b then bindR (strspn s accept) (\<lambda>n. Ok (Suc n)) else Ok 0))"

text \<open>
  \<^verbatim>\<open>strsep\<close> and \<^verbatim>\<open>strmsep\<close> on the object \<open>m\<close>, with \<^verbatim>\<open>*s\<close> an index or
  \<^verbatim>\<open>NULL\<close>: the token returned, the object and the new \<^verbatim>\<open>*s\<close>.
\<close>

definition strsep :: "u8 list \<Rightarrow> nat option \<Rightarrow> u8 list \<Rightarrow> (nat option \<times> u8 list \<times> nat option) result" where
  "strsep m s ct =
     (case s of
        None \<Rightarrow> Ok (None, m, None)
      | Some sbegin \<Rightarrow>
          bindR (strpbrk (drop sbegin m) ct) (\<lambda>r. case r of
            Some e \<Rightarrow> bindR (poke m (sbegin + e) 0) (\<lambda>m. Ok (Some sbegin, m, Some (sbegin + e + 1)))
          | None \<Rightarrow> Ok (Some sbegin, m, None)))"

definition strmsep :: "u8 list \<Rightarrow> nat option \<Rightarrow> u8 list \<Rightarrow> (nat option \<times> u8 list \<times> nat option) result" where
  "strmsep m s ct =
     (case s of
        None \<Rightarrow> Ok (None, m, None)
      | Some p \<Rightarrow> bindR (strspn (drop p m) ct) (\<lambda>n. strsep m (Some (p + n)) ct))"

text \<open>All the tokens, until \<^verbatim>\<open>*s\<close> is \<^verbatim>\<open>NULL\<close>; \<open>n\<close> bounds the number of calls.\<close>

fun tokens :: "nat \<Rightarrow> u8 list \<Rightarrow> nat option \<Rightarrow> u8 list \<Rightarrow> u8 list list result" where
  "tokens 0 m s ct = Ok []"
| "tokens (Suc n) m s ct =
     bindR (strsep m s ct) (\<lambda>(t, m, s'). case t of
       None \<Rightarrow> Ok []
     | Some p \<Rightarrow> bindR (tokens n m s' ct) (\<lambda>ts. Ok (cstr (drop p m) # ts)))"

section \<open>Character classes\<close>

abbreviation (input) C_U :: u8 where "C_U \<equiv> 0x01"
abbreviation (input) C_L :: u8 where "C_L \<equiv> 0x02"
abbreviation (input) C_D :: u8 where "C_D \<equiv> 0x04"
abbreviation (input) C_C :: u8 where "C_C \<equiv> 0x08"
abbreviation (input) C_P :: u8 where "C_P \<equiv> 0x10"
abbreviation (input) C_S :: u8 where "C_S \<equiv> 0x20"
abbreviation (input) C_X :: u8 where "C_X \<equiv> 0x40"
abbreviation (input) C_SP :: u8 where "C_SP \<equiv> 0x80"

definition ascii_ctype :: "u8 list" where
  "ascii_ctype = [
   C_C, C_C, C_C, C_C, C_C, C_C, C_C, C_C,
   C_C, C_C OR C_S, C_C OR C_S, C_C OR C_S, C_C OR C_S, C_C OR C_S, C_C, C_C,
   C_C, C_C, C_C, C_C, C_C, C_C, C_C, C_C,
   C_C, C_C, C_C, C_C, C_C, C_C, C_C, C_C,
   C_S OR C_SP, C_P, C_P, C_P, C_P, C_P, C_P, C_P,
   C_P, C_P, C_P, C_P, C_P, C_P, C_P, C_P,
   C_D, C_D, C_D, C_D, C_D, C_D, C_D, C_D,
   C_D, C_D, C_P, C_P, C_P, C_P, C_P, C_P,
   C_P, C_U OR C_X, C_U OR C_X, C_U OR C_X, C_U OR C_X, C_U OR C_X, C_U OR C_X, C_U,
   C_U, C_U, C_U, C_U, C_U, C_U, C_U, C_U,
   C_U, C_U, C_U, C_U, C_U, C_U, C_U, C_U,
   C_U, C_U, C_U, C_P, C_P, C_P, C_P, C_P,
   C_P, C_L OR C_X, C_L OR C_X, C_L OR C_X, C_L OR C_X, C_L OR C_X, C_L OR C_X, C_L,
   C_L, C_L, C_L, C_L, C_L, C_L, C_L, C_L,
   C_L, C_L, C_L, C_L, C_L, C_L, C_L, C_L,
   C_L, C_L, C_L, C_P, C_P, C_P, C_P, C_C,
   0, 0, 0, 0, 0, 0, 0, 0, 0, 0, 0, 0, 0, 0, 0, 0,
   0, 0, 0, 0, 0, 0, 0, 0, 0, 0, 0, 0, 0, 0, 0, 0,
   C_S OR C_SP, C_P, C_P, C_P, C_P, C_P, C_P, C_P, C_P, C_P, C_P, C_P, C_P, C_P, C_P, C_P,
   C_P, C_P, C_P, C_P, C_P, C_P, C_P, C_P, C_P, C_P, C_P, C_P, C_P, C_P, C_P, C_P,
   C_U, C_U, C_U, C_U, C_U, C_U, C_U, C_U, C_U, C_U, C_U, C_U, C_U, C_U, C_U, C_U,
   C_U, C_U, C_U, C_U, C_U, C_U, C_U, C_P, C_U, C_U, C_U, C_U, C_U, C_U, C_U, C_L,
   C_L, C_L, C_L, C_L, C_L, C_L, C_L, C_L, C_L, C_L, C_L, C_L, C_L, C_L, C_L, C_L,
   C_L, C_L, C_L, C_L, C_L, C_L, C_L, C_P, C_L, C_L, C_L, C_L, C_L, C_L, C_L, C_L]"

definition ismask :: "u8 \<Rightarrow> u8" where
  "ismask x = ascii_ctype ! unat x"

definition isalnum :: "u8 \<Rightarrow> bool" where "isalnum c \<longleftrightarrow> ismask c AND (C_U OR C_L OR C_D) \<noteq> 0"
definition isalpha :: "u8 \<Rightarrow> bool" where "isalpha c \<longleftrightarrow> ismask c AND (C_U OR C_L) \<noteq> 0"
definition iscntrl :: "u8 \<Rightarrow> bool" where "iscntrl c \<longleftrightarrow> ismask c AND C_C \<noteq> 0"
definition isdigit :: "u8 \<Rightarrow> bool" where "isdigit c \<longleftrightarrow> ismask c AND C_D \<noteq> 0"
definition isgraph :: "u8 \<Rightarrow> bool" where "isgraph c \<longleftrightarrow> ismask c AND (C_P OR C_U OR C_L OR C_D) \<noteq> 0"
definition islower :: "u8 \<Rightarrow> bool" where "islower c \<longleftrightarrow> ismask c AND C_L \<noteq> 0"
definition isprint :: "u8 \<Rightarrow> bool" where "isprint c \<longleftrightarrow> ismask c AND (C_P OR C_U OR C_L OR C_D OR C_SP) \<noteq> 0"
definition ispunct :: "u8 \<Rightarrow> bool" where "ispunct c \<longleftrightarrow> ismask c AND C_P \<noteq> 0"
definition isspace :: "u8 \<Rightarrow> bool" where "isspace c \<longleftrightarrow> ismask c AND C_S \<noteq> 0"
definition isupper :: "u8 \<Rightarrow> bool" where "isupper c \<longleftrightarrow> ismask c AND C_U \<noteq> 0"
definition isxdigit :: "u8 \<Rightarrow> bool" where "isxdigit c \<longleftrightarrow> ismask c AND (C_D OR C_X) \<noteq> 0"

section \<open>Numbers and copies of strings\<close>

text \<open>\<^verbatim>\<open>hex\<close> reads the characters from \<^verbatim>\<open>a\<close> up to \<^verbatim>\<open>b\<close>; \<open>None\<close> is the return value 1.\<close>

definition hex_digit :: "u8 \<Rightarrow> u64 option" where
  "hex_digit c =
     (if 48 \<le> c \<and> c \<le> 57 then Some (ucast c - 48)
      else if 65 \<le> c \<and> c \<le> 70 then Some (ucast c - 65 + 10)
      else if 97 \<le> c \<and> c \<le> 102 then Some (ucast c - 97 + 10)
      else None)"

fun hex_loop :: "u8 list \<Rightarrow> u64 \<Rightarrow> u64 option" where
  "hex_loop [] val = Some val"
| "hex_loop (c # cs) val =
     (case hex_digit c of None \<Rightarrow> None | Some d \<Rightarrow> hex_loop cs (push_bit 4 val OR d))"

definition hex :: "u8 list \<Rightarrow> u64 option" where
  "hex cs = (if cs = [] then None else hex_loop cs 0)"

function bcd_loop :: "u64 \<Rightarrow> u64 \<Rightarrow> u64 \<Rightarrow> u64 option" where
  "bcd_loop val v scale =
     (if val = 0 then Some v
      else let x = val AND 0xf in
           if 10 \<le> x then None else bcd_loop (drop_bit 4 val) (v + x * scale) (scale * 10))"
  by pat_completeness auto
termination
proof (relation "measure (\<lambda>(val, _). unat val)")
  fix val v scale x :: u64 assume "val \<noteq> 0" "x = val AND 15" "\<not> 10 \<le> x"
  then show "((drop_bit 4 val, v + x * scale, scale * 10), val, v, scale)
    \<in> measure (\<lambda>(val, _). unat val)"
    by (simp only: in_measure prod.case unat_drop_bit_eq) (simp add: drop_bit_eq_div unat_gt_0)
qed simp

declare bcd_loop.simps [simp del]

definition bcd2dec :: "u64 \<Rightarrow> u64 option" where
  "bcd2dec val = bcd_loop val 0 1"

text \<open>\<^verbatim>\<open>strdup\<close>: the new object and the bytes written to it.\<close>

definition strdup :: "u8 list \<Rightarrow> zone \<Rightarrow> mem \<Rightarrow> ((u64 \<times> u8 list) option \<times> mem) result" where
  "strdup s flags st =
     bindR (strnlen s (Suc (length s))) (\<lambda>len.
     bindR (malloc (int len) flags st) (\<lambda>(d, st). case d of
         None \<Rightarrow> Ok (None, st)
       | Some p \<Rightarrow> Ok (Some (p, take len s), st)))"


section \<open>Length and comparison: facts\<close>

lemma strnlen_spec:
  "terminated s \<or> n \<le> length s \<Longrightarrow> strnlen s n = Ok (min n (length (cstr s)))"
  by (induction s n rule: strnlen.induct) auto

lemma sint_0_iff: "sint (x :: 'a::len word) = 0 \<longleftrightarrow> x = 0"
  using uint_sint [of x] by (auto simp: uint_0_iff)

lemma strcmp_spec:
  "terminated cs \<Longrightarrow> terminated ct \<Longrightarrow> \<exists>r. strcmp cs ct = Ok r \<and> (r = 0 \<longleftrightarrow> cstr cs = cstr ct)"
  by (induction cs ct rule: strcmp.induct) (auto simp: Let_def sint_0_iff)

lemma sint_minus_ascii:
  assumes "c < 128" and "d < (128 :: u8)"
  shows "sint (c - d) = uint c - uint d"
proof -
  have "uint c < 128" "uint d < 128" using assms by (simp_all add: word_less_alt)
  then have "- 128 \<le> uint c - uint d" "uint c - uint d < 128"
    using uint_ge_0 [of c] uint_ge_0 [of d] by linarith+
  moreover have "c - d = word_of_int (uint c - uint d)" by simp
  ultimately show ?thesis
    by (simp only: signed_of_int) (simp add: signed_take_bit_int_eq_self)
qed

lemma strcmp_order:
  assumes "terminated cs" and "terminated ct" and "\<forall>c \<in> set (cstr cs) \<union> set (cstr ct). c < 128"
    and "strcmp cs ct = Ok r"
  shows "r < 0 \<longleftrightarrow> (cstr cs, cstr ct) \<in> lexord {(a, b). a < b}"
  using assms
proof (induction cs ct rule: strcmp.induct)
  case (1 c cs d ct)
  have small: "c < 128" "d < 128" using 1(4) by (auto split: if_splits)
  note s = sint_minus_ascii [OF this]
  show ?case
  proof (cases "c = d \<and> c \<noteq> 0")
    case True
    then have "c = d" "d \<noteq> 0" by auto
    with 1 show ?thesis by (auto simp: Let_def)
  next
    case False
    with 1(5) have "r = uint c - uint d" by (auto simp: Let_def s)
    then have "r < 0 \<longleftrightarrow> c < d" by (simp add: word_less_alt)
    with False show ?thesis by (auto simp: word_gt_0)
  qed
qed simp_all

lemma tolower_0: "tolower (uint c) = 0 \<longleftrightarrow> c = (0 :: u8)"
  using uint_ge_0 [of c] by (auto simp: tolower_def uint_0_iff)

definition lower :: "u8 list \<Rightarrow> int list" where
  "lower s = map (\<lambda>c. tolower (uint c)) s"

lemma strcasecmp_spec:
  "terminated s \<Longrightarrow> terminated t \<Longrightarrow>
     \<exists>r. strcasecmp s t = Ok r \<and> (r = 0 \<longleftrightarrow> lower (cstr s) = lower (cstr t))"
proof (induction s t rule: strcasecmp.induct)
  case (1 c s d t)
  show ?case
  proof (cases "tolower (uint c) = tolower (uint d) \<and> tolower (uint c) \<noteq> 0")
    case True
    then have "c \<noteq> 0" "d \<noteq> 0" by (metis tolower_0)+
    with True 1 show ?thesis by (simp add: Let_def lower_def)
  next
    case False
    then show ?thesis
      by (cases "c = 0"; cases "d = 0") (auto simp: Let_def lower_def tolower_0 dest: sym)
  qed
qed simp_all


section \<open>Copying: facts\<close>

lemma strncpy_loop_spec:
  assumes "i + n \<le> length dest" and "terminated src \<or> n \<le> length src"
  shows "strncpy_loop dest i src n
    = Ok (take i dest @ take n (cstr src @ replicate n 0) @ drop (i + n) dest)"
  using assms
proof (induction n arbitrary: dest i src)
  case (Suc n)
  then obtain c s where src: "src = c # s" by (cases src) auto
  have len: "i < length dest" using Suc.prems by simp
  have step: "take (Suc i) (dest[i := c]) @ xs @ drop (Suc i + n) (dest[i := c])
    = take i dest @ (c # xs) @ drop (i + Suc n) dest" for xs
    using len by (simp add: take_Suc_conv_app_nth)
  show ?case
  proof (cases "c = 0")
    case True
    have "take n (cstr src @ replicate n 0) = replicate n 0" using True src by simp
    with Suc True src len step [of "replicate n 0"] show ?thesis by simp
  next
    case False
    have "take (Suc n) (cstr src @ replicate (Suc n) 0) = c # take n (cstr s @ replicate n 0)"
      using False src by (simp add: min_def del: replicate_Suc)
    with Suc.IH [of "Suc i" "dest[i := c]" s] Suc.prems False src len
      step [of "take n (cstr s @ replicate n 0)"]
    show ?thesis by simp
  qed
qed simp

lemma copy_up_spec:
  assumes "tmp \<le> s" and "s + n \<le> length m"
  shows "\<exists>m'. copy_up m tmp s n = Ok m' \<and> length m' = length m
    \<and> (\<forall>i < length m. m' ! i = (if tmp \<le> i \<and> i < tmp + n then m ! (s + (i - tmp)) else m ! i))"
  using assms
proof (induction n arbitrary: m tmp s)
  case (Suc n)
  let ?m = "m[tmp := m ! s]"
  have "Suc tmp \<le> Suc s" "Suc s + n \<le> length ?m" using Suc.prems by simp_all
  from Suc.IH [OF this] obtain m' where m': "copy_up ?m (Suc tmp) (Suc s) n = Ok m'" "length m' = length m"
    "\<And>i. i < length m \<Longrightarrow> m' ! i = (if Suc tmp \<le> i \<and> i < Suc tmp + n then ?m ! (Suc s + (i - Suc tmp)) else ?m ! i)"
    by auto
  have "m' ! i = (if tmp \<le> i \<and> i < tmp + Suc n then m ! (s + (i - tmp)) else m ! i)" if "i < length m" for i
    using m'(3) [OF that] that Suc.prems
    by (cases "i = tmp") (auto simp: nth_list_update Suc_diff_le less_eq_Suc_le intro: arg_cong [of _ _ "(!) m"])
  with m'(1,2) Suc.prems show ?case by simp
qed auto

lemma copy_down_spec:
  assumes "s \<le> tmp" and "n \<le> s" and "tmp \<le> length m"
  shows "\<exists>m'. copy_down m tmp s n = Ok m' \<and> length m' = length m
    \<and> (\<forall>i < length m. m' ! i = (if tmp - n \<le> i \<and> i < tmp then m ! (i - (tmp - s)) else m ! i))"
  using assms
proof (induction n arbitrary: m tmp s)
  case (Suc n)
  let ?m = "m[tmp - 1 := m ! (s - 1)]"
  have "s - 1 \<le> tmp - 1" "n \<le> s - 1" "tmp - 1 \<le> length ?m" using Suc.prems by simp_all
  from Suc.IH [OF this] obtain m' where m': "copy_down ?m (tmp - 1) (s - 1) n = Ok m'" "length m' = length m"
    "\<And>i. i < length m \<Longrightarrow> m' ! i = (if tmp - 1 - n \<le> i \<and> i < tmp - 1 then ?m ! (i - (tmp - 1 - (s - 1))) else ?m ! i)"
    by auto
  have "m' ! i = (if tmp - Suc n \<le> i \<and> i < tmp then m ! (i - (tmp - s)) else m ! i)" if "i < length m" for i
  proof (cases "i = tmp - 1")
    case True
    then show ?thesis using m'(3) [OF that] that Suc.prems by (auto simp: nth_list_update)
  next
    case False
    have "tmp - 1 - (s - 1) = tmp - s" using Suc.prems by simp
    with False m'(3) [OF that] that Suc.prems show ?thesis
      by (auto simp: nth_list_update)
  qed
  with m'(1,2) Suc.prems show ?case by simp
qed auto


section \<open>Splitting: facts\<close>

lemma in_set_spec: "terminated ct \<Longrightarrow> in_set c ct = Ok (c \<in> set (cstr ct))"
  by (induction ct) auto

lemma strpbrk_spec:
  assumes "terminated s" and "terminated ct"
  shows "strpbrk s ct
    = Ok (let n = length (takeWhile (\<lambda>c. c \<notin> set (cstr ct)) (cstr s)) in
          if n < length (cstr s) then Some n else None)"
  using assms by (induction s) (auto simp: in_set_spec Let_def)

lemma strspn_spec:
  assumes "terminated s" and "terminated accept"
  shows "strspn s accept = Ok (length (takeWhile (\<lambda>c. c \<in> set (cstr accept)) (cstr s)))"
  using assms by (induction s) (auto simp: in_set_spec)

text \<open>The fields of a string between the separators satisfying \<open>P\<close>.\<close>

fun fields :: "('a \<Rightarrow> bool) \<Rightarrow> 'a list \<Rightarrow> 'a list list" where
  "fields P [] = [[]]"
| "fields P (x # xs) =
     (if P x then [] # fields P xs else (x # hd (fields P xs)) # tl (fields P xs))"

lemma fields_takeWhile:
  "fields P xs = takeWhile (\<lambda>x. \<not> P x) xs
     # (let r = dropWhile (\<lambda>x. \<not> P x) xs in if r = [] then [] else fields P (tl r))"
  by (induction xs) (auto simp: Let_def)

text \<open>One call of \<^verbatim>\<open>strsep\<close> on the string at \<open>p\<close>.\<close>

lemma strsep_spec:
  assumes "p \<le> length m" and "terminated (drop p m)" and "terminated ct"
  defines "str \<equiv> cstr (drop p m)" and "tok \<equiv> takeWhile (\<lambda>c. c \<notin> set (cstr ct)) (cstr (drop p m))"
  shows "\<exists>m' s'. strsep m (Some p) ct = Ok (Some p, m', s') \<and> length m' = length m
    \<and> cstr (drop p m') = tok
    \<and> (if length tok < length str
       then s' = Some (p + length tok + 1) \<and> drop (p + length tok + 1) m' = drop (p + length tok + 1) m
       else s' = None)"
proof -
  obtain r where m: "drop p m = str @ 0 # r" using terminated_split [OF assms(2)] by (auto simp: str_def)
  have tk: "takeWhile (\<lambda>c. c \<notin> set (cstr ct)) str = tok" by (simp add: tok_def str_def)
  have tok: "str = tok @ drop (length tok) str"
    by (metis tok_def str_def append_take_drop_id takeWhile_eq_take)
  show ?thesis
  proof (cases "length tok < length str")
    case True
    let ?e = "p + length tok"
    have "?e < length m" using True arg_cong [OF m, of length] by simp
    moreover have "drop p (m[?e := 0]) = tok @ 0 # drop (Suc (length tok)) (drop p m)"
    proof -
      have "drop p (m[?e := 0]) = (drop p m)[length tok := 0]"
        by (simp add: drop_update_swap)
      also have "\<dots> = take (length tok) (drop p m) @ 0 # drop (Suc (length tok)) (drop p m)"
        using True m by (intro upd_conv_take_nth_drop) simp
      also have "take (length tok) (drop p m) = tok" using True tok m by (metis append.assoc append_eq_conv_conj)
      finally show ?thesis .
    qed
    moreover have "0 \<notin> set tok" using set_takeWhileD [of 0 _ "cstr (drop p m)"] by (auto simp: tok_def)
    ultimately show ?thesis using True assms(2,3)
      by (simp add: strsep_def strpbrk_spec Let_def str_def [symmetric] tk)
  next
    case False
    with tok have "tok = str" by simp
    with False assms(2,3) show ?thesis
      by (simp add: strsep_def strpbrk_spec Let_def str_def [symmetric] tk)
  qed
qed

lemma tokens_spec:
  assumes "p \<le> length m" and "terminated (drop p m)" and "terminated ct" and "length m - p < n"
  shows "tokens n m (Some p) ct = Ok (fields (\<lambda>c. c \<in> set (cstr ct)) (cstr (drop p m)))"
  using assms
proof (induction n arbitrary: m p)
  case (Suc n)
  let ?str = "cstr (drop p m)" and ?sep = "\<lambda>c. c \<in> set (cstr ct)"
  let ?tok = "takeWhile (\<lambda>c. c \<notin> set (cstr ct)) ?str"
  obtain m' s' where s: "strsep m (Some p) ct = Ok (Some p, m', s')" "length m' = length m"
    "cstr (drop p m') = ?tok" "if length ?tok < length ?str
       then s' = Some (p + length ?tok + 1) \<and> drop (p + length ?tok + 1) m' = drop (p + length ?tok + 1) m
       else s' = None"
    using strsep_spec [OF Suc.prems(1-3)] by auto
  obtain r where m: "drop p m = ?str @ 0 # r" using terminated_split [OF Suc.prems(2)] by blast
  have rest: "dropWhile (\<lambda>c. c \<notin> set (cstr ct)) ?str = drop (length ?tok) ?str"
    by (rule dropWhile_eq_drop)
  show ?case
  proof (cases "length ?tok < length ?str")
    case True
    let ?q = "p + length ?tok + 1"
    have d: "drop ?q m = drop (Suc (length ?tok)) ?str @ 0 # r"
    proof -
      have "drop ?q m = drop (Suc (length ?tok)) (drop p m)" by (simp add: add.commute)
      also have "\<dots> = drop (Suc (length ?tok)) (?str @ 0 # r)" by (rule arg_cong [OF m])
      finally show ?thesis using True by simp
    qed
    have nz: "0 \<notin> set (drop (Suc (length ?tok)) ?str)" by (meson cstr_nonzero in_set_dropD)
    have len: "?q \<le> length m" using True arg_cong [OF m, of length] by simp
    have "tokens n m' (Some ?q) ct = Ok (fields ?sep (drop (Suc (length ?tok)) ?str))"
      using Suc.IH [of ?q m'] True s(2,4) d nz len Suc.prems by (simp add: terminated_def)
    then show ?thesis using True s rest
      by (subst fields_takeWhile) (simp add: Let_def drop_Suc tl_drop)
  next
    case False
    with s have "tokens n m' s' ct = Ok []" by (cases n) (simp_all add: strsep_def)
    with False s rest show ?thesis by (subst fields_takeWhile) (simp add: Let_def)
  qed
qed simp


section \<open>Character classes: facts\<close>

lemma all_u8: "(\<forall>c :: u8. P c) \<longleftrightarrow> list_all (\<lambda>n. P (of_nat n)) [0..<256]"
proof
  assume *: "list_all (\<lambda>n. P (of_nat n)) [0..<256]"
  show "\<forall>c. P c"
  proof
    fix c :: u8
    have "unat c < 256" using unsigned_less [of c, where ?'a = nat] by (simp del: unsigned_less)
    with * have "P (of_nat (unat c))" by (auto simp only: list_all_iff set_upt atLeastLessThan_iff)
    then show "P c" by simp
  qed
qed (simp add: list_all_iff)

lemma ascii_classes:
  "list_all (\<lambda>n. let c = of_nat n in
      isdigit c = (48 \<le> n \<and> n \<le> 57)
    \<and> isxdigit c = (48 \<le> n \<and> n \<le> 57 \<or> 65 \<le> n \<and> n \<le> 70 \<or> 97 \<le> n \<and> n \<le> 102)
    \<and> (n < 128 \<longrightarrow> isupper c = (65 \<le> n \<and> n \<le> 90) \<and> islower c = (97 \<le> n \<and> n \<le> 122)
         \<and> isspace c = (n = 32 \<or> 9 \<le> n \<and> n \<le> 13)
         \<and> isprint c = (32 \<le> n \<and> n \<noteq> 127) \<and> iscntrl c = (n < 32 \<or> n = 127)
         \<and> ispunct c = (isgraph c \<and> \<not> isalnum c) \<and> isalpha c = (isupper c \<or> islower c)
         \<and> isgraph c = (33 \<le> n \<and> n \<le> 126))) [0..<256]"
  by code_simp

lemma hex_digit_isxdigit: "hex_digit c = None \<longleftrightarrow> \<not> isxdigit c"
proof -
  have "\<forall>c. (hex_digit c = None) = (\<not> isxdigit c)"
    unfolding all_u8 by code_simp
  then show ?thesis by blast
qed

lemma isdigit_range: "isdigit c \<longleftrightarrow> 48 \<le> c \<and> c \<le> 57"
proof -
  have "\<forall>c. isdigit c = (48 \<le> c \<and> c \<le> 57)"
    unfolding all_u8 by code_simp
  then show ?thesis by blast
qed

section \<open>Hexadecimal and packed decimal: facts\<close>

lemma hex_loop_None: "hex_loop cs val = None \<longleftrightarrow> (\<exists>c \<in> set cs. \<not> isxdigit c)"
  by (induction cs arbitrary: val)
    (auto simp: hex_digit_isxdigit [symmetric] split: option.split)

definition hex_char :: "nat \<Rightarrow> u8" where
  "hex_char d = of_nat (if d < 10 then 48 + d else 87 + d)"

lemma hex_digit_char: "d < 16 \<Longrightarrow> hex_digit (hex_char d) = Some (of_nat d)"
proof -
  have "list_all (\<lambda>d. hex_digit (hex_char d) = Some (of_nat d)) [0..<16]" by code_simp
  then show "d < 16 \<Longrightarrow> ?thesis" by (simp add: list_all_iff)
qed

lemma hex_loop_value:
  assumes "\<forall>d \<in> set ds. d < 16"
  shows "hex_loop (map hex_char ds) (of_nat v) = Some (of_nat (foldl (\<lambda>v d. 16 * v + d) v ds))"
  using assms
proof (induction ds arbitrary: v)
  case (Cons d ds)
  have "push_bit 4 (of_nat v :: u64) OR of_nat d = of_nat (16 * v + d)"
    using push_bit_or_of_nat [of d 4 "of_nat v"] Cons.prems by simp
  with Cons.IH [of "16 * v + d"] Cons.prems show ?case by (simp add: hex_digit_char)
qed simp

fun digits_value :: "nat \<Rightarrow> nat list \<Rightarrow> nat" where
  "digits_value b [] = 0"
| "digits_value b (d # ds) = d + b * digits_value b ds"

lemma bcd_loop_spec:
  assumes "\<forall>d \<in> set ds. d < 16" and "length ds \<le> 16"
  shows "bcd_loop (of_nat (digits_value 16 ds)) v s
    = (if \<forall>d \<in> set ds. d < 10 then Some (v + s * of_nat (digits_value 10 ds)) else None)"
  using assms
proof (induction ds arbitrary: v s)
  case (Cons d ds)
  let ?h = "digits_value 16 ds" and ?H = "digits_value 16 (d # ds)"
  have bound: "digits_value 16 ds < 16 ^ length ds" if "\<forall>d \<in> set ds. d < 16" for ds :: "nat list"
    using that by (induction ds) auto
  have "?H < 16 ^ length (d # ds)" using bound [OF Cons.prems(1)] .
  also have "\<dots> \<le> 16 ^ 16" using Cons.prems(2) by (intro power_increasing) simp_all
  finally have H: "?H < 2 ^ 64" by simp
  have un: "unat (of_nat ?H :: u64) = ?H"
    by (rule unat_of_nat_small) (use H in simp)
  have and_f: "(of_nat ?H :: u64) AND 15 = of_nat d"
  proof -
    have "(of_nat ?H :: u64) AND 15 = take_bit 4 (of_nat ?H)"
      by (simp add: take_bit_eq_mask mask_eq_exp_minus_1)
    also have "\<dots> = of_nat (take_bit 4 ?H)" by (simp only: take_bit_of_nat)
    also have "take_bit 4 ?H = d" using Cons.prems(1) by (simp add: take_bit_eq_mod)
    finally show ?thesis .
  qed
  have shift: "drop_bit 4 (of_nat ?H :: u64) = of_nat ?h"
  proof (rule word_unat_eq_iff [THEN iffD2])
    have "unat (drop_bit 4 (of_nat ?H :: u64)) = ?H div 16" by (simp only: unat_drop_bit_eq un) (simp add: drop_bit_eq_div)
    also have "\<dots> = ?h" using Cons.prems(1) by simp
    also have "\<dots> = unat (of_nat ?h :: u64)" 
      by (rule unat_of_nat_small [symmetric]) (use H in simp)
    finally show "unat (drop_bit 4 (of_nat ?H :: u64)) = unat (of_nat ?h :: u64)" .
  qed
  have d10: "10 \<le> (of_nat d :: u64) \<longleftrightarrow> 10 \<le> d"
    using Cons.prems(1) by (simp add: word_le_nat_alt unat_of_nat_small [of d, where ?'a = 64])
  show ?case
  proof (cases "?H = 0")
    case True
    have "digits_value 10 ds = 0 \<and> (\<forall>d \<in> set ds. d = 0)" if "digits_value 16 ds = 0" for ds :: "nat list"
      using that by (induction ds) auto
    from this [OF True] True show ?thesis by (subst bcd_loop.simps) auto
  next
    case False
    then have "(of_nat ?H :: u64) \<noteq> 0" using un by (metis unat_0)
    then show ?thesis
      using Cons.IH [of "v + of_nat d * s" "s * 10"] Cons.prems
      by (subst bcd_loop.simps) (simp add: and_f shift d10 Let_def algebra_simps del: digits_value.simps(2), simp add: algebra_simps)
  qed
qed (simp add: bcd_loop.simps)


section \<open>Properties\<close>

text \<open>
  \<^verbatim>\<open>strcmp\<close> of two terminated strings returns 0 exactly when they are equal, and
  for ASCII strings a negative value exactly when the first comes first in the dictionary
  order; the truncation of the difference to a \<^verbatim>\<open>signed char\<close> is harmless there.
\<close>

theorem strcmp_correct:
  assumes "terminated cs" and "terminated ct"
  shows "\<exists>r. strcmp cs ct = Ok r \<and> (r = 0 \<longleftrightarrow> cstr cs = cstr ct)
    \<and> ((\<forall>c \<in> set (cstr cs) \<union> set (cstr ct). c < 128)
         \<longrightarrow> (r < 0 \<longleftrightarrow> (cstr cs, cstr ct) \<in> lexord {(a, b). a < b}))"
  using strcmp_spec [OF assms] strcmp_order [OF assms] by blast

theorem strcmp_correct_witness:
  "strcmp [98, 0] [98, 99, 0] = Ok (- 99) \<and> ([98], [98, 99 :: u8]) \<in> lexord {(a, b). a < b}"
proof -
  have "strcmp [98, 0] [98, 99, 0] = Ok (- 99)" by (simp add: Let_def)
  with strcmp_correct [of "[98, 0]" "[98, 99, 0]"] show ?thesis by simp
qed

text \<open>
  \<^verbatim>\<open>strncmp\<close> with any non-zero length, negative ones included, looks at one
  character only: the test \<^verbatim>\<open>len--\<close> ends the loop as soon as the length is not zero, so
  two strings that share their first character compare equal.
\<close>

theorem strncmp_one_character:
  assumes "len \<noteq> 0" and "s \<noteq> []" and "t \<noteq> []"
  shows "strncmp s t len = Ok 0 \<longleftrightarrow> hd s = hd t"
  using assms by (cases s; cases t) (auto simp: Let_def sint_0_iff)

theorem strncmp_one_character_witness:
  "strncmp [84, 82, 65, 73, 76, 69, 82] [84, 69, 88, 84] 10 = Ok 0"
  using strncmp_one_character [of 10 "[84, 82, 65, 73, 76, 69, 82]" "[84, 69, 88, 84]"] by simp

text \<open>
  (C29) \<^verbatim>\<open>memmove\<close> copies \<open>n\<close> bytes as they were before the call, however source and
  destination overlap, and changes no other byte.
\<close>

theorem memmove_correct:
  assumes "dest + n \<le> length m" and "src + n \<le> length m"
  shows "\<exists>m'. memmove m dest src n = Ok m' \<and> length m' = length m
    \<and> (\<forall>i < length m. m' ! i = (if dest \<le> i \<and> i < dest + n then m ! (src + (i - dest)) else m ! i))"
proof (cases "dest \<le> src")
  case True
  then show ?thesis using copy_up_spec [OF True assms(2)] by (simp add: memmove_def)
next
  case False
  with assms obtain m' where "memmove m dest src n = Ok m'" "length m' = length m"
    "\<And>i. i < length m \<Longrightarrow> m' ! i = (if dest \<le> i \<and> i < dest + n then m ! (i - (dest - src)) else m ! i)"
    using copy_down_spec [of "src + n" "dest + n" n m] by (auto simp: memmove_def)
  with False show ?thesis by (intro exI [of _ m']) (simp add: add.commute)
qed

theorem memmove_correct_witness:
  "\<exists>m'. memmove [1, 2, 3, 4, 5] 1 0 3 = Ok m' \<and> m' ! 1 = 1 \<and> m' ! 2 = 2 \<and> m' ! 3 = 3 \<and> m' ! 4 = 5"
  using memmove_correct [of 1 3 "[1, 2, 3, 4, 5]" 0] by auto

text \<open>
  (C30) Calling \<^verbatim>\<open>strsep\<close> until it returns \<^verbatim>\<open>NULL\<close> gives exactly the fields of
  the string between its separators, empty ones included, and one call more than the string
  has bytes is enough.
\<close>

theorem strsep_tokens:
  assumes "p \<le> length m" and "terminated (drop p m)" and "terminated ct" and "length m < n"
  shows "tokens n m (Some p) ct = Ok (fields (\<lambda>c. c \<in> set (cstr ct)) (cstr (drop p m)))"
  using assms by (intro tokens_spec) simp_all

theorem strsep_tokens_witness:
  "tokens 9 [97, 32, 32, 98, 99, 0] (Some 0) [32, 0] = Ok [[97], [], [98, 99]]"
  using strsep_tokens [of 0 "[97, 32, 32, 98, 99, 0]" "[32, 0]" 9] by simp

text \<open>
  \<^verbatim>\<open>strmsep\<close> skips the separators before a token, so the token it returns is empty
  only when no token is left: then it returns an empty one (which its comment says it never
  does) and leaves \<^verbatim>\<open>*s\<close> \<^verbatim>\<open>NULL\<close>.
\<close>

theorem strmsep_correct:
  assumes "p \<le> length m" and "terminated (drop p m)" and "terminated ct"
    and "r = dropWhile (\<lambda>c. c \<in> set (cstr ct)) (cstr (drop p m))"
  shows "\<exists>q m' s'. strmsep m (Some p) ct = Ok (Some q, m', s')
    \<and> cstr (drop q m') = takeWhile (\<lambda>c. c \<notin> set (cstr ct)) r
    \<and> (cstr (drop q m') = [] \<longleftrightarrow> r = []) \<and> (r = [] \<longrightarrow> s' = None)"
proof -
  let ?P = "\<lambda>c. c \<in> set (cstr ct)" and ?str = "cstr (drop p m)"
  define k where "k = length (takeWhile ?P ?str)"
  obtain z where z: "drop p m = ?str @ 0 # z" using terminated_split [OF assms(2)] by blast
  have k: "k \<le> length ?str" unfolding k_def by (rule length_takeWhile_le)
  have r: "r = drop k ?str" unfolding assms(4) k_def by (rule dropWhile_eq_drop)
  have "drop (p + k) m = drop k (?str @ 0 # z)" using arg_cong [OF z, of "drop k"] by (simp add: add.commute)
  also have "\<dots> = r @ 0 # z" using k r by simp
  finally have q: "drop (p + k) m = r @ 0 # z" .
  have "0 \<notin> set r" unfolding r by (meson cstr_nonzero in_set_dropD)
  with q have str: "cstr (drop (p + k) m) = r" "terminated (drop (p + k) m)" by (simp_all add: terminated_def)
  have len: "p + k \<le> length m" using arg_cong [OF z, of length] k assms(1) by simp
  from strsep_spec [OF len str(2) assms(3)] obtain m' s' where s: "strsep m (Some (p + k)) ct = Ok (Some (p + k), m', s')"
    "cstr (drop (p + k) m') = takeWhile (\<lambda>c. \<not> ?P c) r" "r = [] \<longrightarrow> s' = None"
    by (auto simp: str(1))
  moreover have "takeWhile (\<lambda>c. \<not> ?P c) r = [] \<longleftrightarrow> r = []"
    using hd_dropWhile [of ?P ?str] unfolding assms(4) [symmetric] by (cases r) auto
  ultimately show ?thesis
    using assms(2,3) by (simp add: strmsep_def strspn_spec k_def [symmetric])
qed

theorem strmsep_correct_witness:
  "\<exists>q m'. strmsep [32, 32, 0] (Some 0) [32, 0] = Ok (Some q, m', None) \<and> cstr (drop q m') = []"
  using strmsep_correct [of 0 "[32, 32, 0]" "[32, 0]" "[]"] by auto

text \<open>
  \<^verbatim>\<open>hex\<close> fails exactly on an empty range and on a character that is no hexadecimal
  digit of the character table, and reads back any number of digits, keeping the last 16.
\<close>

theorem hex_correct:
  "(hex cs = None \<longleftrightarrow> cs = [] \<or> (\<exists>c \<in> set cs. \<not> isxdigit c))
   \<and> (ds \<noteq> [] \<and> (\<forall>d \<in> set ds. d < 16)
        \<longrightarrow> hex (map hex_char ds) = Some (of_nat (foldl (\<lambda>v d. 16 * v + d) 0 ds)))"
  using hex_loop_None [of cs 0] hex_loop_value [of ds 0] by (simp add: hex_def)

theorem hex_correct_witness: "hex (map hex_char [1, 15, 10]) = Some 0x1fa"
  using hex_correct [of "[]" "[1, 15, 10]"] by simp

text \<open>
  \<^verbatim>\<open>bcd2dec\<close> reads a packed decimal of up to 16 digits, least significant first
  here, as the number its digits spell, and fails exactly when a digit is not decimal.
\<close>

theorem bcd2dec_correct:
  assumes "\<forall>d \<in> set ds. d < 16" and "length ds \<le> 16"
  shows "bcd2dec (of_nat (digits_value 16 ds))
    = (if \<forall>d \<in> set ds. d < 10 then Some (of_nat (digits_value 10 ds)) else None)"
  using bcd_loop_spec [OF assms, of 0 1] by (simp add: bcd2dec_def)

theorem bcd2dec_correct_witness: "bcd2dec 0x1984 = Some 1984"
  using bcd2dec_correct [of "[4, 8, 9, 1]"] by simp

lemma strdup_eq:
  assumes "terminated s"
  shows "strdup s flags st = bindR (malloc (int (length (cstr s))) flags st) (\<lambda>(d, st). case d of
    None \<Rightarrow> Ok (None, st) | Some p \<Rightarrow> Ok (Some (p, cstr s), st))"
proof -
  obtain r where r: "s = cstr s @ 0 # r" using terminated_split [OF assms] by blast
  then have "take (length (cstr s)) s = cstr s" by (metis append_eq_conv_conj)
  moreover have "length (cstr s) < length s" using arg_cong [OF r, of length] by simp
  ultimately show ?thesis
    using strnlen_spec [of s "Suc (length s)"] assms
    by (simp add: strdup_def cong: option.case_cong)
qed

lemma malloc_0: "malloc 0 flags st = Ok (None, st)"
  by (simp add: malloc_def size_class_def)

text \<open>
  \<^verbatim>\<open>strdup\<close> allocates only the characters: the copy holds no terminator, and the copy of
  an empty string is \<^verbatim>\<open>NULL\<close>.
\<close>

theorem strdup_no_terminator:
  assumes "terminated s"
  shows "(strdup s flags st = Ok (Some (p, bs), st') \<longrightarrow> bs = cstr s \<and> \<not> terminated bs \<and> bs \<noteq> [])
    \<and> (cstr s = [] \<longrightarrow> strdup s flags st = Ok (None, st))"
proof (cases "cstr s = []")
  case True
  then show ?thesis by (simp add: strdup_eq [OF assms] malloc_0)
next
  case False
  have "bs = cstr s" if "strdup s flags st = Ok (Some (p, bs), st')"
    using that unfolding strdup_eq [OF assms] bindR_eq_Ok by (force split: option.splits)
  moreover have "\<not> terminated (cstr s)" using cstr_nonzero [of s] by (simp add: terminated_def)
  ultimately show ?thesis using False by metis
qed

lemma example_string:
  "terminated (replicate 100 72 @ [0])" "cstr (replicate 100 72 @ [0]) = replicate 100 72"
  by (simp add: terminated_def) (intro cstr_append_0, simp)

theorem strdup_no_terminator_witness:
  "\<exists>st'. strdup (replicate 100 72 @ [0]) ZONE_LOW small_heap = Ok (Some (0xb02c, replicate 100 72), st')
     \<and> \<not> terminated (replicate 100 72)"
proof -
  have "strdup (replicate 100 72 @ [0]) ZONE_LOW small_heap
      = Ok (Some (0xb02c, replicate 100 72), example_heap 1 0x80)"
    by (simp only: strdup_eq example_string length_replicate example_alloc of_nat_numeral
        bindR_simps prod.case option.case)
  with strdup_no_terminator [OF example_string(1), of ZONE_LOW small_heap] show ?thesis by blast
qed

end
