(* ===== verification/Ebcdic.thy ===== *)
theory Ebcdic
  imports Cstring
begin

text \<open>
  Character sets: the tables of \<^verbatim>\<open>src/lib/ascii.c\<close> and \<^verbatim>\<open>src/lib/ebcdic.c\<close>, and
  \<^verbatim>\<open>__translate\<close> of \<^verbatim>\<open>src/include/ebcdic.h\<close>, a loop around the \<^verbatim>\<open>tre\<close>
  instruction.  Its test byte is 0, so the instruction ends with condition code 1 at the first
  byte of the buffer that is 0, and the loop, which repeats on that code only if it reads
  \<^verbatim>\<open>brc 1\<close> (code 3, not finished), ends there.
\<close>

definition ascii2upper_table :: "u8 list" where
  "ascii2upper_table = [
    0x00, 0x01, 0x02, 0x03, 0x04, 0x05, 0x06, 0x07, 0x08, 0x09, 0x0a, 0x0b, 0x0c, 0x0d, 0x0e, 0x0f,
    0x10, 0x11, 0x12, 0x13, 0x14, 0x15, 0x16, 0x17, 0x18, 0x19, 0x1a, 0x1b, 0x1c, 0x1d, 0x1e, 0x1f,
    0x20, 0x21, 0x22, 0x23, 0x24, 0x25, 0x26, 0x27, 0x28, 0x29, 0x2a, 0x2b, 0x2c, 0x2d, 0x2e, 0x2f,
    0x30, 0x31, 0x32, 0x33, 0x34, 0x35, 0x36, 0x37, 0x38, 0x39, 0x3a, 0x3b, 0x3c, 0x3d, 0x3e, 0x3f,
    0x40, 0x41, 0x42, 0x43, 0x44, 0x45, 0x46, 0x47, 0x48, 0x49, 0x4a, 0x4b, 0x4c, 0x4d, 0x4e, 0x4f,
    0x50, 0x51, 0x52, 0x53, 0x54, 0x55, 0x56, 0x57, 0x58, 0x59, 0x5a, 0x5b, 0x5c, 0x5d, 0x5e, 0x5f,
    0x60, 0x41, 0x42, 0x43, 0x44, 0x45, 0x46, 0x47, 0x48, 0x49, 0x4a, 0x4b, 0x4c, 0x4d, 0x4e, 0x4f,
    0x50, 0x51, 0x52, 0x53, 0x54, 0x55, 0x56, 0x57, 0x58, 0x59, 0x5a, 0x7b, 0x7c, 0x7d, 0x7e, 0x7f,
    0x80, 0x81, 0x82, 0x83, 0x84, 0x85, 0x86, 0x87, 0x88, 0x89, 0x8a, 0x8b, 0x8c, 0x8d, 0x8e, 0x8f,
    0x90, 0x91, 0x92, 0x93, 0x94, 0x95, 0x96, 0x97, 0x98, 0x99, 0x9a, 0x9b, 0x9c, 0x9d, 0x9e, 0x9f,
    0xa0, 0xa1, 0xa2, 0xa3, 0xa4, 0xa5, 0xa6, 0xa7, 0xa8, 0xa9, 0xaa, 0xab, 0xac, 0xad, 0xae, 0xaf,
    0xb0, 0xb1, 0xb2, 0xb3, 0xb4, 0xb5, 0xb6, 0xb7, 0xb8, 0xb9, 0xba, 0xbb, 0xbc, 0xbd, 0xbe, 0xbf,
    0xc0, 0xc1, 0xc2, 0xc3, 0xc4, 0xc5, 0xc6, 0xc7, 0xc8, 0xc9, 0xca, 0xcb, 0xcc, 0xcd, 0xce, 0xcf,
    0xd0, 0xd1, 0xd2, 0xd3, 0xd4, 0xd5, 0xd6, 0xd7, 0xd8, 0xd9, 0xda, 0xdb, 0xdc, 0xdd, 0xde, 0xdf,
    0xe0, 0xe1, 0xe2, 0xe3, 0xe4, 0xe5, 0xe6, 0xe7, 0xe8, 0xe9, 0xea, 0xeb, 0xec, 0xed, 0xee, 0xef,
    0xf0, 0xf1, 0xf2, 0xf3, 0xf4, 0xf5, 0xf6, 0xf7, 0xf8, 0xf9, 0xfa, 0xfb, 0xfc, 0xfd, 0xfe, 0xff]"

definition ascii2ebcdic_table :: "u8 list" where
  "ascii2ebcdic_table = [
    0x00, 0x01, 0x02, 0x03, 0x37, 0x2d, 0x2e, 0x2f, 0x16, 0x05, 0x15, 0x0b, 0x0c, 0x0d, 0x0e, 0x0f,
    0x10, 0x11, 0x12, 0x13, 0x3c, 0x3d, 0x32, 0x26, 0x18, 0x19, 0x3f, 0x27, 0x22, 0x1d, 0x1e, 0x1f,
    0x40, 0x5a, 0x7f, 0x7b, 0x5b, 0x6c, 0x50, 0x7d, 0x4d, 0x5d, 0x5c, 0x4e, 0x6b, 0x60, 0x4b, 0x61,
    0xf0, 0xf1, 0xf2, 0xf3, 0xf4, 0xf5, 0xf6, 0xf7, 0xf8, 0xf9, 0x7a, 0x5e, 0x4c, 0x7e, 0x6e, 0x6f,
    0x7c, 0xc1, 0xc2, 0xc3, 0xc4, 0xc5, 0xc6, 0xc7, 0xc8, 0xc9, 0xd1, 0xd2, 0xd3, 0xd4, 0xd5, 0xd6,
    0xd7, 0xd8, 0xd9, 0xe2, 0xe3, 0xe4, 0xe5, 0xe6, 0xe7, 0xe8, 0xe9, 0xba, 0xe0, 0xbb, 0xb0, 0x6d,
    0x79, 0x81, 0x82, 0x83, 0x84, 0x85, 0x86, 0x87, 0x88, 0x89, 0x91, 0x92, 0x93, 0x94, 0x95, 0x96,
    0x97, 0x98, 0x99, 0xa2, 0xa3, 0xa4, 0xa5, 0xa6, 0xa7, 0xa8, 0xa9, 0xc0, 0x4f, 0xd0, 0xa1, 0x07,
    0x3f, 0x3f, 0x3f, 0x3f, 0x3f, 0x3f, 0x3f, 0x3f, 0x3f, 0x3f, 0x3f, 0x3f, 0x3f, 0x3f, 0x3f, 0x3f,
    0x3f, 0x3f, 0x3f, 0x3f, 0x3f, 0x3f, 0x3f, 0x3f, 0x3f, 0x3f, 0x3f, 0x3f, 0x3f, 0x3f, 0x3f, 0x3f,
    0x3f, 0x3f, 0x3f, 0x3f, 0x3f, 0x3f, 0x3f, 0x3f, 0x3f, 0x3f, 0x3f, 0x3f, 0x3f, 0x3f, 0x3f, 0x3f,
    0x3f, 0x3f, 0x3f, 0x3f, 0x3f, 0x3f, 0x3f, 0x3f, 0x3f, 0x3f, 0x3f, 0x3f, 0x3f, 0x3f, 0x3f, 0x3f,
    0x3f, 0x3f, 0x3f, 0x3f, 0x3f, 0x3f, 0x3f, 0x3f, 0x3f, 0x3f, 0x3f, 0x3f, 0x3f, 0x3f, 0x3f, 0x3f,
    0x3f, 0x3f, 0x3f, 0x3f, 0x3f, 0x3f, 0x3f, 0x3f, 0x3f, 0x3f, 0x3f, 0x3f, 0x3f, 0x3f, 0x3f, 0x3f,
    0x3f, 0x59, 0x3f, 0x3f, 0x3f, 0x3f, 0x3f, 0x3f, 0x3f, 0x3f, 0x3f, 0x3f, 0x3f, 0x3f, 0x3f, 0x3f,
    0x3f, 0x3f, 0x3f, 0x3f, 0x3f, 0x3f, 0x3f, 0x3f, 0x90, 0x3f, 0x3f, 0x3f, 0x3f, 0xea, 0x3f, 0xff]"

definition ebcdic2ascii_table :: "u8 list" where
  "ebcdic2ascii_table = [
    0x00, 0x01, 0x02, 0x03, 0x07, 0x09, 0x07, 0x7f, 0x07, 0x07, 0x07, 0x0b, 0x0c, 0x0d, 0x0e, 0x0f,
    0x10, 0x11, 0x12, 0x13, 0x07, 0x0a, 0x08, 0x07, 0x18, 0x19, 0x07, 0x07, 0x07, 0x07, 0x07, 0x07,
    0x07, 0x07, 0x1c, 0x07, 0x07, 0x0a, 0x17, 0x1b, 0x07, 0x07, 0x07, 0x07, 0x07, 0x05, 0x06, 0x07,
    0x07, 0x07, 0x16, 0x07, 0x07, 0x07, 0x07, 0x04, 0x07, 0x07, 0x07, 0x07, 0x14, 0x15, 0x07, 0x1a,
    0x20, 0xff, 0x83, 0x84, 0x85, 0xa0, 0x07, 0x86, 0x87, 0xa4, 0x9b, 0x2e, 0x3c, 0x28, 0x2b, 0x7c,
    0x26, 0x82, 0x88, 0x89, 0x8a, 0xa1, 0x8c, 0x07, 0x8d, 0xe1, 0x21, 0x24, 0x2a, 0x29, 0x3b, 0xaa,
    0x2d, 0x2f, 0x07, 0x8e, 0x07, 0x07, 0x07, 0x8f, 0x80, 0xa5, 0x07, 0x2c, 0x25, 0x5f, 0x3e, 0x3f,
    0x07, 0x90, 0x07, 0x07, 0x07, 0x07, 0x07, 0x07, 0x70, 0x60, 0x3a, 0x23, 0x40, 0x27, 0x3d, 0x22,
    0x07, 0x61, 0x62, 0x63, 0x64, 0x65, 0x66, 0x67, 0x68, 0x69, 0xae, 0xaf, 0x07, 0x07, 0x07, 0xf1,
    0xf8, 0x6a, 0x6b, 0x6c, 0x6d, 0x6e, 0x6f, 0x70, 0x71, 0x72, 0xa6, 0xa7, 0x91, 0x07, 0x92, 0x07,
    0xe6, 0x7e, 0x73, 0x74, 0x75, 0x76, 0x77, 0x78, 0x79, 0x7a, 0xad, 0xab, 0x07, 0x07, 0x07, 0x07,
    0x5e, 0x9c, 0x9d, 0xfa, 0x07, 0x07, 0x07, 0xac, 0xab, 0x07, 0x5b, 0x5d, 0x07, 0x07, 0x07, 0x07,
    0x7b, 0x41, 0x42, 0x43, 0x44, 0x45, 0x46, 0x47, 0x48, 0x49, 0x07, 0x93, 0x94, 0x95, 0xa2, 0x07,
    0x7d, 0x4a, 0x4b, 0x4c, 0x4d, 0x4e, 0x4f, 0x50, 0x51, 0x52, 0x07, 0x96, 0x81, 0x97, 0xa3, 0x98,
    0x5c, 0xf6, 0x53, 0x54, 0x55, 0x56, 0x57, 0x58, 0x59, 0x5a, 0xfd, 0x07, 0x99, 0x07, 0x07, 0x07,
    0x30, 0x31, 0x32, 0x33, 0x34, 0x35, 0x36, 0x37, 0x38, 0x39, 0x07, 0x07, 0x9a, 0x07, 0x07, 0x07]"

fun translate :: "u8 list \<Rightarrow> nat \<Rightarrow> u8 list \<Rightarrow> u8 list result" where
  "translate buf 0 table = Ok buf"
| "translate [] (Suc len) table = Stop OutOfBounds"
| "translate (c # buf) (Suc len) table =
     (if c = 0 then Ok (c # buf)
      else bindR (translate buf len table) (\<lambda>r. Ok (table ! unat c # r)))"

definition ascii2ebcdic :: "u8 list \<Rightarrow> nat \<Rightarrow> u8 list result" where
  "ascii2ebcdic buf len = translate buf len ascii2ebcdic_table"

definition ebcdic2ascii :: "u8 list \<Rightarrow> nat \<Rightarrow> u8 list result" where
  "ebcdic2ascii buf len = translate buf len ebcdic2ascii_table"

definition ascii2upper :: "u8 list \<Rightarrow> nat \<Rightarrow> u8 list result" where
  "ascii2upper buf len = translate buf len ascii2upper_table"

lemma translate_spec:
  assumes "terminated buf \<or> len \<le> length buf"
  shows "translate buf len table
    = Ok (map (\<lambda>c. table ! unat c) (take len (cstr buf)) @ drop (length (take len (cstr buf))) buf)"
  using assms by (induction buf len table rule: translate.induct) auto

lemma upper_table:
  "(\<forall>c. ascii2upper_table ! unat c = (if 97 \<le> c \<and> c \<le> 122 then c - 32 else c))"
  unfolding all_u8 by code_simp

lemma ascii_back:
  "\<forall>c. c < 29 \<or> 32 \<le> c \<and> c < 128 \<longrightarrow> ebcdic2ascii_table ! unat (ascii2ebcdic_table ! unat c) = c"
  unfolding all_u8 by code_simp

lemma ascii2ebcdic_0: "\<forall>c :: u8. ascii2ebcdic_table ! unat c = 0 \<longleftrightarrow> c = 0"
  unfolding all_u8 by code_simp

lemma cstr_map:
  "(\<And>c. f c = 0 \<longleftrightarrow> c = 0) \<Longrightarrow> cstr (map f xs) = map f (cstr xs)"
  by (induction xs) auto

lemma cstr_append: "0 \<notin> set xs \<Longrightarrow> cstr (xs @ ys) = xs @ cstr ys"
  by (induction xs) auto

text \<open>
  Translating a buffer to EBCDIC and back gives the buffer again, if its text is ASCII
  without the three separators 0x1d to 0x1f, which the second table maps to 7; everything from
  the first zero byte on is left alone, and nothing outside the length is touched.
\<close>

theorem ebcdic_roundtrip:
  assumes "terminated buf \<or> len \<le> length buf"
    and "\<forall>c \<in> set (take len (cstr buf)). c < 29 \<or> 32 \<le> c \<and> c < 128"
  shows "\<exists>e. ascii2ebcdic buf len = Ok e \<and> ebcdic2ascii e len = Ok buf
    \<and> length e = length buf \<and> cstr (take len e) = map (\<lambda>c. ascii2ebcdic_table ! unat c) (take len (cstr buf))"
proof -
  let ?f = "\<lambda>c. ascii2ebcdic_table ! unat c" and ?g = "\<lambda>c. ebcdic2ascii_table ! unat c"
  define t where "t = take len (cstr buf)"
  define d where "d = drop (length t) buf"
  have nz: "0 \<notin> set t" unfolding t_def by (meson cstr_nonzero in_set_takeD)
  obtain r where r: "buf = cstr buf @ r" by (metis cstr_def takeWhile_dropWhile_id)
  have buf: "buf = t @ d"
  proof -
    have "length t \<le> length (cstr buf)" "t = take (length t) (cstr buf)"
      by (simp_all add: t_def min_def)
    then have "take (length t) buf = t" using r
      by (metis append_take_drop_id diff_is_0_eq take0 take_append append_Nil2)
    then show ?thesis unfolding d_def by (metis append_take_drop_id)
  qed
  have e: "ascii2ebcdic buf len = Ok (map ?f t @ d)"
    using translate_spec [OF assms(1), of ascii2ebcdic_table] by (simp add: ascii2ebcdic_def t_def d_def)
  have nzf: "0 \<notin> set (map ?f t)" using nz ascii2ebcdic_0 by auto
  have stop: "length t = len \<or> cstr d = []"
  proof (cases "len \<le> length (cstr buf)")
    case False
    then have "t = cstr buf" by (simp add: t_def)
    with buf nz have "cstr buf = cstr buf @ cstr d" by (metis cstr_append)
    then show ?thesis by simp
  qed (simp add: t_def)
  have tk: "take len (cstr (map ?f t @ d)) = map ?f t"
    using stop cstr_append [OF nzf, of d] by (auto simp: t_def)
  have "translate (map ?f t @ d) len ebcdic2ascii_table = Ok (map ?g (map ?f t) @ d)"
  proof -
    have "terminated (map ?f t @ d) \<or> len \<le> length (map ?f t @ d)"
      using assms(1) buf nz by (auto simp: terminated_def)
    from translate_spec [OF this, of ebcdic2ascii_table] show ?thesis by (simp add: tk)
  qed
  moreover have "map ?g (map ?f t) = t"
    using assms(2) ascii_back by (auto simp: t_def [symmetric] intro!: map_idI)
  ultimately have "ebcdic2ascii (map ?f t @ d) len = Ok buf"
    by (simp add: ebcdic2ascii_def buf [symmetric])
  moreover have "cstr (take len (map ?f t @ d)) = map ?f t"
  proof -
    have "len \<le> length t \<or> cstr d = []" using stop by auto
    moreover have "length t \<le> len" by (simp add: t_def)
    ultimately show ?thesis using cstr_append [OF nzf, of "take (len - length t) d"]
      by (cases "len - length t"; cases d) (auto split: if_splits)
  qed
  moreover have "length (map ?f t @ d) = length buf" unfolding buf by simp
  ultimately show ?thesis using e unfolding t_def [symmetric] by blast
qed

theorem ebcdic_roundtrip_witness:
  "\<exists>e. ascii2ebcdic [72, 86, 70, 10, 0, 255] 6 = Ok e \<and> ebcdic2ascii e 6 = Ok [72, 86, 70, 10, 0, 255]"
  using ebcdic_roundtrip [of "[72, 86, 70, 10, 0, 255]" 6] by auto

end
