(* ===== verification/Clock.thy ===== *)
theory Clock
  imports Prelude
begin

text \<open>
  The conversion of the time-of-day clock to a calendar date: \<^verbatim>\<open>src/lib/clock.c\<close> and
  \<^verbatim>\<open>src/include/clock.h\<close>.  The clock is a 64-bit word; the fields of
  \<^verbatim>\<open>struct datetime\<close> are \<^verbatim>\<open>short int\<close>, kept as integers with every store cut to
  16 bits by \<open>short\<close>.  \<^verbatim>\<open>get_tod\<close> only reads the clock and is not modelled.
\<close>

definition CLK_MICROSEC :: u64 where "CLK_MICROSEC = 0x1000"
definition CLK_SEC :: u64 where "CLK_SEC = 0xf4240000"
definition CLK_MIN :: u64 where "CLK_MIN = 0x3938700000"
definition CLK_HOUR :: u64 where "CLK_HOUR = 0xd693a400000"
definition CLK_DAY :: u64 where "CLK_DAY = 0x141dd76000000"
definition CLK_YEAR :: u64 where "CLK_YEAR = 0x1cae8c13e000000"

record datetime =
  dy :: int
  dm :: int
  dd :: int
  th :: int
  tm :: int
  ts :: int
  tmicro :: u32

definition short :: "int \<Rightarrow> int" where
  "short = signed_take_bit 15"

definition leap_year :: "int \<Rightarrow> bool" where
  "leap_year year \<longleftrightarrow> year mod 4 = 0 \<and> (year mod 100 \<noteq> 0 \<or> year mod 400 = 0)"

definition LS_NONE :: u32 where "LS_NONE = 0x00"
definition LS_LS :: u32 where "LS_LS = 0x10"
definition LS_MASK :: u32 where "LS_MASK = LS_LS"

definition LS_YM2DATE :: "u32 \<Rightarrow> u32 \<Rightarrow> u32 \<Rightarrow> u32" where
  "LS_YM2DATE y m f = push_bit 8 y OR f OR m"

definition LS_DATE2Y :: "u32 \<Rightarrow> u32" where "LS_DATE2Y d = drop_bit 8 d"
definition LS_DATE2M :: "u32 \<Rightarrow> u32" where "LS_DATE2M d = d AND 0xf"
definition LS_DATE2F :: "u32 \<Rightarrow> u32" where "LS_DATE2F d = d AND LS_MASK"

definition leap_secs :: "(u64 \<times> u32) list" where
  "leap_secs = [
    (0xc3870cb9bb600000, LS_YM2DATE 2009 1 LS_LS),
    (0xbe251097973c0000, LS_YM2DATE 2006 1 LS_LS),
    (0xb1962f9305180000, LS_YM2DATE 1999 1 LS_LS),
    (0xaee3efa402f40000, LS_YM2DATE 1997 7 LS_LS),
    (0xac34336fecd00000, LS_YM2DATE 1996 1 LS_LS),
    (0xa981f380eaac0000, LS_YM2DATE 1994 7 LS_LS),
    (0xa7b70abeb8880000, LS_YM2DATE 1993 7 LS_LS),
    (0xa5ec21fc86640000, LS_YM2DATE 1992 7 LS_LS),
    (0xa33c65c870400000, LS_YM2DATE 1991 1 LS_LS),
    (0xa1717d063e1c0000, LS_YM2DATE 1990 1 LS_LS),
    (0x9dda69a557f80000, LS_YM2DATE 1988 1 LS_LS),
    (0x995d40f517d40000, LS_YM2DATE 1985 7 LS_LS),
    (0x95c62d9431b00000, LS_YM2DATE 1983 7 LS_LS),
    (0x93fb44d1ff8c0000, LS_YM2DATE 1982 7 LS_LS),
    (0x92305c0fcd680000, LS_YM2DATE 1981 7 LS_LS),
    (0x8f809fdbb7440000, LS_YM2DATE 1980 1 LS_LS),
    (0x8db5b71985200000, LS_YM2DATE 1979 1 LS_LS),
    (0x8beace5752fc0000, LS_YM2DATE 1978 1 LS_LS),
    (0x8a1fe59520d80000, LS_YM2DATE 1977 1 LS_LS),
    (0x8853baf578b40000, LS_YM2DATE 1976 1 LS_LS),
    (0x8688d23346900000, LS_YM2DATE 1975 1 LS_LS),
    (0x84bde971146c0000, LS_YM2DATE 1974 1 LS_LS),
    (0x82f300aee2480000, LS_YM2DATE 1973 1 LS_LS),
    (0x820ba9811e240000, LS_YM2DATE 1972 7 LS_LS),
    (0x8126d60e46000000, LS_YM2DATE 1972 1 LS_NONE),
    (0x0000000000000000, LS_YM2DATE 1900 1 LS_NONE)]"

definition month_offsets :: "int list list" where
  "month_offsets = [
    [0, 31, 59, 90, 120, 151, 181, 212, 243, 273, 304, 334],
    [0, 31, 60, 91, 121, 152, 182, 213, 244, 274, 305, 335]]"

definition month_offset :: "bool \<Rightarrow> int \<Rightarrow> int" where
  "month_offset leap k = month_offsets ! (if leap then 1 else 0) ! nat k"

section \<open>The conversion\<close>

fun leap_index :: "(u64 \<times> u32) list \<Rightarrow> u64 \<Rightarrow> nat result" where
  "leap_index [] tod = Stop OutOfBounds"
| "leap_index ((t, d) # r) tod =
     (if t > tod then bindR (leap_index r tod) (\<lambda>i. Ok (Suc i)) else Ok 0)"

function year_loop :: "int \<Rightarrow> int \<Rightarrow> u64 \<Rightarrow> int \<times> u64" where
  "year_loop m y tod =
     (let finished = (if leap_year (if m = 1 then y else y + 1) then tod < CLK_YEAR + CLK_DAY
                      else tod < CLK_YEAR) in
      if finished then (y, tod)
      else year_loop m (short (y + 1))
        (if m = 1 \<and> leap_year y \<or> m = 7 \<and> leap_year (y + 1) then tod - (CLK_YEAR + CLK_DAY)
         else tod - CLK_YEAR))"
  by pat_completeness auto

function month_scan :: "bool \<Rightarrow> int \<Rightarrow> int \<Rightarrow> int \<Rightarrow> int" where
  "month_scan leap i d m =
     (if m < 12 \<and> i + d \<ge> month_offset leap m then month_scan leap i d (m + 1) else m)"
  by pat_completeness auto
termination by (relation "measure (\<lambda>(_, _, _, m). nat (12 - m))") auto

partial_function (option) day_loop :: "int \<Rightarrow> int \<Rightarrow> int \<Rightarrow> (int \<times> int \<times> int) option" where
  "day_loop y m d =
     (let leap = leap_year y;
          i = month_offset leap (m - 1);
          m = month_scan leap i d m;
          d = short (d + i - month_offset leap (m - 1))
      in if m < 12 \<or> d < 31 then Some (y, m, d)
         else day_loop (short (y + 1)) 1 (short (d - 31)))"

text \<open>The result \<open>Ok None\<close> is the \<^verbatim>\<open>NULL\<close> for a table entry in a wrong month.\<close>

definition parse_tod :: "u64 \<Rightarrow> datetime option result" where
  "parse_tod tod =
     bindR (leap_index leap_secs tod) (\<lambda>i.
     bindR (leap_index leap_secs (tod + CLK_SEC)) (\<lambda>j.
       let t = tod - fst (leap_secs ! i);
           y = short (uint (LS_DATE2Y (snd (leap_secs ! i))));
           m = short (uint (LS_DATE2M (snd (leap_secs ! i))));
           in_leap = (i \<noteq> j \<and> LS_DATE2F (snd (leap_secs ! j)) = LS_LS);
           t = (if in_leap then t - CLK_SEC else t);
           add_sec = (if in_leap then 1 else 0)
       in if m \<noteq> 1 \<and> m \<noteq> 7 then Ok None
          else
            let (y, t) = year_loop m y t;
                d = short (uint (t div CLK_DAY));
                t = t - word_of_int d * CLK_DAY
            in (case day_loop y m d of
                  None \<Rightarrow> Ok None
                | Some (y, m, d) \<Rightarrow>
                    let d = short (d + 1);
                        hour = short (uint (t div CLK_HOUR));
                        t = t - word_of_int hour * CLK_HOUR;
                        min = short (uint (t div CLK_MIN));
                        t = t - word_of_int min * CLK_MIN;
                        sec = short (uint (t div CLK_SEC));
                        t = t - word_of_int sec * CLK_SEC
                    in Ok (Some \<lparr>dy = y, dm = m, dd = d, th = hour, tm = min,
                             ts = short (sec + add_sec), tmicro = ucast (drop_bit 12 t)\<rparr>))))"

section \<open>The loops\<close>

lemma short_id: "- 32768 \<le> x \<Longrightarrow> x < 32768 \<Longrightarrow> short x = x"
  by (simp add: short_def signed_take_bit_int_eq_self)

lemma clk_unat:
  "unat CLK_SEC = 4096000000" "unat CLK_MIN = 60 * 4096000000" "unat CLK_HOUR = 3600 * 4096000000"
  "unat CLK_DAY = 86400 * 4096000000" "unat CLK_YEAR = 365 * (86400 * 4096000000)"
  "unat (CLK_YEAR + CLK_DAY) = 366 * (86400 * 4096000000)"
  by (simp_all add: CLK_SEC_def CLK_MIN_def CLK_HOUR_def CLK_DAY_def CLK_YEAR_def)

termination year_loop
proof (relation "measure (\<lambda>(_, _, tod). unat tod)")
  fix m y tod finished
  assume f: "finished = (if leap_year (if m = (1 :: int) then y else y + 1) then tod < CLK_YEAR + CLK_DAY
                      else tod < CLK_YEAR)" "\<not> finished"
  let ?l = "if m = 1 \<and> leap_year y \<or> m = 7 \<and> leap_year (y + 1) then CLK_YEAR + CLK_DAY else CLK_YEAR"
  have "unat ?l \<le> unat tod"
    using f clk_unat(5,6) by (auto simp: word_less_nat_alt split: if_splits)
  then have "unat (tod - ?l) = unat tod - unat ?l" by (simp add: unat_sub word_le_nat_alt)
  moreover have "0 < unat ?l" using clk_unat(5,6) by simp
  ultimately have "unat (tod - ?l) < unat tod" using \<open>unat ?l \<le> unat tod\<close> by linarith
  then show "((m, short (y + 1), if m = 1 \<and> leap_year y \<or> m = 7 \<and> leap_year (y + 1)
      then tod - (CLK_YEAR + CLK_DAY) else tod - CLK_YEAR), m, y, tod) \<in> measure (\<lambda>(_, _, tod). unat tod)"
    by (auto split: if_splits)
qed simp

declare year_loop.simps [simp del] month_scan.simps [simp del] day_loop.simps [simp del]

text \<open>
  The calendar: days from the first of January 1900 to the first of January of a year, and
  to the first of a month.
\<close>

definition days_to :: "int \<Rightarrow> int" where
  "days_to y = 365 * (y - 1900) + (y - 1) div 4 - (y - 1) div 100 + (y - 1) div 400 - 460"

definition year_days :: "int \<Rightarrow> int" where
  "year_days y = (if leap_year y then 366 else 365)"

definition month_start :: "int \<Rightarrow> int \<Rightarrow> int" where
  "month_start y m = days_to y + month_offset (leap_year y) (m - 1)"

definition month_days :: "int \<Rightarrow> int \<Rightarrow> int" where
  "month_days y m = (if m = 12 then 31 else month_offset (leap_year y) m - month_offset (leap_year y) (m - 1))"

lemma div_step:
  assumes k: "0 < k"
  shows "(y :: int) div k = (y - 1) div k + (if y mod k = 0 then 1 else 0)"
proof (cases "y mod k = 0")
  case True
  have "y - 1 = k * (y div k - 1) + (k - 1)" using True mult_div_mod_eq [of k y] by (simp add: algebra_simps)
  then have "(y - 1) div k = y div k - 1" by (rule int_div_pos_eq) (use k in simp_all)
  with True show ?thesis by simp
next
  case False
  with k have "0 < y mod k" "y mod k < k" using pos_mod_sign [OF k, of y] pos_mod_bound [OF k, of y] by simp_all
  moreover have "y - 1 = k * (y div k) + (y mod k - 1)" using mult_div_mod_eq [of k y] by (simp add: algebra_simps)
  then have "(y - 1) div k = y div k" by (rule int_div_pos_eq) (use calculation in simp_all)
  with False show ?thesis by simp
qed

lemma leap_count:
  assumes "a = a' + (if p then 1 else 0 :: int)" and "b = b' + (if q then 1 else 0)"
    and "c = c' + (if r then 1 else 0)" and "q \<Longrightarrow> p" and "r \<Longrightarrow> q"
  shows "a - b + c = a' - b' + c' + (if p \<and> (\<not> q \<or> r) then 1 else 0)"
  using assms by (cases p; cases q; cases r; simp)

lemma mod_0_trans:
  assumes "d dvd k" and "(y :: int) mod k = 0"
  shows "y mod d = 0"
  using mod_mod_cancel [OF assms(1), of y] by (simp only: assms(2) mod_0)

lemma leap_step:
  "y div 4 - y div 100 + y div 400
    = (y - 1) div 4 - (y - 1) div 100 + (y - 1) div 400 + (if leap_year y then 1 else (0 :: int))"
  unfolding leap_year_def
proof (intro leap_count div_step)
  show "y mod 100 = 0 \<Longrightarrow> y mod 4 = 0" by (rule mod_0_trans [of 4 100]) simp_all
  show "y mod 400 = 0 \<Longrightarrow> y mod 100 = 0" by (rule mod_0_trans [of 100 400]) simp_all
qed simp_all

lemma days_to_Suc: "days_to (y + 1) = days_to y + year_days y"
proof -
  have "days_to (y + 1) = 365 * (y - 1900) + 365 + (y div 4 - y div 100 + y div 400) - 460"
    by (simp add: days_to_def)
  also have "\<dots> = days_to y + (365 + (if leap_year y then 1 else 0))"
    using leap_step [of y] unfolding days_to_def by linarith
  finally show ?thesis by (simp add: year_days_def)
qed

lemma month_offset_simps [simp]:
  "month_offset l 0 = 0" "month_offset l 1 = 31" "month_offset False 2 = 59" "month_offset True 2 = 60"
  "month_offset False 3 = 90" "month_offset True 3 = 91" "month_offset False 4 = 120" "month_offset True 4 = 121"
  "month_offset False 5 = 151" "month_offset True 5 = 152" "month_offset False 6 = 181" "month_offset True 6 = 182"
  "month_offset False 7 = 212" "month_offset True 7 = 213" "month_offset False 8 = 243" "month_offset True 8 = 244"
  "month_offset False 9 = 273" "month_offset True 9 = 274" "month_offset False 10 = 304" "month_offset True 10 = 305"
  "month_offset False 11 = 334" "month_offset True 11 = 335"
  by (simp_all add: month_offset_def month_offsets_def nat_numeral)

definition half_len :: "int \<Rightarrow> int \<Rightarrow> int" where
  "half_len m y = year_days (if m = 1 then y else y + 1)"

lemma month_start_step:
  assumes "m = 1 \<or> m = 7"
  shows "month_start (y + 1) m = month_start y m + half_len m y"
  using assms
  by (cases "leap_year y"; cases "leap_year (y + 1)")
    (auto simp: month_start_def half_len_def days_to_Suc year_days_def)

abbreviation (input) day :: int where "day \<equiv> 86400 * 4096000000"

lemma clk_uint:
  "uint CLK_SEC = 4096000000" "uint CLK_MIN = 60 * 4096000000" "uint CLK_HOUR = 3600 * 4096000000"
  "uint CLK_DAY = day" "uint CLK_YEAR = 365 * day" "uint (CLK_YEAR + CLK_DAY) = 366 * day"
  by (simp_all add: CLK_SEC_def CLK_MIN_def CLK_HOUR_def CLK_DAY_def CLK_YEAR_def)

lemma half_len_test:
  "(if leap_year (if m = 1 then y else y + 1) then t < CLK_YEAR + CLK_DAY else t < CLK_YEAR)
     \<longleftrightarrow> uint t < half_len m y * day"
  using clk_uint(5,6) by (simp only: word_less_def half_len_def year_days_def split: if_split) simp

lemma half_len_word:
  assumes "m = 1 \<or> m = 7"
  shows "uint (if m = 1 \<and> leap_year y \<or> m = 7 \<and> leap_year (y + 1) then CLK_YEAR + CLK_DAY else CLK_YEAR)
    = half_len m y * day"
  using assms clk_uint(5,6) by (auto simp: half_len_def year_days_def)

lemma half_len_bounds: "365 \<le> half_len m y" "half_len m y \<le> 366"
  by (simp_all add: half_len_def year_days_def)

lemma uint_sub_le: "b \<le> (a :: 'a::len word) \<Longrightarrow> uint (a - b) = uint a - uint b"
  by (rule uint_sub_lem [THEN iffD1]) (simp add: word_le_def)

lemma year_loop_spec:
  assumes "m = 1 \<or> m = 7" and "1900 \<le> y" and "y + uint t div (365 * day) \<le> 30000"
  shows "\<exists>y' t'. year_loop m y t = (y', t') \<and> y \<le> y' \<and> y' \<le> 30000 \<and> uint t' < half_len m y' * day
    \<and> uint t + month_start y m * day = uint t' + month_start y' m * day"
  using assms
proof (induction m y t rule: year_loop.induct)
  case (1 m y t)
  let ?L = "if m = 1 \<and> leap_year y \<or> m = 7 \<and> leap_year (y + 1) then CLK_YEAR + CLK_DAY else CLK_YEAR"
  let ?fin = "if leap_year (if m = 1 then y else y + 1) then t < CLK_YEAR + CLK_DAY else t < CLK_YEAR"
  note test = half_len_test [of m y t] and L = half_len_word [OF 1(2), of y]
  have nonneg: "0 \<le> uint t div (365 * day)" by (intro pos_imp_zdiv_nonneg_iff [THEN iffD2]) simp_all
  show ?case
  proof (cases ?fin)
    case True
    have "year_loop m y t = (y, t)" by (subst year_loop.simps) (simp only: Let_def if_P [OF True])
    with True test 1(4) nonneg show ?thesis by auto
  next
    case False
    then have ge: "half_len m y * day \<le> uint t" using test by linarith
    then have sub: "uint (t - ?L) = uint t - half_len m y * day"
      using L by (simp only: uint_sub_le word_le_def)
    have "365 * day \<le> half_len m y * day" using half_len_bounds(1) [of m y] by simp
    then have step: "y + 1 + uint (t - ?L) div (365 * day) \<le> y + uint t div (365 * day)"
    proof -
      have "uint (t - ?L) \<le> uint t - 365 * day" using sub \<open>365 * day \<le> half_len m y * day\<close> by linarith
      then have "uint (t - ?L) div (365 * day) \<le> (uint t - 365 * day) div (365 * day)" by (intro zdiv_mono1) simp_all
      then show ?thesis by simp
    qed
    have "0 \<le> uint (t - ?L) div (365 * day)" by (intro pos_imp_zdiv_nonneg_iff [THEN iffD2]) simp_all
    then have y: "short (y + 1) = y + 1" using step 1(3,4) by (intro short_id) linarith+
    have rec: "year_loop m y t = year_loop m (y + 1) (t - ?L)"
      using False by (subst year_loop.simps) (simp only: Let_def if_not_P [OF False] if_False y if_distrib [of "\<lambda>l. t - l"])
    have "\<exists>y' t'. year_loop m (y + 1) (t - ?L) = (y', t') \<and> y + 1 \<le> y' \<and> y' \<le> 30000
        \<and> uint t' < half_len m y' * day
        \<and> uint (t - ?L) + month_start (y + 1) m * day = uint t' + month_start y' m * day"
      using 1(1) [OF refl False] 1(2-4) step y by (simp only: if_distrib [of "\<lambda>l. t - l"])
    then obtain y' t' where IH: "year_loop m (y + 1) (t - ?L) = (y', t')" "y + 1 \<le> y'" "y' \<le> 30000"
      "uint t' < half_len m y' * day"
      "uint (t - ?L) + month_start (y + 1) m * day = uint t' + month_start y' m * day" by blast
    have "uint t + month_start y m * day = uint t' + month_start y' m * day"
      using IH(5) sub month_start_step [OF 1(2), of y] by (simp add: algebra_simps)
    with IH rec show ?thesis by auto
  qed
qed


section \<open>The month and the day\<close>

lemma month_scan_spec:
  assumes "1 \<le> m" and "m \<le> 12" and "month_offset leap (m - 1) \<le> i + d"
  shows "m \<le> month_scan leap i d m \<and> month_scan leap i d m \<le> 12
    \<and> month_offset leap (month_scan leap i d m - 1) \<le> i + d
    \<and> (month_scan leap i d m < 12 \<longrightarrow> i + d < month_offset leap (month_scan leap i d m))"
  using assms
proof (induction leap i d m rule: month_scan.induct)
  case (1 leap i d m)
  show ?case
  proof (cases "m < 12 \<and> month_offset leap m \<le> i + d")
    case True
    then have "month_scan leap i d m = month_scan leap i d (m + 1)" by (subst month_scan.simps) simp
    moreover have "m + 1 \<le> month_scan leap i d (m + 1) \<and> month_scan leap i d (m + 1) \<le> 12
      \<and> month_offset leap (month_scan leap i d (m + 1) - 1) \<le> i + d
      \<and> (month_scan leap i d (m + 1) < 12 \<longrightarrow> i + d < month_offset leap (month_scan leap i d (m + 1)))"
      using 1(1) [OF True] 1(2) True by simp
    ultimately show ?thesis by simp
  next
    case False
    have "month_scan leap i d m = m" by (subst month_scan.simps) (rule if_not_P [OF False])
    with False 1(2-4) show ?thesis by auto
  qed
qed

lemma month_offset_bounds:
  assumes "0 \<le> k" and "k \<le> 11"
  shows "0 \<le> month_offset l k" and "month_offset l k \<le> (if l then 335 else 334)"
proof -
  have "k = 0 \<or> k = 1 \<or> k = 2 \<or> k = 3 \<or> k = 4 \<or> k = 5 \<or> k = 6 \<or> k = 7 \<or> k = 8 \<or> k = 9
    \<or> k = 10 \<or> k = 11" using assms by arith
  then show "0 \<le> month_offset l k" "month_offset l k \<le> (if l then 335 else 334)"
    by (cases l; elim disjE; simp)+
qed

definition valid_day :: "int \<Rightarrow> int \<Rightarrow> int \<Rightarrow> bool" where
  "valid_day y m d \<longleftrightarrow> 1 \<le> m \<and> m \<le> 12 \<and> 0 \<le> d \<and> d < month_days y m"

text \<open>One pass: the day is in month \<open>m\<close>, or counted from the last December of the year.\<close>

lemma december: "month_offset (leap_year y) 11 = year_days y - 31"
  by (cases "leap_year y") (simp_all add: year_days_def)

lemma day_pass:
  assumes "1 \<le> m" and "m \<le> 12" and "0 \<le> d" and "d \<le> 1000"
    and i: "i = month_offset (leap_year y) (m - 1)" and m': "m' = month_scan (leap_year y) i d m"
    and d': "d' = short (d + i - month_offset (leap_year y) (m' - 1))"
  shows "1 \<le> m' \<and> m' \<le> 12 \<and> 0 \<le> d' \<and> month_start y m' + d' = month_start y m + d
    \<and> (m' < 12 \<or> d' < 31 \<longrightarrow> valid_day y m' d') \<and> (m' = 12 \<longrightarrow> d' = d + i - (year_days y - 31))"
proof -
  have s: "m \<le> m'" "m' \<le> 12" "month_offset (leap_year y) (m' - 1) \<le> i + d"
    "m' < 12 \<Longrightarrow> i + d < month_offset (leap_year y) m'"
    using month_scan_spec [of m "leap_year y" i d] assms(1-3) by (auto simp: i m')
  have ib: "0 \<le> i" "i \<le> 335" using month_offset_bounds [of "m - 1" "leap_year y"] assms(1,2)
    by (auto simp: i split: if_splits)
  have o: "0 \<le> month_offset (leap_year y) (m' - 1)"
    using month_offset_bounds(1) [of "m' - 1"] s(1,2) assms(1) by simp
  have e: "d' = d + i - month_offset (leap_year y) (m' - 1)"
    unfolding d' using s(3) o ib assms(3,4) by (intro short_id) linarith+
  have "valid_day y m' d'" if "m' < 12 \<or> d' < 31"
    using that s e assms(1) by (cases "m' = 12") (auto simp: valid_day_def month_days_def)
  with s e assms(1) december [of y] show ?thesis by (auto simp: month_start_def i)
qed

lemma next_year: "month_start y 12 + 31 = month_start (y + 1) 1"
  by (simp add: month_start_def days_to_Suc december)

lemma day_loop_spec:
  assumes "m = 1 \<or> m = 7" and "0 \<le> d" and "d \<le> 365" and "- 32768 \<le> y" and "y < 32767"
  shows "\<exists>y' m' d'. day_loop y m d = Some (y', m', d') \<and> y \<le> y' \<and> y' \<le> y + 1 \<and> valid_day y' m' d'
    \<and> month_start y' m' + d' = month_start y m + d"
proof -
  define i where "i = month_offset (leap_year y) (m - 1)"
  define m1 where "m1 = month_scan (leap_year y) i d m"
  define d1 where "d1 = short (d + i - month_offset (leap_year y) (m1 - 1))"
  have p: "1 \<le> m1" "m1 \<le> 12" "0 \<le> d1" "month_start y m1 + d1 = month_start y m + d"
    "m1 < 12 \<or> d1 < 31 \<Longrightarrow> valid_day y m1 d1" "m1 = 12 \<Longrightarrow> d1 = d + i - (year_days y - 31)"
    using day_pass [OF _ _ _ _ i_def m1_def d1_def] assms by auto
  show ?thesis
  proof (cases "m1 < 12 \<or> d1 < 31")
    case True
    then have "day_loop y m d = Some (y, m1, d1)"
      by (subst day_loop.simps) (simp add: Let_def i_def [symmetric] m1_def [symmetric] d1_def [symmetric])
    with p True show ?thesis by auto
  next
    case False
    with p(2) have m1: "m1 = 12" "31 \<le> d1" by auto
    have i: "i = 0 \<or> i = 181 \<or> i = 182" using assms(1) unfolding i_def
      by (cases "leap_year y") auto
    have d2: "0 \<le> d1 - 31" "d1 - 31 \<le> 182"
      using m1 p(6) i assms(3) by (auto simp: year_days_def split: if_splits)
    then have s: "short (d1 - 31) = d1 - 31" "short (y + 1) = y + 1"
      using assms(4,5) by (auto intro!: short_id)
    define m2 where "m2 = month_scan (leap_year (y + 1)) 0 (d1 - 31) 1"
    define d3 where "d3 = short (d1 - 31 - month_offset (leap_year (y + 1)) (m2 - 1))"
    have q: "1 \<le> m2" "m2 \<le> 12" "0 \<le> d3" "month_start (y + 1) m2 + d3 = month_start (y + 1) 1 + (d1 - 31)"
      "m2 < 12 \<or> d3 < 31 \<Longrightarrow> valid_day (y + 1) m2 d3"
      "m2 = 12 \<Longrightarrow> d3 = d1 - 31 - (year_days (y + 1) - 31)"
      using day_pass [OF _ _ _ _ _ m2_def, of d3] d2 by (auto simp: d3_def)
    have "m2 < 12" using q(2,3,6) d2 by (cases "m2 = 12") (auto simp: year_days_def split: if_splits)
    then have "day_loop (y + 1) 1 (d1 - 31) = Some (y + 1, m2, d3)"
      by (subst day_loop.simps) (simp add: Let_def m2_def [symmetric] d3_def [symmetric])
    moreover have "day_loop y m d = day_loop (y + 1) 1 (d1 - 31)"
      using False s by (subst day_loop.simps) (simp add: Let_def i_def [symmetric] m1_def [symmetric] d1_def [symmetric])
    moreover have "month_start (y + 1) m2 + d3 = month_start y m + d"
      using q(4) p(4) m1 next_year [of y] by simp
    ultimately show ?thesis using q(5) \<open>m2 < 12\<close> by auto
  qed
qed


section \<open>The whole conversion\<close>

definition leap_secs_before :: "u64 \<Rightarrow> int" where
  "leap_secs_before tod = int (length (filter (\<lambda>(t, d). t \<le> tod \<and> LS_DATE2F d = LS_LS) leap_secs))"

text \<open>
  The table: entry \<open>i\<close> is the start of a first of January or July, after \<open>24 - i\<close> leap
  seconds (none for the last two entries), and the entries are decreasing.
\<close>

definition entry_ok :: "nat \<Rightarrow> bool" where
  "entry_ok i = (let (t, d) = leap_secs ! i; y = uint (LS_DATE2Y d); m = uint (LS_DATE2M d) in
     (m = 1 \<or> m = 7) \<and> 1900 \<le> y \<and> y \<le> 2009
     \<and> uint t = month_start y m * day + int (24 - i) * 4096000000
     \<and> (LS_DATE2F d = LS_LS \<longleftrightarrow> i < 24) \<and> (0 < i \<longrightarrow> uint t + 2 * 4096000000 < uint (fst (leap_secs ! (i - 1)))))"

lemma entries_ok: "list_all entry_ok [0..<26]"
  by (simp add: upt_conv_Cons entry_ok_def leap_secs_def LS_YM2DATE_def LS_DATE2Y_def LS_DATE2M_def
      LS_DATE2F_def LS_MASK_def LS_LS_def LS_NONE_def month_start_def days_to_def leap_year_def)

lemma leap_index_spec:
  "\<exists>(t, d) \<in> set es. t \<le> tod \<Longrightarrow>
     \<exists>i < length es. leap_index es tod = Ok i \<and> fst (es ! i) \<le> tod \<and> (\<forall>j < i. tod < fst (es ! j))"
proof (induction es)
  case (Cons e es)
  obtain t d where e: "e = (t, d)" by (cases e)
  show ?case
  proof (cases "t > tod")
    case True
    with Cons e obtain i where "i < length es" "leap_index es tod = Ok i" "fst (es ! i) \<le> tod"
      "\<forall>j < i. tod < fst (es ! j)" by auto
    with True e show ?thesis by (intro exI [of _ "Suc i"]) (auto simp: less_Suc_eq_0_disj)
  qed (auto simp: e)
qed simp


lemma leap_secs_length [simp]: "length leap_secs = 26"
  by (simp add: leap_secs_def)

lemma entry:
  assumes "i < 26"
  defines "t \<equiv> fst (leap_secs ! i)" and "d \<equiv> snd (leap_secs ! i)"
  shows "uint (LS_DATE2M d) = 1 \<or> uint (LS_DATE2M d) = 7" "1900 \<le> uint (LS_DATE2Y d)" "uint (LS_DATE2Y d) \<le> 2009"
    "uint t = month_start (uint (LS_DATE2Y d)) (uint (LS_DATE2M d)) * day + int (24 - i) * 4096000000"
    "LS_DATE2F d = LS_LS \<longleftrightarrow> i < 24" "0 < i \<Longrightarrow> uint t + 2 * 4096000000 < uint (fst (leap_secs ! (i - 1)))"
proof -
  obtain t' d' where e: "leap_secs ! i = (t', d')" by (cases "leap_secs ! i")
  have "entry_ok i" using entries_ok assms(1) by (simp add: list_all_iff)
  then have "(uint (LS_DATE2M d) = 1 \<or> uint (LS_DATE2M d) = 7) \<and> 1900 \<le> uint (LS_DATE2Y d) \<and> uint (LS_DATE2Y d) \<le> 2009
    \<and> uint t = month_start (uint (LS_DATE2Y d)) (uint (LS_DATE2M d)) * day + int (24 - i) * 4096000000
    \<and> (LS_DATE2F d = LS_LS \<longleftrightarrow> i < 24) \<and> (0 < i \<longrightarrow> uint t + 2 * 4096000000 < uint (fst (leap_secs ! (i - 1))))"
    unfolding entry_ok_def Let_def e t_def d_def prod.case fst_conv snd_conv .
  then show "uint (LS_DATE2M d) = 1 \<or> uint (LS_DATE2M d) = 7" "1900 \<le> uint (LS_DATE2Y d)" "uint (LS_DATE2Y d) \<le> 2009"
    "uint t = month_start (uint (LS_DATE2Y d)) (uint (LS_DATE2M d)) * day + int (24 - i) * 4096000000"
    "LS_DATE2F d = LS_LS \<longleftrightarrow> i < 24" "0 < i \<Longrightarrow> uint t + 2 * 4096000000 < uint (fst (leap_secs ! (i - 1)))"
    by blast+
qed

lemma entries_decrease: "i \<le> j \<Longrightarrow> j < 26 \<Longrightarrow> uint (fst (leap_secs ! j)) \<le> uint (fst (leap_secs ! i))"
proof (induction j rule: dec_induct)
  case (step n)
  with entry(6) [of "Suc n"] show ?case by simp
qed simp

lemma last_entry: "leap_secs ! 25 = (0, LS_YM2DATE 1900 1 LS_NONE)"
  by (simp add: leap_secs_def)

lemma leap_index_leap_secs:
  obtains i where "i < 26" "leap_index leap_secs tod = Ok i" "uint (fst (leap_secs ! i)) \<le> uint tod"
    "\<And>j. j < i \<Longrightarrow> uint tod < uint (fst (leap_secs ! j))"
proof -
  have "leap_secs ! 25 \<in> set leap_secs" by (rule nth_mem) simp
  then have "\<exists>(t, d) \<in> set leap_secs. t \<le> tod" by (auto simp: last_entry intro: bexI [rotated])
  from leap_index_spec [OF this] that show thesis by (auto simp: word_le_def word_less_def)
qed

lemma leap_secs_before_eq:
  assumes "i < 26" and "uint (fst (leap_secs ! i)) \<le> uint tod"
    and "\<And>j. j < i \<Longrightarrow> uint tod < uint (fst (leap_secs ! j))"
  shows "leap_secs_before tod = int (24 - i)"
proof -
  have "{k. k < 26 \<and> (case leap_secs ! k of (t, d) \<Rightarrow> t \<le> tod \<and> LS_DATE2F d = LS_LS)} = {i..<24}"
  proof (intro set_eqI iffI)
    fix k assume "k \<in> {k. k < 26 \<and> (case leap_secs ! k of (t, d) \<Rightarrow> t \<le> tod \<and> LS_DATE2F d = LS_LS)}"
    then have "k < 26" "uint (fst (leap_secs ! k)) \<le> uint tod" "LS_DATE2F (snd (leap_secs ! k)) = LS_LS"
      by (auto simp: split_beta word_le_def)
    with assms(3) [of k] entry(5) [of k] show "k \<in> {i..<24}" by (meson atLeastLessThan_iff not_le)
  next
    fix k assume "k \<in> {i..<24}"
    with assms(2) entries_decrease [of i k] entry(5) [of k]
    show "k \<in> {k. k < 26 \<and> (case leap_secs ! k of (t, d) \<Rightarrow> t \<le> tod \<and> LS_DATE2F d = LS_LS)}"
      by (simp add: split_beta word_le_def)
  qed
  then show ?thesis by (simp add: leap_secs_before_def length_filter_conv_card)
qed

text \<open>Whether the second before the next entry is running, by the two searches of the code.\<close>

lemma leap_search:
  assumes "i < 26" "uint (fst (leap_secs ! i)) \<le> uint tod" "\<And>k. k < i \<Longrightarrow> uint tod < uint (fst (leap_secs ! k))"
    and j: "j < 26" "uint (fst (leap_secs ! j)) \<le> uint (tod + CLK_SEC)"
      "\<And>k. k < j \<Longrightarrow> uint (tod + CLK_SEC) < uint (fst (leap_secs ! k))"
    and leap: "i \<noteq> j" "LS_DATE2F (snd (leap_secs ! j)) = LS_LS"
  shows "Suc j = i \<and> j < 24 \<and> uint tod < uint (fst (leap_secs ! j)) \<and> uint (fst (leap_secs ! j)) - 4096000000 \<le> uint tod"
proof -
  have j24: "j < 24" using leap entry(5) [OF j(1)] by simp
  have le: "uint (tod + CLK_SEC) \<le> uint tod + 4096000000"
    using uint_add_le [of tod CLK_SEC] by (simp add: clk_uint)
  have no_wrap: "uint (tod + CLK_SEC) = uint tod + 4096000000"
  proof (rule ccontr)
    assume "uint (tod + CLK_SEC) \<noteq> uint tod + 4096000000"
    then have "uint (tod + CLK_SEC) < 4096000000"
      using clk_uint(1) uint_lt2p [of tod] uint_ge_0 [of tod] uint_plus_if' [of tod CLK_SEC]
      by (auto split: if_splits)
    moreover have "uint (fst (leap_secs ! 24)) \<le> uint (fst (leap_secs ! j))" using entries_decrease [of j 24] j24 by simp
    moreover have "4096000000 < uint (fst (leap_secs ! 24))" by (simp add: leap_secs_def)
    ultimately show False using j(2) by linarith
  qed
  have "j \<le> i"
  proof (rule ccontr)
    assume "\<not> j \<le> i"
    with j(3) [of i] assms(2) no_wrap show False by simp
  qed
  with leap(1) have "j < i" by simp
  moreover have "\<not> Suc j < i"
  proof
    assume "Suc j < i"
    with assms(3) [of "Suc j"] entry(6) [of "Suc j"] assms(1) j(2) no_wrap show False by simp
  qed
  ultimately show ?thesis using assms(3) [of j] j(2) j24 no_wrap by auto
qed


text \<open>The part of a day, split into hours, minutes, seconds and microseconds.\<close>

lemma word_rest: "t - word_of_int (uint (t div k)) * k = (t mod k :: u64)"
  by (simp add: minus_div_mult_eq_mod)

lemma time_split:
  fixes r :: int
  assumes "0 \<le> r" and "r < day"
  defines "h \<equiv> r div (3600 * 4096000000)" and "r2 \<equiv> r mod (3600 * 4096000000)"
  defines "m \<equiv> r2 div (60 * 4096000000)" and "r3 \<equiv> r2 mod (60 * 4096000000)"
  defines "s \<equiv> r3 div 4096000000" and "r4 \<equiv> r3 mod 4096000000"
  shows "0 \<le> h \<and> h \<le> 23 \<and> 0 \<le> m \<and> m \<le> 59 \<and> 0 \<le> s \<and> s \<le> 59
    \<and> 0 \<le> r4 div 4096 \<and> r4 div 4096 < 1000000
    \<and> r = h * (3600 * 4096000000) + m * (60 * 4096000000) + s * 4096000000 + r4 div 4096 * 4096 + r mod 4096
    \<and> (day - 4096000000 \<le> r \<longrightarrow> h = 23 \<and> m = 59 \<and> s = 59)"
proof -
  have h: "r = h * (3600 * 4096000000) + r2" "0 \<le> r2" "r2 < 3600 * 4096000000"
    unfolding h_def r2_def by simp_all
  have m: "r2 = m * (60 * 4096000000) + r3" "0 \<le> r3" "r3 < 60 * 4096000000"
    unfolding m_def r3_def by simp_all
  have s: "r3 = s * 4096000000 + r4" "0 \<le> r4" "r4 < 4096000000"
    unfolding s_def r4_def by simp_all
  have q: "r4 = r4 div 4096 * 4096 + r4 mod 4096" "0 \<le> r4 mod 4096" "r4 mod 4096 < 4096" by simp_all
  have "r = (h * 3600000000 + m * 60000000 + s * 1000000) * 4096 + r4" using h m s by simp
  then have "r mod 4096 = r4 mod 4096" by (simp only: mod_mult_self3)
  note rem = this
  have hb: "0 \<le> h" "0 \<le> m" "0 \<le> s" unfolding h_def m_def s_def
    using assms(1) h(2) m(2) by (simp_all add: pos_imp_zdiv_nonneg_iff)
  have h23: "h \<le> 23" using h assms(2) by linarith
  have m59: "m \<le> 59" using m h by linarith
  have s59: "s \<le> 59" using s m by linarith
  have r4: "0 \<le> r4 div 4096" "r4 div 4096 < 1000000" using s q by linarith+
  have "h = 23 \<and> m = 59 \<and> s = 59" if "day - 4096000000 \<le> r"
  proof -
    have "h = 23" using that h h23 by linarith
    moreover from this have "m = 59" using that h m m59 by linarith
    moreover from this \<open>h = 23\<close> have "s = 59" using that h m s s59 by linarith
    ultimately show ?thesis by simp
  qed
  moreover have "r = h * (3600 * 4096000000) + m * (60 * 4096000000) + s * 4096000000 + r4 div 4096 * 4096 + r mod 4096"
    using h(1) m(1) s(1) q(1) rem by linarith
  ultimately show ?thesis using hb h23 m59 s59 r4 by blast
qed

lemma neg_le_uint [simp]: "n \<le> 0 \<Longrightarrow> n \<le> uint x"
  by (rule order_trans [OF _ uint_ge_0])

lemma short_uint_small: "uint (x :: u64) < 32768 \<Longrightarrow> short (uint x) = uint x"
  by (rule short_id) (simp_all add: order_trans [of _ 0])

lemma tmicro_uint: "uint (r :: u64) div 4096 < 1000000 \<Longrightarrow> uint (ucast (drop_bit 12 r) :: u32) = uint r div 4096"
proof -
  assume small: "uint r div 4096 < 1000000"
  have "uint (drop_bit 12 r) = uint r div 4096" by (simp add: drop_bit_eq_div uint_div)
  moreover have "0 \<le> uint r div 4096" by (simp add: pos_imp_zdiv_nonneg_iff)
  ultimately show ?thesis using small by (simp only: unsigned_ucast_eq) (simp add: take_bit_int_eq_self)
qed

lemma month_days_le: "1 \<le> m \<Longrightarrow> m \<le> 12 \<Longrightarrow> month_days y m \<le> 31"
proof -
  assume "1 \<le> m" "m \<le> 12"
  then have "m = 1 \<or> m = 2 \<or> m = 3 \<or> m = 4 \<or> m = 5 \<or> m = 6 \<or> m = 7 \<or> m = 8 \<or> m = 9 \<or> m = 10
    \<or> m = 11 \<or> m = 12" by arith
  then show ?thesis by (cases "leap_year y"; elim disjE; simp add: month_days_def)
qed

text \<open>
  What the tail of \<^verbatim>\<open>parse_tod\<close> makes of the year and the remainder the year loop leaves.
\<close>

definition tod_tail :: "int \<Rightarrow> int \<Rightarrow> u64 \<Rightarrow> int \<Rightarrow> datetime option" where
  "tod_tail m y t add_sec =
     (let d = short (uint (t div CLK_DAY));
          t = t - word_of_int d * CLK_DAY
      in (case day_loop y m d of
            None \<Rightarrow> None
          | Some (y, m, d) \<Rightarrow>
              let d = short (d + 1);
                  hour = short (uint (t div CLK_HOUR));
                  t = t - word_of_int hour * CLK_HOUR;
                  min = short (uint (t div CLK_MIN));
                  t = t - word_of_int min * CLK_MIN;
                  sec = short (uint (t div CLK_SEC));
                  t = t - word_of_int sec * CLK_SEC
              in Some \<lparr>dy = y, dm = m, dd = d, th = hour, tm = min,
                       ts = short (sec + add_sec), tmicro = ucast (drop_bit 12 t)\<rparr>))"

definition date_ok :: "datetime \<Rightarrow> bool" where
  "date_ok dt \<longleftrightarrow> 1 \<le> dm dt \<and> dm dt \<le> 12 \<and> 1 \<le> dd dt \<and> dd dt \<le> month_days (dy dt) (dm dt)
     \<and> 0 \<le> th dt \<and> th dt \<le> 23 \<and> 0 \<le> tm dt \<and> tm dt \<le> 59 \<and> 0 \<le> ts dt \<and> ts dt \<le> 60
     \<and> uint (tmicro dt) < 1000000"

definition date_value :: "datetime \<Rightarrow> int" where
  "date_value dt = (month_start (dy dt) (dm dt) + (dd dt - 1)) * day + th dt * (3600 * 4096000000)
     + tm dt * (60 * 4096000000) + ts dt * 4096000000 + uint (tmicro dt) * 4096"

lemma tod_tail_spec:
  assumes "m = 1 \<or> m = 7" and "1900 \<le> y" "y \<le> 30000" and "uint t < half_len m y * day"
    and "add_sec \<in> {0, 1}"
  shows "\<exists>dt. tod_tail m y t add_sec = Some dt \<and> date_ok dt
    \<and> date_value dt + uint t mod 4096 = month_start y m * day + uint t + add_sec * 4096000000
    \<and> (day - 4096000000 \<le> uint t mod day \<longrightarrow> th dt = 23 \<and> tm dt = 59 \<and> ts dt = 59 + add_sec)
    \<and> ts dt \<le> 59 + add_sec"
proof -
  let ?r = "t mod CLK_DAY" and ?r2 = "t mod CLK_DAY mod CLK_HOUR"
  let ?r3 = "t mod CLK_DAY mod CLK_HOUR mod CLK_MIN"
  have u: "uint (t div CLK_DAY) = uint t div day" "uint ?r = uint t mod day"
    "uint (?r div CLK_HOUR) = uint ?r div (3600 * 4096000000)" "uint ?r2 = uint ?r mod (3600 * 4096000000)"
    "uint (?r2 div CLK_MIN) = uint ?r2 div (60 * 4096000000)" "uint ?r3 = uint ?r2 mod (60 * 4096000000)"
    "uint (?r3 div CLK_SEC) = uint ?r3 div 4096000000" "uint (?r3 mod CLK_SEC) = uint ?r3 mod 4096000000"
    by (simp_all only: uint_div uint_mod clk_uint)
  have d: "0 \<le> uint t div day" "uint t div day \<le> 365"
    using assms(4) half_len_bounds(2) [of m y] uint_ge_0 [of t]
    by (simp_all add: pos_imp_zdiv_nonneg_iff)
  have "0 \<le> uint ?r" "uint ?r < day" using u(2) by simp_all
  note sp = time_split [OF this, folded u(3,4), folded u(5,6), folded u(7,8)]
  obtain y' m' d' where l: "day_loop y m (uint t div day) = Some (y', m', d')" "valid_day y' m' d'"
    "month_start y' m' + d' = month_start y m + uint t div day"
    using day_loop_spec [OF assms(1) d, of y] assms(2,3) by auto
  have d'31: "d' < 31"
    using l(2) month_days_le [of m' y'] by (simp add: valid_day_def)
  define dt where "dt = \<lparr>dy = y', dm = m', dd = d' + 1, th = uint (?r div CLK_HOUR),
    tm = uint (?r2 div CLK_MIN), ts = uint (?r3 div CLK_SEC) + add_sec, tmicro = ucast (drop_bit 12 (?r3 mod CLK_SEC))\<rparr>"
  have "short (d' + 1) = d' + 1" "short (uint t div day) = uint t div day"
    "short (uint (?r3 div CLK_SEC) + add_sec) = uint (?r3 div CLK_SEC) + add_sec"
    using l(2) d'31 d sp assms(5) by (auto intro!: short_id simp: valid_day_def)
  note sh = this
  have "short (uint (?r div CLK_HOUR)) = uint (?r div CLK_HOUR)"
    "short (uint (?r2 div CLK_MIN)) = uint (?r2 div CLK_MIN)" "short (uint (?r3 div CLK_SEC)) = uint (?r3 div CLK_SEC)"
    using sp by (auto intro!: short_uint_small)
  then have "tod_tail m y t add_sec = Some dt"
    unfolding dt_def by (simp only: tod_tail_def Let_def word_rest u(1) l(1) sh option.case prod.case
        word_rest [of t CLK_DAY, unfolded u(1)])
  moreover have "uint (tmicro dt) = uint (?r3 mod CLK_SEC) div 4096"
    unfolding dt_def using sp by (simp add: tmicro_uint)
  ultimately have dt: "tod_tail m y t add_sec = Some dt" "uint (tmicro dt) = uint (?r3 mod CLK_SEC) div 4096" by blast+
  have "uint t mod 4096 = uint ?r mod 4096" unfolding u(2) by (rule mod_mod_cancel [symmetric]) simp
  moreover have "uint t = uint t div day * day + uint ?r" unfolding u(2) by simp
  ultimately have "date_value dt + uint t mod 4096 = month_start y m * day + uint t + add_sec * 4096000000"
    using sp l(3) unfolding date_value_def dt(2) by (simp add: dt_def)
  moreover have "date_ok dt"
    using l(2) sp assms(5) dt(2) unfolding date_ok_def by (auto simp: dt_def valid_day_def)
  moreover have "day - 4096000000 \<le> uint t mod day \<longrightarrow> th dt = 23 \<and> tm dt = 59 \<and> ts dt = 59 + add_sec"
    using sp u(2) by (simp add: dt_def)
  moreover have "ts dt \<le> 59 + add_sec" using sp by (simp add: dt_def)
  ultimately show ?thesis using dt(1) by blast
qed


section \<open>Properties\<close>

lemma parse_tod_tail:
  assumes i: "leap_index leap_secs tod = Ok i" and j: "leap_index leap_secs (tod + CLK_SEC) = Ok j"
  defines "y \<equiv> uint (LS_DATE2Y (snd (leap_secs ! i)))" and "m \<equiv> uint (LS_DATE2M (snd (leap_secs ! i)))"
  defines "lp \<equiv> i \<noteq> j \<and> LS_DATE2F (snd (leap_secs ! j)) = LS_LS"
  assumes m: "m = 1 \<or> m = 7" and y: "y \<le> 2009" "1900 \<le> y"
    and loop: "year_loop m y (tod - fst (leap_secs ! i) - (if lp then CLK_SEC else 0)) = (y', t')"
    and tail: "tod_tail m y' t' (if lp then 1 else 0) = Some dt"
  shows "parse_tod tod = Ok (Some dt)"
proof -
  have s: "short m = m" "short y = y" using m y by (auto intro!: short_id)
  have l: "(if lp then tod - fst (leap_secs ! i) - CLK_SEC else tod - fst (leap_secs ! i))
      = tod - fst (leap_secs ! i) - (if lp then CLK_SEC else 0)" by simp
  have "\<not> (m \<noteq> 1 \<and> m \<noteq> 7)" using m by simp
  note n = if_not_P [OF this]
  have "parse_tod tod = Ok (tod_tail m y' t' (if lp then 1 else 0))"
    unfolding parse_tod_def i j bindR_simps y_def [symmetric] m_def [symmetric] lp_def [symmetric] Let_def s n l loop
      tod_tail_def prod.case
    by (simp split: option.split prod.split)
  with tail show ?thesis by simp
qed

text \<open>
  (C25) \<^verbatim>\<open>parse_tod\<close> returns a date for every clock value, and the date is right: with
  the leap seconds before it added, it is the value of the clock, down to the microsecond, in the
  Gregorian calendar counted from 1900.  Its fields are in range; the second is 60 only in a
  leap second of the table.
\<close>

theorem parse_tod_correct:
  "\<exists>dt. parse_tod tod = Ok (Some dt) \<and> date_ok dt
    \<and> uint tod = date_value dt + leap_secs_before tod * 4096000000 + uint tod mod 4096
    \<and> (ts dt = 60 \<longrightarrow> th dt = 23 \<and> tm dt = 59
         \<and> (\<exists>(t, d) \<in> set leap_secs. uint t - 4096000000 \<le> uint tod \<and> uint tod < uint t))"
proof -
  obtain i where i: "i < 26" "leap_index leap_secs tod = Ok i" "uint (fst (leap_secs ! i)) \<le> uint tod"
    "\<And>j. j < i \<Longrightarrow> uint tod < uint (fst (leap_secs ! j))"
    using leap_index_leap_secs [of tod] by metis
  obtain j where j: "j < 26" "leap_index leap_secs (tod + CLK_SEC) = Ok j"
    "uint (fst (leap_secs ! j)) \<le> uint (tod + CLK_SEC)"
    "\<And>k. k < j \<Longrightarrow> uint (tod + CLK_SEC) < uint (fst (leap_secs ! k))"
    using leap_index_leap_secs [of "tod + CLK_SEC"] by metis
  define e where "e = fst (leap_secs ! i)"
  define y where "y = uint (LS_DATE2Y (snd (leap_secs ! i)))"
  define m where "m = uint (LS_DATE2M (snd (leap_secs ! i)))"
  define lp where "lp \<longleftrightarrow> i \<noteq> j \<and> LS_DATE2F (snd (leap_secs ! j)) = LS_LS"
  define add :: int where "add = (if lp then 1 else 0)"
  define t where "t = tod - e - (if lp then CLK_SEC else 0)"
  note en = entry [OF i(1), folded e_def y_def m_def]
  have lp: "Suc j = i" "j < 24" "uint tod < uint (fst (leap_secs ! j))"
    "uint (fst (leap_secs ! j)) - 4096000000 \<le> uint tod" if lp
    using leap_search [OF i(1,3,4) j(1,3,4)] that by (auto simp: lp_def)
  have te: "uint (tod - e) = uint tod - uint e" using i(3) by (simp add: uint_sub_le word_le_def e_def)
  have t: "uint t = uint tod - uint e - add * 4096000000"
  proof (cases lp)
    case True
    have "uint e + 2 * 4096000000 < uint (fst (leap_secs ! j))" using en(6) lp(1) [OF True] by auto
    then have "CLK_SEC \<le> tod - e" using lp(4) [OF True] te by (simp add: word_le_def clk_uint)
    then show ?thesis using True te by (simp add: t_def add_def uint_sub_le clk_uint)
  qed (simp add: t_def add_def te)
  have "uint t div (365 * day) \<le> 2 ^ 64 div (365 * day)" using uint_lt2p [of t] by (intro zdiv_mono1) simp_all
  then have "y + uint t div (365 * day) \<le> 30000" using en(3) by simp
  from year_loop_spec [OF en(1,2) this] obtain y' t' where yl: "year_loop m y t = (y', t')" "y \<le> y'" "y' \<le> 30000"
    "uint t' < half_len m y' * day" "uint t + month_start y m * day = uint t' + month_start y' m * day" by auto
  obtain dt where dt: "tod_tail m y' t' add = Some dt" "date_ok dt"
    "date_value dt + uint t' mod 4096 = month_start y' m * day + uint t' + add * 4096000000"
    "day - 4096000000 \<le> uint t' mod day \<Longrightarrow> th dt = 23 \<and> tm dt = 59 \<and> ts dt = 59 + add" "ts dt \<le> 59 + add"
  proof -
    have "add \<in> {0, 1}" "1900 \<le> y'" using yl(2) en(2) by (simp_all add: add_def)
    from tod_tail_spec [OF en(1) this(2) yl(3,4) this(1)] that show thesis by blast
  qed
  have "parse_tod tod = Ok (Some dt)"
    by (rule parse_tod_tail [OF i(2) j(2)])
      (use en(1-3) yl(1) dt(1) in \<open>simp_all only: y_def [symmetric] m_def [symmetric] e_def [symmetric]
         lp_def [symmetric] t_def [symmetric] add_def [symmetric]\<close>)
  moreover have "date_value dt + uint t' mod 4096 = uint tod - int (24 - i) * 4096000000"
    using dt(3) yl(5) t en(4) by simp
  moreover have "uint t' mod 4096 = uint tod mod 4096"
  proof -
    have "uint tod = uint t' + ((month_start y' m) * (day div 4096) + int (24 - i) * 1000000 + add * 1000000) * 4096"
      using yl(5) t en(4) by simp
    then show ?thesis by (metis mod_mult_self1)
  qed
  moreover have "ts dt = 60 \<Longrightarrow> th dt = 23 \<and> tm dt = 59
         \<and> (\<exists>(t, d) \<in> set leap_secs. uint t - 4096000000 \<le> uint tod \<and> uint tod < uint t)"
  proof -
    assume "ts dt = 60"
    then have l: lp and add: "add = 1" using dt(5) by (auto simp: add_def split: if_splits)
    note J = lp(1-4) [OF l]
    obtain M where M: "uint (fst (leap_secs ! j)) = M * day + int (24 - j) * 4096000000"
      using entry(4) [OF j(1)] by blast
    have n: "int (24 - j) = int (24 - i) + 1" using J(1,2) by simp
    let ?q = "M - month_start y' m - 1" and ?r = "uint t' - day * (M - month_start y' m - 1)"
    have "uint t' + month_start y' m * day = uint tod - (int (24 - i) + 1) * 4096000000"
      using yl(5) t en(4) add by simp
    then have "0 \<le> ?r" "?r < day" "day - 4096000000 \<le> ?r" using J(3,4) M n by (simp_all add: algebra_simps)
    then have "day - 4096000000 \<le> uint t' mod day"
      using int_mod_pos_eq [of "uint t'" day ?q ?r] by simp
    then have "th dt = 23 \<and> tm dt = 59" using dt(4) by blast
    moreover have "leap_secs ! j \<in> set leap_secs" using j(1) by (intro nth_mem) simp
    ultimately show ?thesis using J(3,4) by (intro conjI bexI [of _ "leap_secs ! j"]) (auto simp: split_beta)
  qed
  ultimately show ?thesis using dt(2) leap_secs_before_eq [OF i(1,3,4)] by auto
qed


theorem parse_tod_correct_witness: "\<exists>dt. parse_tod 0 = Ok (Some dt) \<and> date_ok dt \<and> date_value dt = 0"
proof -
  have "leap_secs_before 0 = 0"
    by (simp add: leap_secs_before_def leap_secs_def LS_YM2DATE_def LS_DATE2F_def LS_MASK_def LS_LS_def LS_NONE_def)
  with parse_tod_correct [of 0] show ?thesis by auto
qed

end
