(* ===== verification/Vsprintf.thy ===== *)
theory Vsprintf
  imports Cstring
begin

text \<open>
  Formatted output: \<^verbatim>\<open>src/lib/vsprintf.c\<close>.  The position \<^verbatim>\<open>str\<close> is kept as its
  distance from \<^verbatim>\<open>buf\<close>, and \<^verbatim>\<open>end\<close> as the number of bytes that may be written;
  \<open>cells\<close> is the storage from \<^verbatim>\<open>buf\<close> on.  The argument list is a list of 64-bit slots,
  as the calling convention has it; a string argument is an address, looked up in \<open>mem\<close>.  The
  stores of \<^verbatim>\<open>%n\<close> are collected.  Widths are unbounded integers: their overflow is
  undefined in the source.
\<close>

record out =
  pos :: nat
  cells :: "u8 list"

text \<open>\<^verbatim>\<open>if (buf < end) *buf = c; ++buf\<close>, once and for a run of characters.\<close>

definition putc :: "nat \<Rightarrow> u8 \<Rightarrow> out \<Rightarrow> out" where
  "putc lim c st =
     (let st' = (if pos st < lim then st\<lparr>cells := (cells st)[pos st := c]\<rparr> else st)
      in st'\<lparr>pos := pos st + 1\<rparr>)"

fun puts :: "nat \<Rightarrow> u8 list \<Rightarrow> out \<Rightarrow> out" where
  "puts lim [] st = st"
| "puts lim (c # cs) st = puts lim cs (putc lim c st)"

definition ZEROPAD :: u32 where "ZEROPAD = 1"
definition SIGN :: u32 where "SIGN = 2"
definition PLUS :: u32 where "PLUS = 4"
definition SPACE :: u32 where "SPACE = 8"
definition LEFT :: u32 where "LEFT = 16"
definition SPECIAL :: u32 where "SPECIAL = 32"
definition LARGE :: u32 where "LARGE = 64"

definition flag :: "u32 \<Rightarrow> u32 \<Rightarrow> bool" where
  "flag type m \<longleftrightarrow> type AND m \<noteq> 0"

definition ascii :: "string \<Rightarrow> u8 list" where
  "ascii s = map (\<lambda>c. of_nat (of_char c)) s"

definition small_digits :: "u8 list" where
  "small_digits = ascii ''0123456789abcdefghijklmnopqrstuvwxyz''"

definition large_digits :: "u8 list" where
  "large_digits = ascii ''0123456789ABCDEFGHIJKLMNOPQRSTUVWXYZ''"

section \<open>One number\<close>

text \<open>The loop that fills \<^verbatim>\<open>tmp\<close>, least significant digit first; it runs for a base of at least 2.\<close>

function tmp_digits :: "u8 list \<Rightarrow> u64 \<Rightarrow> u64 \<Rightarrow> u8 list" where
  "tmp_digits digits num base =
     (if num = 0 \<or> base < 2 then []
      else digits ! unat (num mod base) # tmp_digits digits (num div base) base)"
  by pat_completeness auto
termination
proof (relation "measure (\<lambda>(_, num, _). unat num)")
  fix digits :: "u8 list" and num base :: u64
  assume "\<not> (num = 0 \<or> base < 2)"
  then have "0 < unat num" "1 < unat base" by (auto simp: unat_gt_0 word_less_nat_alt)
  then show "((digits, num div base, base), digits, num, base) \<in> measure (\<lambda>(_, num, _). unat num)"
    by (simp add: unat_div)
qed simp

declare tmp_digits.simps [simp del]

text \<open>
  The tail of \<^verbatim>\<open>number\<close>, from the padding on: \<open>sz\<close> is what is left of the width
  after the sign, the prefix and the digits; \<^verbatim>\<open>while (size-- > 0)\<close> leaves it negative.
\<close>

definition number_emit :: "nat \<Rightarrow> u8 list \<Rightarrow> u8 \<Rightarrow> u8 \<Rightarrow> nat \<Rightarrow> int \<Rightarrow> int \<Rightarrow> u32 \<Rightarrow> u8 list \<Rightarrow> out \<Rightarrow> out" where
  "number_emit lim digits c sign base sz precision type tmp st =
     (let (st, sz) =
            (if \<not> flag type (ZEROPAD OR LEFT)
             then (puts lim (replicate (nat sz) 32) st, min sz 0 - 1) else (st, sz));
          st = (if sign \<noteq> 0 then putc lim sign st else st);
          st = (if flag type SPECIAL
                then (if base = 8 then putc lim 48 st
                      else if base = 16 then putc lim (digits ! 33) (putc lim 48 st) else st)
                else st);
          (st, sz) =
            (if \<not> flag type LEFT
             then (puts lim (replicate (nat sz) c) st, min sz 0 - 1) else (st, sz));
          st = puts lim (replicate (nat (precision - int (length tmp))) 48) st;
          st = puts lim (rev tmp) st
      in puts lim (replicate (nat sz) 32) st)"

definition number :: "nat \<Rightarrow> u64 \<Rightarrow> nat \<Rightarrow> int \<Rightarrow> int \<Rightarrow> u32 \<Rightarrow> out \<Rightarrow> out option" where
  "number lim num base sz precision type st =
     (let digits = (if flag type LARGE then large_digits else small_digits);
          type = (if flag type LEFT then type AND NOT ZEROPAD else type)
      in if base < 2 \<or> base > 36 then None
         else
           let c = (if flag type ZEROPAD then 48 else 32);
               negative = (flag type SIGN \<and> sint num < 0);
               sign = (if negative then 45
                       else if flag type SIGN \<and> flag type PLUS then 43
                       else if flag type SIGN \<and> flag type SPACE then 32 else 0);
               num = (if negative then - num else num);
               sz = (if sign \<noteq> 0 then sz - 1 else sz);
               sz = (if flag type SPECIAL
                       then (if base = 16 then sz - 2 else if base = 8 then sz - 1 else sz)
                       else sz);
               tmp = (if num = 0 then [48] else tmp_digits digits num (of_nat base));
               precision = (if int (length tmp) > precision then int (length tmp) else precision)
           in Some (number_emit lim digits c sign base (sz - precision) precision type tmp st))"

section \<open>The format string\<close>

fun skip_atoi :: "u8 list \<Rightarrow> u32 \<Rightarrow> (u32 \<times> u8 list) result" where
  "skip_atoi [] i = Stop OutOfBounds"
| "skip_atoi (c # s) i =
     (if isdigit c then skip_atoi s (i * 10 + ucast c - 48) else Ok (i, c # s))"

fun flag_chars :: "u8 list \<Rightarrow> u32 \<Rightarrow> (u32 \<times> u8 list) result" where
  "flag_chars [] flags = Stop OutOfBounds"
| "flag_chars (c # s) flags =
     (if c = 45 then flag_chars s (flags OR LEFT)
      else if c = 43 then flag_chars s (flags OR PLUS)
      else if c = 32 then flag_chars s (flags OR SPACE)
      else if c = 35 then flag_chars s (flags OR SPECIAL)
      else if c = 48 then flag_chars s (flags OR ZEROPAD)
      else Ok (flags, c # s))"

definition va_arg :: "u64 list \<Rightarrow> (u64 \<times> u64 list) result" where
  "va_arg args = (case args of [] \<Rightarrow> Stop BadPointer | a # as \<Rightarrow> Ok (a, as))"

text \<open>An \<^verbatim>\<open>int\<close> argument is the low half of its slot.\<close>

definition as_int :: "u64 \<Rightarrow> int" where
  "as_int a = sint (ucast a :: u32)"

definition field_width_of :: "u8 list \<Rightarrow> u64 list \<Rightarrow> u32 \<Rightarrow> (int \<times> u32 \<times> u8 list \<times> u64 list) result" where
  "field_width_of fmt args flags =
     bindR (peek fmt 0) (\<lambda>c.
       if isdigit c then bindR (skip_atoi fmt 0) (\<lambda>(i, fmt). Ok (sint i, flags, fmt, args))
       else if c = 42 then
         bindR (va_arg args) (\<lambda>(a, args).
           let w = as_int a in
           if w < 0 then Ok (- w, flags OR LEFT, tl fmt, args) else Ok (w, flags, tl fmt, args))
       else Ok (- 1, flags, fmt, args))"

definition precision_of :: "u8 list \<Rightarrow> u64 list \<Rightarrow> (int \<times> u8 list \<times> u64 list) result" where
  "precision_of fmt args =
     bindR (peek fmt 0) (\<lambda>c.
       if c \<noteq> 46 then Ok (- 1, fmt, args)
       else
         let fmt = tl fmt in
         bindR (peek fmt 0) (\<lambda>c.
         bindR (if isdigit c then bindR (skip_atoi fmt 0) (\<lambda>(i, fmt). Ok (sint i, fmt, args))
                else if c = 42 then bindR (va_arg args) (\<lambda>(a, args). Ok (as_int a, tl fmt, args))
                else Ok (- 1, fmt, args))
           (\<lambda>(p, fmt, args). Ok (if p < 0 then 0 else p, fmt, args))))"

definition qualifier_of :: "u8 list \<Rightarrow> (u8 option \<times> u8 list) result" where
  "qualifier_of fmt =
     bindR (peek fmt 0) (\<lambda>c.
       if c \<in> set (ascii ''hlLZzt'') then
         let fmt = tl fmt in
         bindR (peek fmt 0) (\<lambda>d.
           if c = 108 \<and> d = 108 then Ok (Some 76, tl fmt) else Ok (Some c, fmt))
       else Ok (None, fmt))"

text \<open>The value of an integer conversion, by the qualifier and the sign flag.\<close>

definition int_arg :: "u8 option \<Rightarrow> u32 \<Rightarrow> u64 \<Rightarrow> u64" where
  "int_arg qualifier flags a =
     (if qualifier \<in> {Some 76, Some 108, Some 90, Some 122, Some 116} then a
      else if qualifier = Some 104
      then (let n = ucast a :: u16 in if flag flags SIGN then scast n else ucast n)
      else (let n = ucast a :: u32 in if flag flags SIGN then scast n else ucast n))"

section \<open>vsnprintf\<close>

record fmt_state =
  fout :: out
  fargs :: "u64 list"
  stores :: "(u64 \<times> nat \<times> u64) list"

definition emit :: "nat \<Rightarrow> u8 list \<Rightarrow> fmt_state \<Rightarrow> fmt_state" where
  "emit lim cs st = st\<lparr>fout := puts lim cs (fout st)\<rparr>"

definition conv_c :: "nat \<Rightarrow> int \<Rightarrow> u32 \<Rightarrow> fmt_state \<Rightarrow> fmt_state result" where
  "conv_c lim width flags st =
     (let (st, width) =
            (if \<not> flag flags LEFT
             then (emit lim (replicate (nat (width - 1)) 32) st, min (width - 1) 0) else (st, width))
      in bindR (va_arg (fargs st)) (\<lambda>(a, args).
           let st = emit lim [ucast a] (st\<lparr>fargs := args\<rparr>)
           in Ok (emit lim (replicate (nat (width - 1)) 32) st)))"

definition conv_s :: "nat \<Rightarrow> (u64 \<Rightarrow> u8 list) \<Rightarrow> int \<Rightarrow> int \<Rightarrow> u32 \<Rightarrow> fmt_state \<Rightarrow> fmt_state result" where
  "conv_s lim mem width precision flags st =
     bindR (va_arg (fargs st)) (\<lambda>(a, args).
       let s = (if a < 4096 then ascii ''<NULL>'' @ [0] else mem a)
       in bindR (strnlen s (if precision < 0 then length s + 1 else nat precision)) (\<lambda>len.
            let st = st\<lparr>fargs := args\<rparr>;
                (st, width) =
                  (if \<not> flag flags LEFT
                   then (emit lim (replicate (nat (width - int len)) 32) st,
                         min width (int len) - 1) else (st, width));
                st = emit lim (take len s) st
            in Ok (emit lim (replicate (nat (width - int len)) 32) st)))"

definition conv_n :: "u8 option \<Rightarrow> fmt_state \<Rightarrow> fmt_state result" where
  "conv_n qualifier st =
     bindR (va_arg (fargs st)) (\<lambda>(a, args).
       let bytes = (if qualifier = Some 108 \<or> qualifier = Some 90 \<or> qualifier = Some 122 then 8 else 4)
       in Ok (st\<lparr>fargs := args, stores := stores st @ [(a, bytes, of_nat (pos (fout st)))]\<rparr>))"

definition conv_num :: "nat \<Rightarrow> nat \<Rightarrow> int \<Rightarrow> int \<Rightarrow> u8 option \<Rightarrow> u32 \<Rightarrow> (u64 \<Rightarrow> u64) \<Rightarrow> fmt_state \<Rightarrow> fmt_state result" where
  "conv_num lim base width precision qualifier flags value_of st =
     bindR (va_arg (fargs st)) (\<lambda>(a, args).
       case number lim (value_of a) base width precision flags (fout st) of
         None \<Rightarrow> Stop BadPointer
       | Some o' \<Rightarrow> Ok (st\<lparr>fargs := args, fout := o'\<rparr>))"

text \<open>
  The switch on the conversion character: the state after it and the rest of the format, from
  the character after the conversion on (for an unfinished conversion the terminator is left).
\<close>

definition convert :: "nat \<Rightarrow> (u64 \<Rightarrow> u8 list) \<Rightarrow> int \<Rightarrow> int \<Rightarrow> u8 option \<Rightarrow> u32 \<Rightarrow> u8 list \<Rightarrow> fmt_state
    \<Rightarrow> (fmt_state \<times> u8 list) result" where
  "convert lim mem width precision qualifier flags fmt st =
     bindR (peek fmt 0) (\<lambda>c.
       let next = (\<lambda>st. Ok (st, tl fmt)) in
       if c = 99 then bindR (conv_c lim width flags st) next
       else if c = 115 then bindR (conv_s lim mem width precision flags st) next
       else if c = 112 then
         let (width, flags) = (if width = - 1 then (16, flags OR ZEROPAD) else (width, flags))
         in bindR (conv_num lim 16 width precision qualifier flags (\<lambda>a. a) st) next
       else if c = 110 then bindR (conv_n qualifier st) next
       else if c = 37 then next (emit lim [37] st)
       else if c = 111 then
         bindR (conv_num lim 8 width precision qualifier flags (int_arg qualifier flags) st) next
       else if c = 88 then
         let flags = flags OR LARGE
         in bindR (conv_num lim 16 width precision qualifier flags (int_arg qualifier flags) st) next
       else if c = 120 then
         bindR (conv_num lim 16 width precision qualifier flags (int_arg qualifier flags) st) next
       else if c = 100 \<or> c = 105 then
         let flags = flags OR SIGN
         in bindR (conv_num lim 10 width precision qualifier flags (int_arg qualifier flags) st) next
       else if c = 117 then
         bindR (conv_num lim 10 width precision qualifier flags (int_arg qualifier flags) st) next
       else if c \<noteq> 0 then next (emit lim [37, c] st)
       else Ok (emit lim [37] st, fmt))"

definition directive :: "nat \<Rightarrow> (u64 \<Rightarrow> u8 list) \<Rightarrow> u8 list \<Rightarrow> fmt_state \<Rightarrow> (fmt_state \<times> u8 list) result" where
  "directive lim mem fmt st =
     bindR (flag_chars fmt 0) (\<lambda>(flags, fmt).
     bindR (field_width_of fmt (fargs st) flags) (\<lambda>(width, flags, fmt, args).
     bindR (precision_of fmt args) (\<lambda>(precision, fmt, args).
     bindR (qualifier_of fmt) (\<lambda>(qualifier, fmt).
       convert lim mem width precision qualifier flags fmt (st\<lparr>fargs := args\<rparr>)))))"

text \<open>The main loop; \<open>n\<close> bounds the rounds, and the length of the format is enough (\<open>format_loop_fuel\<close>).\<close>

fun format_loop :: "nat \<Rightarrow> nat \<Rightarrow> (u64 \<Rightarrow> u8 list) \<Rightarrow> u8 list \<Rightarrow> fmt_state \<Rightarrow> fmt_state result" where
  "format_loop 0 lim mem fmt st = Stop OutOfBounds"
| "format_loop (Suc n) lim mem fmt st =
     bindR (peek fmt 0) (\<lambda>c.
       if c = 0 then Ok st
       else if c \<noteq> 37 then format_loop n lim mem (tl fmt) (emit lim [c] st)
       else bindR (directive lim mem (tl fmt) st) (\<lambda>(st, fmt). format_loop n lim mem fmt st))"

text \<open>\<open>addr\<close> is the address of the buffer; the result is the return value and the final state.\<close>

definition vsnprintf :: "(u64 \<Rightarrow> u8 list) \<Rightarrow> u64 \<Rightarrow> u8 list \<Rightarrow> u64 \<Rightarrow> u8 list \<Rightarrow> u64 list \<Rightarrow> (nat \<times> fmt_state) result" where
  "vsnprintf mem addr buf sz fmt args =
     (let st = \<lparr>fout = \<lparr>pos = 0, cells = buf\<rparr>, fargs = args, stores = []\<rparr> in
      if sint (ucast sz :: u32) < 0 then Ok (0, st)
      else
        let lim = unat (if addr + sz < addr then - 1 - addr else sz)
        in bindR (format_loop (Suc (length fmt)) lim mem fmt st) (\<lambda>st.
             let n = pos (fout st);
                 c = cells (fout st);
                 c = (if lim > 0 then (if n < lim then c[n := 0] else c[lim - 1 := 0]) else c)
             in Ok (n, st\<lparr>fout := (fout st)\<lparr>cells := c\<rparr>\<rparr>)))"

definition snprintf :: "(u64 \<Rightarrow> u8 list) \<Rightarrow> u64 \<Rightarrow> u8 list \<Rightarrow> u32 \<Rightarrow> u8 list \<Rightarrow> u64 list \<Rightarrow> (nat \<times> fmt_state) result" where
  "snprintf mem addr buf len fmt args = vsnprintf mem addr buf (scast len) fmt args"


section \<open>Output\<close>

lemma puts_append: "puts lim (xs @ ys) st = puts lim ys (puts lim xs st)"
  by (induction xs arbitrary: st) auto

lemma putc_puts: "putc lim c st = puts lim [c] st"
  by simp

lemma puts_if:
  "(if b then puts lim xs st else st) = puts lim (if b then xs else []) st"
  "(if b then puts lim xs st else puts lim ys st) = puts lim (if b then xs else ys) st"
  by simp_all

lemma pos_puts [simp]: "pos (puts lim cs st) = pos st + length cs"
  by (induction cs arbitrary: st) (auto simp: putc_def Let_def)

text \<open>The state after the characters \<open>t\<close>: those that fit, then what the buffer held.\<close>

definition written :: "nat \<Rightarrow> u8 list \<Rightarrow> u8 list \<Rightarrow> out" where
  "written lim buf t = \<lparr>pos = length t, cells = take lim t @ drop (min lim (length t)) buf\<rparr>"

lemma pos_written: "pos (written lim buf t) = length t"
  by (simp add: written_def)

lemma written_upd: "(written lim buf t)\<lparr>cells := c\<rparr> = \<lparr>pos = length t, cells = c\<rparr>"
  by (simp add: written_def)

lemma putc_written:
  assumes "lim \<le> length buf"
  shows "putc lim c (written lim buf t) = written lim buf (t @ [c])"
proof (cases "length t < lim")
  case True
  with assms have "drop (length t) buf = buf ! length t # drop (Suc (length t)) buf"
    by (simp add: Cons_nth_drop_Suc)
  with True show ?thesis
    by (cases "lim = Suc (length t)") (simp_all add: putc_def written_def Let_def list_update_append)
next
  case False
  then show ?thesis by (simp add: putc_def written_def Let_def min_def)
qed

lemma puts_written:
  "lim \<le> length buf \<Longrightarrow> puts lim cs (written lim buf t) = written lim buf (t @ cs)"
  by (induction cs arbitrary: t) (simp_all add: putc_written)

section \<open>The characters of a number\<close>

lemma flag_OR: "flag type (m OR n) \<longleftrightarrow> flag type m \<or> flag type n"
  by (auto simp: flag_def bit.conj_disj_distrib or_eq_0_iff)

lemma nat_min_0: "nat (min (w :: int) 0 - 1) = 0"
  by simp

text \<open>What the tail of \<^verbatim>\<open>number\<close> emits.\<close>

definition emit_chars :: "u8 list \<Rightarrow> u8 \<Rightarrow> u8 \<Rightarrow> nat \<Rightarrow> int \<Rightarrow> int \<Rightarrow> u32 \<Rightarrow> u8 list \<Rightarrow> u8 list" where
  "emit_chars digits c sign base sz precision type tmp =
     (if flag type LEFT \<or> flag type ZEROPAD then [] else replicate (nat sz) 32)
     @ (if sign \<noteq> 0 then [sign] else [])
     @ (if flag type SPECIAL then (if base = 8 then [48] else if base = 16 then [48, digits ! 33] else []) else [])
     @ (if flag type ZEROPAD \<and> \<not> flag type LEFT then replicate (nat sz) c else [])
     @ replicate (nat (precision - int (length tmp))) 48 @ rev tmp
     @ (if flag type LEFT then replicate (nat sz) 32 else [])"

lemma number_emit_chars:
  "number_emit lim digits c sign base sz precision type tmp st
    = puts lim (emit_chars digits c sign base sz precision type tmp) st"
  unfolding number_emit_def emit_chars_def flag_OR putc_puts
  by (cases "flag type LEFT"; cases "flag type ZEROPAD")
    (simp_all add: puts_append nat_min_0 Let_def)

lemma number_emits:
  assumes "2 \<le> base" and "base \<le> 36"
  shows "\<exists>t. \<forall>lim st. number lim num base sz precision type st = Some (puts lim t st)"
proof -
  have b: "(base < 2 \<or> 36 < base) = False" using assms by simp
  show ?thesis unfolding number_def Let_def b if_False number_emit_chars by blast
qed


section \<open>Independence of the buffer\<close>

text \<open>
  A step is \<open>uniform\<close> if what it emits, consumes and returns depends on the number of
  characters so far, the arguments and the stores, but not on the buffer or its size.
\<close>

definition fmt_step :: "nat \<Rightarrow> u8 list \<times> u64 list \<times> (u64 \<times> nat \<times> u64) list \<times> 'a \<Rightarrow> fmt_state
    \<Rightarrow> (fmt_state \<times> 'a) result" where
  "fmt_step lim r st = (case r of (t, args, sts, x) \<Rightarrow>
     Ok (st\<lparr>fout := puts lim t (fout st), fargs := args, stores := sts\<rparr>, x))"

definition uniform :: "(nat \<Rightarrow> fmt_state \<Rightarrow> (fmt_state \<times> 'a) result) \<Rightarrow> bool" where
  "uniform op \<longleftrightarrow> (\<exists>F. \<forall>lim st. op lim st
     = bindR (F (pos (fout st)) (fargs st) (stores st)) (\<lambda>r. fmt_step lim r st))"

lemma uniformI:
  "(\<And>lim st. op lim st = bindR (F (pos (fout st)) (fargs st) (stores st)) (\<lambda>r. fmt_step lim r st)) \<Longrightarrow> uniform op"
  unfolding uniform_def by blast

lemma uniform_bind:
  assumes "uniform f" and "\<And>x. uniform (g x)"
  shows "uniform (\<lambda>lim st. bindR (f lim st) (\<lambda>(st, x). g x lim st))"
proof -
  obtain F where F: "\<And>lim st. f lim st = bindR (F (pos (fout st)) (fargs st) (stores st)) (\<lambda>r. fmt_step lim r st)"
    using assms(1) unfolding uniform_def by blast
  have "\<forall>x. \<exists>G. \<forall>lim st. g x lim st = bindR (G (pos (fout st)) (fargs st) (stores st)) (\<lambda>r. fmt_step lim r st)"
    using assms(2) unfolding uniform_def by blast
  then obtain G where G: "\<And>x lim st. g x lim st
      = bindR (G x (pos (fout st)) (fargs st) (stores st)) (\<lambda>r. fmt_step lim r st)"
    by metis
  show ?thesis
  proof (rule uniformI [of _ "\<lambda>p as ss. bindR (F p as ss) (\<lambda>(t, as, ss, x).
      bindR (G x (p + length t) as ss) (\<lambda>(t', as, ss, y). Ok (t @ t', as, ss, y)))"])
    fix lim st
    show "bindR (f lim st) (\<lambda>(st, x). g x lim st)
      = bindR (bindR (F (pos (fout st)) (fargs st) (stores st)) (\<lambda>(t, as, ss, x).
          bindR (G x (pos (fout st) + length t) as ss) (\<lambda>(t', as, ss, y). Ok (t @ t', as, ss, y))))
        (\<lambda>r. fmt_step lim r st)"
    proof (cases "F (pos (fout st)) (fargs st) (stores st)")
      case (Inr r)
      obtain t as ss x where r: "r = (t, as, ss, x)" by (cases r)
      show ?thesis
        by (cases "G x (pos (fout st) + length t) as ss")
          (auto simp: F Inr r G fmt_step_def puts_append split: prod.splits)
    qed (simp add: F)
  qed
qed

lemma uniform_if: "(b \<Longrightarrow> uniform f) \<Longrightarrow> (\<not> b \<Longrightarrow> uniform g) \<Longrightarrow> uniform (\<lambda>lim st. if b then f lim st else g lim st)"
  by (cases b) simp_all

lemma uniform_emit: "uniform (\<lambda>lim st. Ok (emit lim cs st, x))"
  by (rule uniformI [of _ "\<lambda>p as ss. Ok (cs, as, ss, x)"]) (simp add: fmt_step_def emit_def)

lemma uniform_return: "uniform (\<lambda>lim st. Ok (st, x))"
  by (rule uniformI [of _ "\<lambda>p as ss. Ok ([], as, ss, x)"]) (simp add: fmt_step_def)

lemma uniform_stop: "uniform (\<lambda>lim st. Stop e)"
  by (rule uniformI [of _ "\<lambda>p as ss. Stop e"]) simp

text \<open>Reading something from the arguments that does not touch the output.\<close>

lemma uniform_args:
  assumes "\<And>x. uniform (g x)"
  shows "uniform (\<lambda>lim st. bindR (h (fargs st)) (\<lambda>(x, args). g x lim (st\<lparr>fargs := args\<rparr>)))"
proof -
  have "uniform (\<lambda>lim st. bindR (h (fargs st)) (\<lambda>(x, args). Ok (st\<lparr>fargs := args\<rparr>, x)))"
    by (rule uniformI [of _ "\<lambda>p as ss. bindR (h as) (\<lambda>(x, as). Ok ([], as, ss, x))"])
      (auto simp: fmt_step_def bindR_def split: sum.splits)
  from uniform_bind [OF this assms] show ?thesis
    by (rule back_subst [where P = uniform]) (auto simp: fun_eq_iff bindR_def split: sum.splits)
qed

section \<open>Every step is uniform\<close>

lemma uniform_conv_c: "uniform (\<lambda>lim st. bindR (conv_c lim width flags st) (\<lambda>st. Ok (st, x)))"
  by (rule uniformI [of _ "\<lambda>p as ss. bindR (va_arg as) (\<lambda>(a, as). Ok (
        (if \<not> flag flags LEFT then replicate (nat (width - 1)) 32 else []) @ [ucast a]
        @ (if flag flags LEFT then replicate (nat (width - 1)) 32 else []), as, ss, x))"])
    (auto simp: conv_c_def emit_def fmt_step_def puts_append Let_def bindR_def split: sum.splits)

lemma uniform_conv_s: "uniform (\<lambda>lim st. bindR (conv_s lim mem width precision flags st) (\<lambda>st. Ok (st, x)))"
  by (rule uniformI [of _ "\<lambda>p as ss. bindR (va_arg as) (\<lambda>(a, as).
        let s = (if a < 4096 then ascii ''<NULL>'' @ [0] else mem a)
        in bindR (strnlen s (if precision < 0 then length s + 1 else nat precision)) (\<lambda>len. Ok (
          (if \<not> flag flags LEFT then replicate (nat (width - int len)) 32 else []) @ take len s
          @ (if flag flags LEFT then replicate (nat (width - int len)) 32 else []), as, ss, x)))"])
    (auto simp: conv_s_def emit_def fmt_step_def puts_append Let_def bindR_def split: sum.splits)

lemma uniform_conv_n: "uniform (\<lambda>lim st. bindR (conv_n qualifier st) (\<lambda>st. Ok (st, x)))"
  by (rule uniformI [of _ "\<lambda>p as ss. bindR (va_arg as) (\<lambda>(a, as).
        let bytes = (if qualifier = Some 108 \<or> qualifier = Some 90 \<or> qualifier = Some 122 then 8 else 4)
        in Ok ([], as, ss @ [(a, bytes, of_nat p)], x))"])
    (auto simp: conv_n_def fmt_step_def Let_def bindR_def split: sum.splits)

lemma uniform_conv_num:
  assumes "2 \<le> base" and "base \<le> 36"
  shows "uniform (\<lambda>lim st. bindR (conv_num lim base width precision qualifier flags f st) (\<lambda>st. Ok (st, x)))"
proof -
  have "\<forall>num. \<exists>t. \<forall>lim st. number lim num base width precision flags st = Some (puts lim t st)"
    using number_emits [OF assms] by blast
  then obtain T where T: "\<And>num lim st. number lim num base width precision flags st = Some (puts lim (T num) st)"
    by metis
  show ?thesis
    by (rule uniformI [of _ "\<lambda>p as ss. bindR (va_arg as) (\<lambda>(a, as). Ok (T (f a), as, ss, x))"])
      (auto simp: conv_num_def fmt_step_def T bindR_def split: sum.splits)
qed

lemmas uniform_steps = uniform_conv_c uniform_conv_s uniform_conv_n uniform_emit uniform_return
  uniform_conv_num uniform_if uniform_stop

lemma uniform_convert: "uniform (\<lambda>lim st. convert lim mem width precision qualifier flags fmt st)"
proof (cases fmt)
  case Nil
  then show ?thesis by (simp add: convert_def peek_def uniform_stop)
next
  case (Cons c r)
  have pk: "peek (c # r) 0 = Ok c" by simp
  have p: "uniform (\<lambda>lim st. case if width = - 1 then (16, flags OR ZEROPAD) else (width, flags) of
      (width, flags) \<Rightarrow> bindR (conv_num lim 16 width precision qualifier flags (\<lambda>a. a) st) (\<lambda>st. Ok (st, r)))"
    by (cases "width = - 1") (simp_all add: uniform_conv_num)
  show ?thesis
    unfolding convert_def Cons pk bindR_simps Let_def list.sel
    by (intro uniform_if p uniform_conv_c uniform_conv_s uniform_conv_n uniform_conv_num uniform_emit) simp_all
qed

lemma uniform_directive: "uniform (\<lambda>lim st. directive lim mem fmt st)"
proof -
  let ?h = "\<lambda>args. bindR (flag_chars fmt 0) (\<lambda>(flags, fmt).
     bindR (field_width_of fmt args flags) (\<lambda>(width, flags, fmt, args).
     bindR (precision_of fmt args) (\<lambda>(precision, fmt, args).
     bindR (qualifier_of fmt) (\<lambda>(qualifier, fmt). Ok ((width, precision, qualifier, flags, fmt), args)))))"
  have "uniform (\<lambda>lim st. bindR (?h (fargs st)) (\<lambda>(x, args).
      (case x of (width, precision, qualifier, flags, fmt) \<Rightarrow>
         (\<lambda>lim st. convert lim mem width precision qualifier flags fmt st)) lim (st\<lparr>fargs := args\<rparr>)))"
    by (rule uniform_args) (simp add: uniform_convert split: prod.split)
  then show ?thesis
    by (rule back_subst [where P = uniform])
      (auto simp: directive_def fun_eq_iff bindR_def split: sum.splits prod.splits)
qed

lemma uniform_format_loop: "uniform (\<lambda>lim st. bindR (format_loop n lim mem fmt st) (\<lambda>st. Ok (st, ())))"
proof (induction n arbitrary: fmt)
  case (Suc n)
  show ?case
  proof (cases fmt)
    case Nil
    then show ?thesis by (simp add: peek_def uniform_stop)
  next
    case (Cons c r)
    have "uniform (\<lambda>lim st. bindR (Ok (emit lim [c] st, ())) (\<lambda>(st, _).
        bindR (format_loop n lim mem r st) (\<lambda>st. Ok (st, ()))))"
      by (rule uniform_bind [OF uniform_emit Suc])
    moreover have "uniform (\<lambda>lim st. bindR (directive lim mem r st) (\<lambda>(st, fmt).
        bindR (format_loop n lim mem fmt st) (\<lambda>st. Ok (st, ()))))"
      by (rule uniform_bind [OF uniform_directive Suc])
    moreover have "uniform (\<lambda>lim (st :: fmt_state). Ok (st, ()))" by (rule uniform_return)
    ultimately show ?thesis
      by (cases "c = 0"; cases "c = 37") (simp_all add: Cons bindR_assoc split_def)
  qed
qed (simp add: uniform_stop)

section \<open>Progress\<close>

lemma skip_atoi_length: "skip_atoi s i = Ok (v, r) \<Longrightarrow> length r \<le> length s"
  by (induction s i rule: skip_atoi.induct) (auto split: if_splits dest: le_SucI)

lemma flag_chars_length: "flag_chars s i = Ok (v, r) \<Longrightarrow> length r \<le> length s"
  by (induction s i rule: flag_chars.induct) (auto split: if_splits)

lemma field_width_length: "field_width_of s args f = Ok (w, f', r, args') \<Longrightarrow> length r \<le> length s"
  by (auto simp: field_width_of_def bindR_eq_Ok Let_def split: if_splits dest: skip_atoi_length)

lemma precision_length: "precision_of s args = Ok (w, r, args') \<Longrightarrow> length r \<le> length s"
  by (auto simp: precision_of_def bindR_eq_Ok Let_def split: if_splits dest!: skip_atoi_length)

lemma qualifier_length: "qualifier_of s = Ok (q, r) \<Longrightarrow> length r \<le> length s"
  by (auto simp: qualifier_of_def bindR_eq_Ok Let_def split: if_splits)

lemma convert_length: "convert lim mem w p q f s st = Ok (st', r) \<Longrightarrow> length r \<le> length s"
  by (auto simp: convert_def bindR_eq_Ok Let_def split: if_splits)

lemma directive_length: "directive lim mem s st = Ok (st', r) \<Longrightarrow> length r \<le> length s"
  by (auto simp: directive_def bindR_eq_Ok dest!: flag_chars_length field_width_length precision_length qualifier_length convert_length)

lemma format_loop_fuel:
  "length fmt < n \<Longrightarrow> length fmt < m \<Longrightarrow> format_loop n lim mem fmt st = format_loop m lim mem fmt st"
proof (induction n arbitrary: m fmt st)
  case (Suc n)
  then obtain m' where m: "m = Suc m'" by (cases m) auto
  show ?case
  proof (cases fmt)
    case (Cons c r)
    have IH: "format_loop n lim mem r' st' = format_loop m' lim mem r' st'" if "length r' \<le> length r" for r' st'
      using Suc.IH [of r' m' st'] Suc.prems that by (simp add: m Cons)
    show ?thesis
    proof (cases "directive lim mem r st")
      case (Inr x)
      obtain st' r' where x: "x = (st', r')" by (cases x)
      then have "length r' \<le> length r" using Inr directive_length by blast
      from IH [OF this] IH [OF order_refl] show ?thesis by (simp add: m Cons Inr x)
    qed (simp add: m Cons IH [OF order_refl])
  qed (simp add: m peek_def)
qed simp

lemma written_end:
  assumes "0 < lim" and "lim \<le> length buf"
  shows "(if length t < lim then (cells (written lim buf t))[length t := 0]
           else (cells (written lim buf t))[lim - 1 := 0])
    = take (lim - 1) t @ 0 # drop (Suc (min (lim - 1) (length t))) buf"
proof (cases "length t < lim")
  case True
  with assms have "drop (length t) buf = buf ! length t # drop (Suc (length t)) buf"
    by (simp add: Cons_nth_drop_Suc)
  with True show ?thesis
    by (cases "lim = Suc (length t)") (simp_all add: written_def list_update_append min_def)
next
  case False
  then have "(take lim t)[lim - 1 := 0] = take (lim - 1) t @ [0]"
    using assms(1) by (cases lim) (simp_all add: take_Suc_conv_app_nth list_update_append)
  with False assms show ?thesis by (simp add: written_def list_update_append)
qed

section \<open>The whole call\<close>

text \<open>A text in a buffer: cut to the size less one, with a zero byte after it.\<close>

definition in_buffer :: "nat \<Rightarrow> u8 list \<Rightarrow> u8 list \<Rightarrow> u8 list" where
  "in_buffer sz buf t =
     (if sz = 0 then buf else take (sz - 1) t @ 0 # drop (Suc (min (sz - 1) (length t))) buf)"

lemma vsnprintf_text:
  assumes size: "0 \<le> sint (ucast sz :: u32)" "unat sz \<le> length buf" "addr \<le> addr + sz"
    and loop: "format_loop (Suc (length fmt)) (unat sz) mem fmt \<lparr>fout = \<lparr>pos = 0, cells = buf\<rparr>, fargs = args, stores = []\<rparr>
      = bindR r (\<lambda>(t, as, ss). Ok \<lparr>fout = written (unat sz) buf t, fargs = as, stores = ss\<rparr>)"
  shows "vsnprintf mem addr buf sz fmt args = bindR r (\<lambda>(t, as, ss).
    Ok (length t, \<lparr>fout = \<lparr>pos = length t, cells = in_buffer (unat sz) buf t\<rparr>, fargs = as, stores = ss\<rparr>))"
proof -
  let ?lim = "unat sz"
  have e: "unat (if addr + sz < addr then - 1 - addr else sz) = ?lim"
    using size(3) by (simp add: not_less [symmetric])
  have s: "\<not> sint (ucast sz :: u32) < 0" using size(1) by simp
  have c: "(if 0 < ?lim then if length t < ?lim then (cells (written ?lim buf t))[length t := 0]
      else (cells (written ?lim buf t))[?lim - 1 := 0] else cells (written ?lim buf t)) = in_buffer ?lim buf t" for t
    using written_end [of ?lim buf t] size(2) by (auto simp: in_buffer_def unat_eq_0 unat_gt_0 written_def)
  show ?thesis
  proof (cases r)
    case (Inr x)
    obtain t as ss where x: "x = (t, as, ss)" by (cases x)
    then show ?thesis
      using s loop unfolding vsnprintf_def Let_def e
      by (simp add: Inr pos_written c [unfolded One_nat_def] written_upd cong: if_cong split del: if_split del: format_loop.simps)
  qed (use s loop in \<open>simp add: vsnprintf_def Let_def e del: format_loop.simps\<close>)
qed

section \<open>Properties\<close>

text \<open>
  (C14) What \<^verbatim>\<open>vsnprintf\<close> prints does not depend on the buffer: for a format and its
  arguments there is one text (or one fault), and for every buffer and size the call writes the
  text, cut to the size less one, with a zero byte after it, leaves all other bytes alone and
  returns the length of the whole text.
\<close>

theorem vsnprintf_correct:
  "\<exists>r. \<forall>addr sz buf. 0 \<le> sint (ucast sz :: u32) \<and> unat sz \<le> length buf \<and> addr \<le> addr + sz
    \<longrightarrow> vsnprintf mem addr buf sz fmt args = bindR r (\<lambda>(t, args', sts).
          Ok (length t, \<lparr>fout = \<lparr>pos = length t, cells =
                if sz = 0 then buf
                else take (unat sz - 1) t @ 0 # drop (Suc (min (unat sz - 1) (length t))) buf\<rparr>,
              fargs = args', stores = sts\<rparr>))"
proof -
  from uniform_format_loop [of "Suc (length fmt)" mem fmt] obtain F where
    F: "\<And>lim st. bindR (format_loop (Suc (length fmt)) lim mem fmt st) (\<lambda>st. Ok (st, ()))
      = bindR (F (pos (fout st)) (fargs st) (stores st)) (\<lambda>r. fmt_step lim r st)"
    unfolding uniform_def by blast
  let ?r = "bindR (F 0 args []) (\<lambda>(t, as, ss, u). Ok (t, as, ss))"
  have loop: "format_loop (Suc (length fmt)) lim mem fmt \<lparr>fout = \<lparr>pos = 0, cells = buf\<rparr>, fargs = args, stores = []\<rparr>
      = bindR ?r (\<lambda>(t, as, ss). Ok \<lparr>fout = written lim buf t, fargs = as, stores = ss\<rparr>)"
    if "lim \<le> length buf" for lim buf
  proof -
    let ?st = "\<lparr>fout = \<lparr>pos = 0, cells = buf\<rparr>, fargs = args, stores = []\<rparr>"
    have start: "\<lparr>pos = 0, cells = buf\<rparr> = written lim buf []" by (simp add: written_def)
    show ?thesis
      using F [of lim ?st] puts_written [OF that, of _ "[]"]
      by (cases "F 0 args []"; cases "format_loop (Suc (length fmt)) lim mem fmt ?st")
        (auto simp: fmt_step_def start pos_written simp del: format_loop.simps)
  qed
  show ?thesis
    by (rule exI [of _ ?r]) (auto simp only: vsnprintf_text [OF _ _ _ loop] in_buffer_def unat_eq_0)
qed

theorem vsnprintf_correct_witness:
  "\<exists>t st. vsnprintf (\<lambda>_. []) 0x1000 [1, 1, 1, 1] 3 (ascii ''hvf'' @ [0]) [] = Ok (3, st)
     \<and> cells (fout st) = take 2 t @ 0 # [1] \<and> length t = 3"
proof -
  obtain r where r: "vsnprintf (\<lambda>_. []) addr buf sz (ascii ''hvf'' @ [0]) [] = bindR r (\<lambda>(t, args', sts).
          Ok (length t, \<lparr>fout = \<lparr>pos = length t, cells =
                if sz = 0 then buf
                else take (unat sz - 1) t @ 0 # drop (Suc (min (unat sz - 1) (length t))) buf\<rparr>,
              fargs = args', stores = sts\<rparr>))"
    if "0 \<le> sint (ucast sz :: u32)" "unat sz \<le> length buf" "addr \<le> addr + sz" for addr sz buf
    using vsnprintf_correct [of "\<lambda>_. []" "ascii ''hvf'' @ [0]" "[]"] by blast
  have f: "ascii ''hvf'' @ [0] = [104, 118, 102, 0]" by code_simp
  have "\<exists>st. vsnprintf (\<lambda>_. []) 0x1000 [1, 1, 1, 1] 3 (ascii ''hvf'' @ [0]) [] = Ok (3, st)"
    unfolding f by (simp add: vsnprintf_def Let_def emit_def putc_def)
  with r [of 3 "[1, 1, 1, 1]" "0x1000"] show ?thesis by (cases r) auto
qed

section \<open>Printing and reading hexadecimal numbers\<close>

lemma hex_loop_snoc: "hex_loop (xs @ [c]) v = (case hex_loop xs v of None \<Rightarrow> None
    | Some w \<Rightarrow> (case hex_digit c of None \<Rightarrow> None | Some d \<Rightarrow> Some (push_bit 4 w OR d)))"
  by (induction xs arbitrary: v) (auto split: option.splits)

lemma digit_read: "k < 16 \<Longrightarrow> hex_digit (small_digits ! k) = Some (of_nat k)"
proof -
  have "list_all (\<lambda>k. hex_digit (small_digits ! k) = Some (of_nat k)) [0..<16]" by code_simp
  then show "k < 16 \<Longrightarrow> ?thesis" by (simp add: list_all_iff)
qed

lemma hex_loop_digits: "hex_loop (rev (tmp_digits small_digits num 16)) 0 = Some num"
proof (induction "unat num" arbitrary: num rule: less_induct)
  case less
  show ?case
  proof (cases "num = 0")
    case True
    then show ?thesis by (simp add: tmp_digits.simps)
  next
    case False
    then have "unat (num div 16) < unat num" by (simp add: unat_div unat_gt_0)
    from less [OF this] have IH: "hex_loop (rev (tmp_digits small_digits (num div 16) 16)) 0 = Some (num div 16)" .
    have k: "unat (num mod 16) < 16" by (simp add: unat_mod)
    have "push_bit 4 (num div 16) OR of_nat (unat (num mod 16)) = 16 * (num div 16) + num mod 16"
      using push_bit_or_of_nat [of "unat (num mod 16)" 4 "num div 16"] k by simp
    also have "\<dots> = num" by (rule mult_div_mod_eq)
    finally show ?thesis
      using False IH k by (subst tmp_digits.simps) (simp add: hex_loop_snoc digit_read)
  qed
qed

lemma tmp_digits_length: "unat num < 16 ^ k \<Longrightarrow> length (tmp_digits d num 16) \<le> k"
proof (induction k arbitrary: num)
  case 0
  then show ?case by (simp add: unat_eq_0 tmp_digits.simps)
next
  case (Suc k)
  have "unat (num div 16) < 16 ^ k" using Suc.prems by (simp add: unat_div less_mult_imp_div_less mult.commute)
  with Suc.IH show ?case by (subst tmp_digits.simps) simp
qed

definition hex_text :: "u64 \<Rightarrow> u8 list" where
  "hex_text num = (if num = 0 then [48] else rev (tmp_digits small_digits num 16))"

lemma hex_text: "hex (hex_text num) = Some num" "length (hex_text num) \<le> 16" "hex_text num \<noteq> []"
proof -
  have "length (tmp_digits small_digits num 16) \<le> 16"
    using tmp_digits_length [of num 16] unsigned_less [of num, where ?'a = nat] by simp
  then show "length (hex_text num) \<le> 16" by (simp add: hex_text_def)
  show "hex (hex_text num) = Some num"
  proof (cases "num = 0")
    case True
    then show ?thesis by (simp add: hex_text_def hex_def hex_digit_def)
  next
    case False
    then have "tmp_digits small_digits num 16 \<noteq> []" by (subst tmp_digits.simps) simp
    with False show ?thesis using hex_loop_digits [of num] by (simp add: hex_text_def hex_def)
  qed
  then show "hex_text num \<noteq> []" by (auto simp: hex_def)
qed

lemma number_hex: "number lim num 16 (- 1) (- 1) 0 st = Some (puts lim (hex_text num) st)"
  by (simp add: number_def number_emit_chars emit_chars_def flag_def hex_text_def Let_def)

lemma int_size_small: "unat (sz :: u64) < 2 ^ 31 \<Longrightarrow> sint (ucast sz :: u32) = int (unat sz)"
proof -
  assume "unat sz < 2 ^ 31"
  then have "int (unat sz) < int (2 ^ 31)" by (simp only: of_nat_less_iff)
  then have u: "uint sz < 2 ^ 31" by simp
  have "sint (ucast sz :: u32) = signed_take_bit 31 (uint sz)" by (simp only: signed_ucast_eq) simp
  also have "\<dots> = uint sz" by (rule signed_take_bit_int_eq_self) (use u uint_ge_0 [of sz] in linarith)+
  finally show ?thesis by simp
qed

text \<open>
  (C31) A number printed with \<^verbatim>\<open>%lx\<close> into a buffer of 17 bytes or more is read back by
  \<^verbatim>\<open>hex\<close> from the characters printed: the console and the command parser agree.
\<close>

theorem hex_print_parse:
  assumes "17 \<le> unat sz" and "unat sz \<le> length buf" and "unat sz < 2 ^ 31" and "addr \<le> addr + sz"
  shows "\<exists>n st. vsnprintf mem addr buf sz (ascii ''%lx'' @ [0]) [num] = Ok (n, st)
    \<and> n < unat sz \<and> hex (take n (cells (fout st))) = Some num"
proof -
  have f: "ascii ''%lx'' @ [0] = [37, 108, 120, 0]" "ascii ''hlLZzt'' = [104, 108, 76, 90, 122, 116]" by code_simp+
  have d: "\<not> isdigit 108" by (simp add: isdigit_range)
  have s: "\<not> sint (ucast sz :: u32) < 0" by (simp add: int_size_small [OF assms(3)])
  have e: "(if addr + sz < addr then - 1 - addr else sz) = sz" using assms(4) by (simp add: not_less [symmetric])
  let ?lim = "unat sz" and ?t = "hex_text num"
  have len: "length ?t < ?lim" using hex_text(2) [of num] assms(1) by linarith
  have start: "\<lparr>pos = 0, cells = buf\<rparr> = written ?lim buf []" by (simp add: written_def)
  have "format_loop (Suc (length (ascii ''%lx'' @ [0]))) ?lim mem (ascii ''%lx'' @ [0])
      \<lparr>fout = \<lparr>pos = 0, cells = buf\<rparr>, fargs = [num], stores = []\<rparr>
    = Ok \<lparr>fout = written ?lim buf ?t, fargs = [], stores = []\<rparr>"
    using puts_written [OF assms(2), of ?t "[]"]
    by (simp add: f start directive_def field_width_of_def precision_of_def qualifier_of_def d convert_def Let_def
        conv_num_def va_arg_def int_arg_def number_hex)
  with s len have "vsnprintf mem addr buf sz (ascii ''%lx'' @ [0]) [num]
    = Ok (length ?t, \<lparr>fout = \<lparr>pos = length ?t, cells = (cells (written ?lim buf ?t))[length ?t := 0]\<rparr>,
        fargs = [], stores = []\<rparr>)"
    unfolding vsnprintf_def Let_def e by (simp add: written_def del: format_loop.simps)
  moreover have "take (length ?t) ((cells (written ?lim buf ?t))[length ?t := 0]) = ?t"
    using len by (simp add: written_def list_update_append)
  ultimately show ?thesis using len hex_text(1) by auto
qed

theorem hex_print_parse_witness:
  "\<exists>n st. vsnprintf (\<lambda>_. []) 0x1000 (replicate 20 0) 20 (ascii ''%lx'' @ [0]) [0xbadc0ffee] = Ok (n, st)
     \<and> hex (take n (cells (fout st))) = Some 0xbadc0ffee"
  using hex_print_parse [of 20 "replicate 20 0" "0x1000" "\<lambda>_. []" "0xbadc0ffee"] by auto

end
