(* ===== verification/Inst_Tables.thy ===== *)
theory Inst_Tables
  imports Prelude
begin

text \<open>
  The instruction tables of the disassembler: \<^verbatim>\<open>src/cp/include/disassm.h\<close> and the
  tables of \<^verbatim>\<open>src/cp/shell/disassm.c\<close>.  A table is the list of its designated
  initialisers, index and entry; an index without one is the zero-filled entry, whose format is
  \<^verbatim>\<open>IF_INV\<close>.  The two long initialisers are written in two parts.
\<close>

datatype inst_fmt =
    IF_INV | IF_VAR | IF_E | IF_I | IF_RI1 | IF_RI2
  | IF_RIE | IF_RIL1 | IF_RIL2 | IF_RIS
  | IF_RR | IF_RR_MASK | IF_RRE | IF_RRF1 | IF_RRF2 | IF_RRF3 | IF_RRR | IF_RRS
  | IF_RS1 | IF_RS2 | IF_RSI | IF_RSL | IF_RSY1 | IF_RSY2
  | IF_RX | IF_RX_MASK | IF_RXE | IF_RXF | IF_RXY
  | IF_S | IF_SI | IF_SIL | IF_SIY | IF_SS1 | IF_SS2 | IF_SS3 | IF_SS4 | IF_SS5 | IF_SSE | IF_SSF | IF_DIAG

text \<open>
  The union with its tag: an instruction has a name, a sub-table its number of entries, its
  initialisers, and the length and the location in bits of the sub-opcode.
\<close>

datatype disassm_instruction =
    DA_INST inst_fmt string
  | DA_INST_TBL nat "(nat \<times> disassm_instruction) list" nat nat

definition l2_01 :: "(nat \<times> disassm_instruction) list" where
  "l2_01 = [
    (0x01, DA_INST IF_E ''PR''), (0x02, DA_INST IF_E ''UPT''), (0x04, DA_INST IF_E ''PTFF''),
    (0x07, DA_INST IF_E ''SCKPF''), (0x0A, DA_INST IF_E ''PFPO''), (0x0B, DA_INST IF_E ''TAM''),
    (0x0C, DA_INST IF_E ''SAM24''), (0x0D, DA_INST IF_E ''SAM31''), (0x0E, DA_INST IF_E ''SAM64''),
    (0xFF, DA_INST IF_E ''TRAP2'')]"

definition l2_a5 :: "(nat \<times> disassm_instruction) list" where
  "l2_a5 = [
    (0x0, DA_INST IF_RI1 ''IIHH''), (0x1, DA_INST IF_RI1 ''IIHL''), (0x2, DA_INST IF_RI1 ''IILH''),
    (0x3, DA_INST IF_RI1 ''IILL''), (0x4, DA_INST IF_RI1 ''NIHH''), (0x5, DA_INST IF_RI1 ''NIHL''),
    (0x6, DA_INST IF_RI1 ''NILH''), (0x7, DA_INST IF_RI1 ''NILL''), (0x8, DA_INST IF_RI1 ''OIHH''),
    (0x9, DA_INST IF_RI1 ''OIHL''), (0xA, DA_INST IF_RI1 ''OILH''), (0xB, DA_INST IF_RI1 ''OILL''),
    (0xC, DA_INST IF_RI1 ''LLIHH''), (0xD, DA_INST IF_RI1 ''LLIHL''),
    (0xE, DA_INST IF_RI1 ''LLILH''), (0xF, DA_INST IF_RI1 ''LLILL'')]"

definition l2_a7 :: "(nat \<times> disassm_instruction) list" where
  "l2_a7 = [
    (0x0, DA_INST IF_RI1 ''TMLH''), (0x1, DA_INST IF_RI1 ''TMLL''), (0x2, DA_INST IF_RI1 ''TMHH''),
    (0x3, DA_INST IF_RI1 ''TMHL''), (0x4, DA_INST IF_RI2 ''BRC''), (0x5, DA_INST IF_RI1 ''BRAS''),
    (0x6, DA_INST IF_RI1 ''BRCT''), (0x7, DA_INST IF_RI1 ''BRCTG''), (0x8, DA_INST IF_RI1 ''LHI''),
    (0x9, DA_INST IF_RI1 ''LGHI''), (0xA, DA_INST IF_RI1 ''AHI''), (0xB, DA_INST IF_RI1 ''AGHI''),
    (0xC, DA_INST IF_RI1 ''MHI''), (0xD, DA_INST IF_RI1 ''MGHI''), (0xE, DA_INST IF_RI1 ''CHI''),
    (0xF, DA_INST IF_RI1 ''CGHI'')]"

definition l2_b2 :: "(nat \<times> disassm_instruction) list" where
  "l2_b2 = [
    (0x02, DA_INST IF_S ''STIDP''), (0x04, DA_INST IF_S ''SCK''), (0x05, DA_INST IF_S ''STCK''),
    (0x06, DA_INST IF_S ''SCKC''), (0x07, DA_INST IF_S ''STCKC''), (0x08, DA_INST IF_S ''SPT''),
    (0x09, DA_INST IF_S ''STPT''), (0x0A, DA_INST IF_S ''SPKA''), (0x0B, DA_INST IF_S ''IPK''),
    (0x0D, DA_INST IF_S ''PTLB''), (0x10, DA_INST IF_S ''SPX''), (0x11, DA_INST IF_S ''STPX''),
    (0x12, DA_INST IF_S ''STAP''), (0x14, DA_INST IF_S ''SIE''), (0x18, DA_INST IF_S ''PC''),
    (0x19, DA_INST IF_S ''SAC''), (0x1A, DA_INST IF_S ''CFC''), (0x21, DA_INST IF_RRE ''IPTE''),
    (0x22, DA_INST IF_RRE ''IPM''), (0x23, DA_INST IF_RRE ''IVSK''),
    (0x24, DA_INST IF_RRE ''IAC''), (0x25, DA_INST IF_RRE ''SSAR''),
    (0x26, DA_INST IF_RRE ''EPAR''), (0x27, DA_INST IF_RRE ''ESAR''),
    (0x28, DA_INST IF_RRE ''PT''), (0x29, DA_INST IF_RRE ''ISKE''),
    (0x2A, DA_INST IF_RRE ''RRBE''), (0x2B, DA_INST IF_RRF2 ''SSKE''),
    (0x2C, DA_INST IF_RRE ''TB''), (0x2D, DA_INST IF_RRE ''DXR''), (0x2E, DA_INST IF_RRE ''PGIN''),
    (0x2F, DA_INST IF_RRE ''PGOUT''), (0x30, DA_INST IF_S ''CSCH''), (0x31, DA_INST IF_S ''HSCH''),
    (0x32, DA_INST IF_S ''MSCH''), (0x33, DA_INST IF_S ''SSCH''), (0x34, DA_INST IF_S ''STSCH''),
    (0x35, DA_INST IF_S ''TSCH''), (0x36, DA_INST IF_S ''TPI''), (0x37, DA_INST IF_S ''SAL''),
    (0x38, DA_INST IF_S ''RSCH''), (0x39, DA_INST IF_S ''STCRW''), (0x3A, DA_INST IF_S ''STCPS''),
    (0x3B, DA_INST IF_S ''RCHP''), (0x3D, DA_INST IF_S ''SCHM''), (0x40, DA_INST IF_RRE ''BAKR''),
    (0x41, DA_INST IF_RRE ''CKSM''), (0x44, DA_INST IF_RRE ''SQDR''),
    (0x45, DA_INST IF_RRE ''SQER''), (0x46, DA_INST IF_RRE ''STURA''),
    (0x47, DA_INST IF_RRE ''MSTA''), (0x48, DA_INST IF_RRE ''PALB''),
    (0x49, DA_INST IF_RRE ''EREG''), (0x4A, DA_INST IF_RRE ''ESTA''),
    (0x4B, DA_INST IF_RRE ''LURA''), (0x4C, DA_INST IF_RRE ''TAR''),
    (0x4D, DA_INST IF_RRE ''CPYA''), (0x4E, DA_INST IF_RRE ''SAR''),
    (0x4F, DA_INST IF_RRE ''EAR''), (0x50, DA_INST IF_RRE ''CSP''), (0x52, DA_INST IF_RRE ''MSR''),
    (0x54, DA_INST IF_RRE ''MVPG''), (0x55, DA_INST IF_RRE ''MVST''),
    (0x57, DA_INST IF_RRE ''CUSE''), (0x58, DA_INST IF_RRE ''BSG''),
    (0x5A, DA_INST IF_RRE ''BSA''), (0x5D, DA_INST IF_RRE ''CLST''),
    (0x5E, DA_INST IF_RRE ''SRST''), (0x63, DA_INST IF_RRE ''CMPSC''),
    (0x76, DA_INST IF_S ''XSCH''), (0x77, DA_INST IF_S ''RP''), (0x78, DA_INST IF_S ''STCKE''),
    (0x79, DA_INST IF_S ''SACF''), (0x7C, DA_INST IF_S ''STCKF''), (0x7D, DA_INST IF_S ''STSI''),
    (0x99, DA_INST IF_S ''SRNM''), (0x9C, DA_INST IF_S ''STFPC''), (0x9D, DA_INST IF_S ''LFPC''),
    (0xA5, DA_INST IF_RRE ''TRE''), (0xA6, DA_INST IF_RRF2 ''CUUTF''),
    (0xA7, DA_INST IF_RRF2 ''CUTFU''), (0xB0, DA_INST IF_S ''STFLE''),
    (0xB1, DA_INST IF_S ''STFL''), (0xB2, DA_INST IF_S ''LPSWE''), (0xB9, DA_INST IF_S ''SRNMT''),
    (0xBD, DA_INST IF_S ''LFAS''), (0xFF, DA_INST IF_S ''TRAP4'')]"

definition l2_b3_low :: "(nat \<times> disassm_instruction) list" where
  "l2_b3_low = [
    (0x00, DA_INST IF_RRE ''LPEBR''), (0x01, DA_INST IF_RRE ''LNEBR''),
    (0x02, DA_INST IF_RRE ''LTEBR''), (0x03, DA_INST IF_RRE ''LCEBR''),
    (0x04, DA_INST IF_RRE ''LDEBR''), (0x05, DA_INST IF_RRE ''LXDBR''),
    (0x06, DA_INST IF_RRE ''LXEBR''), (0x07, DA_INST IF_RRE ''MXDBR''),
    (0x08, DA_INST IF_RRE ''KEBR''), (0x09, DA_INST IF_RRE ''CEBR''),
    (0x0A, DA_INST IF_RRE ''AEBR''), (0x0B, DA_INST IF_RRE ''SEBR''),
    (0x0C, DA_INST IF_RRE ''MDEBR''), (0x0D, DA_INST IF_RRE ''DEBR''),
    (0x0E, DA_INST IF_RRF1 ''MAEBR''), (0x0F, DA_INST IF_RRF1 ''MSEBR''),
    (0x10, DA_INST IF_RRE ''LPDBR''), (0x11, DA_INST IF_RRE ''LNDBR''),
    (0x12, DA_INST IF_RRE ''LTDBR''), (0x13, DA_INST IF_RRE ''LCDBR''),
    (0x14, DA_INST IF_RRE ''SQEBR''), (0x15, DA_INST IF_RRE ''SQDBR''),
    (0x16, DA_INST IF_RRE ''SQXBR''), (0x17, DA_INST IF_RRE ''MEEBR''),
    (0x18, DA_INST IF_RRE ''KDBR''), (0x19, DA_INST IF_RRE ''CDBR''),
    (0x1A, DA_INST IF_RRE ''ADBR''), (0x1B, DA_INST IF_RRE ''SDBR''),
    (0x1C, DA_INST IF_RRE ''MDBR''), (0x1D, DA_INST IF_RRE ''DDBR''),
    (0x1E, DA_INST IF_RRF1 ''MADBR''), (0x1F, DA_INST IF_RRF1 ''MSDBR''),
    (0x24, DA_INST IF_RRE ''LDER''), (0x25, DA_INST IF_RRE ''LXDR''),
    (0x26, DA_INST IF_RRE ''LXER''), (0x2E, DA_INST IF_RRF1 ''MAER''),
    (0x2F, DA_INST IF_RRF1 ''MSER''), (0x36, DA_INST IF_RRE ''SQXR''),
    (0x37, DA_INST IF_RRE ''MEER''), (0x38, DA_INST IF_RRF1 ''MAYLR''),
    (0x39, DA_INST IF_RRF1 ''MYLR''), (0x3A, DA_INST IF_RRF1 ''MAYR''),
    (0x3B, DA_INST IF_RRF1 ''MYR''), (0x3C, DA_INST IF_RRF1 ''MAYHR''),
    (0x3D, DA_INST IF_RRF1 ''MYHR''), (0x3E, DA_INST IF_RRF1 ''MADR''),
    (0x3F, DA_INST IF_RRF1 ''MSDR''), (0x40, DA_INST IF_RRE ''LPXBR''),
    (0x41, DA_INST IF_RRE ''LNXBR''), (0x42, DA_INST IF_RRE ''LTXBR''),
    (0x43, DA_INST IF_RRE ''LCXBR''), (0x44, DA_INST IF_RRE ''LEDBR''),
    (0x45, DA_INST IF_RRE ''LDXBR''), (0x46, DA_INST IF_RRE ''LEXBR''),
    (0x47, DA_INST IF_RRF2 ''FIXBR''), (0x48, DA_INST IF_RRE ''KXBR''),
    (0x49, DA_INST IF_RRE ''CXBR''), (0x4A, DA_INST IF_RRE ''AXBR''),
    (0x4B, DA_INST IF_RRE ''SXBR''), (0x4C, DA_INST IF_RRE ''MXBR''),
    (0x4D, DA_INST IF_RRE ''DXBR''), (0x50, DA_INST IF_RRF2 ''TBEDR''),
    (0x51, DA_INST IF_RRF2 ''TBDR''), (0x53, DA_INST IF_RRF3 ''DIEBR''),
    (0x57, DA_INST IF_RRF2 ''FIEBR''), (0x58, DA_INST IF_RRE ''THDER''),
    (0x59, DA_INST IF_RRE ''THDR''), (0x5B, DA_INST IF_RRF3 ''DIDBR''),
    (0x5F, DA_INST IF_RRF2 ''FIDBR''), (0x60, DA_INST IF_RRE ''LPXR''),
    (0x61, DA_INST IF_RRE ''LNXR''), (0x62, DA_INST IF_RRE ''LTXR''),
    (0x63, DA_INST IF_RRE ''LCXR''), (0x65, DA_INST IF_RRE ''LXR''),
    (0x66, DA_INST IF_RRE ''LEXR''), (0x67, DA_INST IF_RRE ''FIXR''),
    (0x69, DA_INST IF_RRE ''CXR''), (0x70, DA_INST IF_RRE ''LPDFR''),
    (0x71, DA_INST IF_RRE ''LNDFR''), (0x72, DA_INST IF_RRF1 ''CPSDR''),
    (0x73, DA_INST IF_RRE ''LCDFR''), (0x74, DA_INST IF_RRE ''LZER''),
    (0x75, DA_INST IF_RRE ''LZDR''), (0x76, DA_INST IF_RRE ''LZXR''),
    (0x77, DA_INST IF_RRE ''FIER''), (0x7F, DA_INST IF_RRE ''FIDR'')]"

definition l2_b3_high :: "(nat \<times> disassm_instruction) list" where
  "l2_b3_high = [
    (0x84, DA_INST IF_RRE ''SFPC''), (0x85, DA_INST IF_RRE ''SFASR''),
    (0x8C, DA_INST IF_RRE ''EFPC''), (0x94, DA_INST IF_RRE ''CEFBR''),
    (0x95, DA_INST IF_RRE ''CDFBR''), (0x96, DA_INST IF_RRE ''CXFBR''),
    (0x98, DA_INST IF_RRF2 ''CFEBR''), (0x99, DA_INST IF_RRF2 ''CFDBR''),
    (0x9A, DA_INST IF_RRF2 ''CFXBR''), (0xA4, DA_INST IF_RRE ''CEGBR''),
    (0xA5, DA_INST IF_RRE ''CDGBR''), (0xA6, DA_INST IF_RRE ''CXGBR''),
    (0xA8, DA_INST IF_RRF2 ''CGEBR''), (0xA9, DA_INST IF_RRF2 ''CGDBR''),
    (0xAA, DA_INST IF_RRF2 ''CGXBR''), (0xB4, DA_INST IF_RRE ''CEFR''),
    (0xB5, DA_INST IF_RRE ''CDFR''), (0xB6, DA_INST IF_RRE ''CXFR''),
    (0xB8, DA_INST IF_RRF2 ''CFER''), (0xB9, DA_INST IF_RRF2 ''CFDR''),
    (0xBA, DA_INST IF_RRF2 ''CFXR''), (0xC1, DA_INST IF_RRE ''LDGR''),
    (0xC4, DA_INST IF_RRE ''CEGR''), (0xC5, DA_INST IF_RRE ''CDGR''),
    (0xC6, DA_INST IF_RRE ''CXGR''), (0xC8, DA_INST IF_RRF2 ''CGER''),
    (0xC9, DA_INST IF_RRF2 ''CGDR''), (0xCA, DA_INST IF_RRF2 ''CGXR''),
    (0xCD, DA_INST IF_RRE ''LGDR''), (0xD0, DA_INST IF_RRR ''MDTR''),
    (0xD1, DA_INST IF_RRR ''DDTR''), (0xD2, DA_INST IF_RRR ''ADTR''),
    (0xD3, DA_INST IF_RRR ''SDTR''), (0xD4, DA_INST IF_RRF3 ''LDETR''),
    (0xD5, DA_INST IF_RRF3 ''LEDTR''), (0xD6, DA_INST IF_RRE ''LTDTR''),
    (0xD7, DA_INST IF_RRF3 ''FIDTR''), (0xD8, DA_INST IF_RRR ''MXTR''),
    (0xD9, DA_INST IF_RRR ''DXTR''), (0xDA, DA_INST IF_RRR ''AXTR''),
    (0xDB, DA_INST IF_RRR ''SXTR''), (0xDC, DA_INST IF_RRF3 ''LXDTR''),
    (0xDD, DA_INST IF_RRF3 ''LDXTR''), (0xDE, DA_INST IF_RRE ''LTXTR''),
    (0xDF, DA_INST IF_RRF3 ''FIXTR''), (0xE0, DA_INST IF_RRE ''KDTR''),
    (0xE1, DA_INST IF_RRF2 ''CGDTR''), (0xE2, DA_INST IF_RRE ''CUDTR''),
    (0xE3, DA_INST IF_RRF3 ''CSDTR''), (0xE4, DA_INST IF_RRE ''CDTR''),
    (0xE5, DA_INST IF_RRE ''EEDTR''), (0xE7, DA_INST IF_RRE ''ESDTR''),
    (0xE8, DA_INST IF_RRE ''KXTR''), (0xE9, DA_INST IF_RRF2 ''CGXTR''),
    (0xEA, DA_INST IF_RRE ''CUXTR''), (0xEB, DA_INST IF_RRF3 ''CSXTR''),
    (0xEC, DA_INST IF_RRE ''CXTR''), (0xED, DA_INST IF_RRE ''EEXTR''),
    (0xEF, DA_INST IF_RRE ''ESXTR''), (0xF1, DA_INST IF_RRE ''CDGTR''),
    (0xF2, DA_INST IF_RRE ''CDUTR''), (0xF3, DA_INST IF_RRE ''CDSTR''),
    (0xF4, DA_INST IF_RRE ''CEDTR''), (0xF5, DA_INST IF_RRF3 ''QADTR''),
    (0xF6, DA_INST IF_RRF3 ''IEDTR''), (0xF7, DA_INST IF_RRF3 ''RRDTR''),
    (0xF9, DA_INST IF_RRE ''CXGTR''), (0xFA, DA_INST IF_RRE ''CXUTR''),
    (0xFB, DA_INST IF_RRE ''CXSTR''), (0xFC, DA_INST IF_RRE ''CEXTR''),
    (0xFD, DA_INST IF_RRF3 ''QAXTR''), (0xFE, DA_INST IF_RRF3 ''IEXTR''),
    (0xFF, DA_INST IF_RRF3 ''RRXTR'')]"

definition l2_b3 :: "(nat \<times> disassm_instruction) list" where
  "l2_b3 = l2_b3_low @ l2_b3_high"

definition l2_b9 :: "(nat \<times> disassm_instruction) list" where
  "l2_b9 = [
    (0x00, DA_INST IF_RRE ''LPGR''), (0x01, DA_INST IF_RRE ''LNGR''),
    (0x02, DA_INST IF_RRE ''LTGR''), (0x03, DA_INST IF_RRE ''LCGR''),
    (0x04, DA_INST IF_RRE ''LGR''), (0x05, DA_INST IF_RRE ''LURAG''),
    (0x06, DA_INST IF_RRE ''LGBR''), (0x07, DA_INST IF_RRE ''LGHR''),
    (0x08, DA_INST IF_RRE ''AGR''), (0x09, DA_INST IF_RRE ''SGR''),
    (0x0A, DA_INST IF_RRE ''ALGR''), (0x0B, DA_INST IF_RRE ''SLGR''),
    (0x0C, DA_INST IF_RRE ''MSGR''), (0x0D, DA_INST IF_RRE ''DSGR''),
    (0x0E, DA_INST IF_RRE ''EREGG''), (0x0F, DA_INST IF_RRE ''LRVGR''),
    (0x10, DA_INST IF_RRE ''LPGFR''), (0x11, DA_INST IF_RRE ''LNGFR''),
    (0x12, DA_INST IF_RRE ''LTGFR''), (0x13, DA_INST IF_RRE ''LCGFR''),
    (0x14, DA_INST IF_RRE ''LGFR''), (0x16, DA_INST IF_RRE ''LLGFR''),
    (0x17, DA_INST IF_RRE ''LLGTR''), (0x18, DA_INST IF_RRE ''AGFR''),
    (0x19, DA_INST IF_RRE ''SGFR''), (0x1A, DA_INST IF_RRE ''ALGFR''),
    (0x1B, DA_INST IF_RRE ''SLGFR''), (0x1C, DA_INST IF_RRE ''MSGFR''),
    (0x1D, DA_INST IF_RRE ''DSGFR''), (0x1E, DA_INST IF_RRE ''KMAC''),
    (0x1F, DA_INST IF_RRE ''LRVR''), (0x20, DA_INST IF_RRE ''CGR''),
    (0x21, DA_INST IF_RRE ''CLGR''), (0x25, DA_INST IF_RRE ''STURG''),
    (0x26, DA_INST IF_RRE ''LBR''), (0x27, DA_INST IF_RRE ''LHR''), (0x2E, DA_INST IF_RRE ''KM''),
    (0x2F, DA_INST IF_RRE ''KMC''), (0x30, DA_INST IF_RRE ''CGFR''),
    (0x31, DA_INST IF_RRE ''CLGFR''), (0x3E, DA_INST IF_RRE ''KIMD''),
    (0x3F, DA_INST IF_RRE ''KLMD''), (0x46, DA_INST IF_RRE ''BCTGR''),
    (0x60, DA_INST IF_RRF2 ''CGRT''), (0x61, DA_INST IF_RRF2 ''CLGRT''),
    (0x72, DA_INST IF_RRF2 ''CRT''), (0x73, DA_INST IF_RRF2 ''CLRT''),
    (0x80, DA_INST IF_RRE ''NGR''), (0x81, DA_INST IF_RRE ''OGR''), (0x82, DA_INST IF_RRE ''XGR''),
    (0x83, DA_INST IF_RRE ''FLOGR''), (0x84, DA_INST IF_RRE ''LLGCR''),
    (0x85, DA_INST IF_RRE ''LLGHR''), (0x86, DA_INST IF_RRE ''MLGR''),
    (0x87, DA_INST IF_RRE ''DLGR''), (0x88, DA_INST IF_RRE ''ALCGR''),
    (0x89, DA_INST IF_RRE ''SLBGR''), (0x8A, DA_INST IF_RRE ''CSPG''),
    (0x8D, DA_INST IF_RRE ''EPSW''), (0x8E, DA_INST IF_RRF3 ''IDTE''),
    (0x90, DA_INST IF_RRF2 ''TRTT''), (0x91, DA_INST IF_RRF2 ''TRTO''),
    (0x92, DA_INST IF_RRF2 ''TROT''), (0x93, DA_INST IF_RRF2 ''TROO''),
    (0x94, DA_INST IF_RRE ''LLCR''), (0x95, DA_INST IF_RRE ''LLHR''),
    (0x96, DA_INST IF_RRE ''MLR''), (0x97, DA_INST IF_RRE ''DLR''),
    (0x98, DA_INST IF_RRE ''ALCR''), (0x99, DA_INST IF_RRE ''SLBR''),
    (0x9A, DA_INST IF_RRE ''EPAIR''), (0x9B, DA_INST IF_RRE ''ESAIR''),
    (0x9D, DA_INST IF_RRE ''ESEA''), (0x9E, DA_INST IF_RRE ''PTI''),
    (0x9F, DA_INST IF_RRE ''SSAIR''), (0xA2, DA_INST IF_RRE ''PTF''),
    (0xAA, DA_INST IF_RRF3 ''LPTEA''), (0xAF, DA_INST IF_RRE ''PFMF''),
    (0xB0, DA_INST IF_RRF2 ''CU14''), (0xB1, DA_INST IF_RRF2 ''CU24''),
    (0xB2, DA_INST IF_RRE ''CU41''), (0xB3, DA_INST IF_RRE ''CU42''),
    (0xBD, DA_INST IF_RRF2 ''TRTRE''), (0xBE, DA_INST IF_RRE ''SRSTU''),
    (0xBF, DA_INST IF_RRF2 ''TRTE'')]"

definition l2_c0 :: "(nat \<times> disassm_instruction) list" where
  "l2_c0 = [
    (0x0, DA_INST IF_RIL1 ''LARL''), (0x1, DA_INST IF_RIL1 ''LGFI''),
    (0x4, DA_INST IF_RIL2 ''BRCL''), (0x5, DA_INST IF_RIL1 ''BRASL''),
    (0x6, DA_INST IF_RIL1 ''XIHF''), (0x7, DA_INST IF_RIL1 ''XILF''),
    (0x8, DA_INST IF_RIL1 ''IIHF''), (0x9, DA_INST IF_RIL1 ''IILF''),
    (0xA, DA_INST IF_RIL1 ''NIHF''), (0xB, DA_INST IF_RIL1 ''NILF''),
    (0xC, DA_INST IF_RIL1 ''OIHF''), (0xD, DA_INST IF_RIL1 ''OILF''),
    (0xE, DA_INST IF_RIL1 ''LLIHF''), (0xF, DA_INST IF_RIL1 ''LLILF'')]"

definition l2_c2 :: "(nat \<times> disassm_instruction) list" where
  "l2_c2 = [
    (0x0, DA_INST IF_RIL1 ''MSGFI''), (0x1, DA_INST IF_RIL1 ''MSFI''),
    (0x4, DA_INST IF_RIL1 ''SLGFI''), (0x5, DA_INST IF_RIL1 ''SLFI''),
    (0x8, DA_INST IF_RIL1 ''AGFI''), (0x9, DA_INST IF_RIL1 ''AFI''),
    (0xA, DA_INST IF_RIL1 ''ALGFI''), (0xB, DA_INST IF_RIL1 ''ALFI''),
    (0xC, DA_INST IF_RIL1 ''CGFI''), (0xD, DA_INST IF_RIL1 ''CFI''),
    (0xE, DA_INST IF_RIL1 ''CLGFI''), (0xF, DA_INST IF_RIL1 ''CLFI'')]"

definition l2_c4 :: "(nat \<times> disassm_instruction) list" where
  "l2_c4 = [
    (0x2, DA_INST IF_RIL1 ''LLHRL''), (0x4, DA_INST IF_RIL1 ''LGHRL''),
    (0x5, DA_INST IF_RIL1 ''LHRL''), (0x6, DA_INST IF_RIL1 ''LLGHRL''),
    (0x7, DA_INST IF_RIL1 ''STHRL''), (0x8, DA_INST IF_RIL1 ''LGRL''),
    (0xB, DA_INST IF_RIL1 ''STGRL''), (0xC, DA_INST IF_RIL1 ''LGFRL''),
    (0xD, DA_INST IF_RIL1 ''LRL''), (0xE, DA_INST IF_RIL1 ''LLGFRL''),
    (0xF, DA_INST IF_RIL1 ''STRL'')]"

definition l2_c6 :: "(nat \<times> disassm_instruction) list" where
  "l2_c6 = [
    (0x0, DA_INST IF_RIL1 ''EXRL''), (0x2, DA_INST IF_RIL2 ''PFDRL''),
    (0x4, DA_INST IF_RIL1 ''CGHRL''), (0x5, DA_INST IF_RIL1 ''CHRL''),
    (0x6, DA_INST IF_RIL1 ''CLGHRL''), (0x7, DA_INST IF_RIL1 ''CLHRL''),
    (0x8, DA_INST IF_RIL1 ''CGRL''), (0xA, DA_INST IF_RIL1 ''CLGRL''),
    (0xC, DA_INST IF_RIL1 ''CGFRL''), (0xD, DA_INST IF_RIL1 ''CRL''),
    (0xE, DA_INST IF_RIL1 ''CLGFRL''), (0xF, DA_INST IF_RIL1 ''CLRL'')]"

definition l2_c8 :: "(nat \<times> disassm_instruction) list" where
  "l2_c8 = [
    (0x0, DA_INST IF_SSF ''MVCOS''), (0x1, DA_INST IF_SSF ''ECTG''),
    (0x2, DA_INST IF_SSF ''CSST'')]"

definition l2_e3 :: "(nat \<times> disassm_instruction) list" where
  "l2_e3 = [
    (0x02, DA_INST IF_RXY ''LTG''), (0x03, DA_INST IF_RXY ''LRAG''), (0x04, DA_INST IF_RXY ''LG''),
    (0x06, DA_INST IF_RXY ''CVBY''), (0x08, DA_INST IF_RXY ''AG''), (0x09, DA_INST IF_RXY ''SG''),
    (0x0A, DA_INST IF_RXY ''ALG''), (0x0B, DA_INST IF_RXY ''SLG''), (0x0C, DA_INST IF_RXY ''MSG''),
    (0x0D, DA_INST IF_RXY ''DSG''), (0x0E, DA_INST IF_RXY ''CVBG''),
    (0x0F, DA_INST IF_RXY ''LRVG''), (0x12, DA_INST IF_RXY ''LT''),
    (0x13, DA_INST IF_RXY ''LRAY''), (0x14, DA_INST IF_RXY ''LGF''),
    (0x15, DA_INST IF_RXY ''LGH''), (0x16, DA_INST IF_RXY ''LLGF''),
    (0x17, DA_INST IF_RXY ''LLGT''), (0x18, DA_INST IF_RXY ''AGF''),
    (0x19, DA_INST IF_RXY ''SGF''), (0x1A, DA_INST IF_RXY ''ALGF''),
    (0x1B, DA_INST IF_RXY ''SLGF''), (0x1C, DA_INST IF_RXY ''MSGF''),
    (0x1D, DA_INST IF_RXY ''DSGF''), (0x1E, DA_INST IF_RXY ''LRV''),
    (0x1F, DA_INST IF_RXY ''LRVH''), (0x20, DA_INST IF_RXY ''CG''), (0x21, DA_INST IF_RXY ''CLG''),
    (0x24, DA_INST IF_RXY ''STG''), (0x26, DA_INST IF_RXY ''CVDY''),
    (0x2E, DA_INST IF_RXY ''CVDG''), (0x2F, DA_INST IF_RXY ''STRVG''),
    (0x30, DA_INST IF_RXY ''CGF''), (0x31, DA_INST IF_RXY ''CLGF''),
    (0x32, DA_INST IF_RXY ''LTGF''), (0x34, DA_INST IF_RXY ''CGH''),
    (0x36, DA_INST IF_RXY ''PFD''), (0x3E, DA_INST IF_RXY ''STRV''),
    (0x3F, DA_INST IF_RXY ''STRVH''), (0x46, DA_INST IF_RXY ''BCTG''),
    (0x50, DA_INST IF_RXY ''STY''), (0x51, DA_INST IF_RXY ''MSY''), (0x54, DA_INST IF_RXY ''NY''),
    (0x55, DA_INST IF_RXY ''CLY''), (0x56, DA_INST IF_RXY ''OY''), (0x57, DA_INST IF_RXY ''XY''),
    (0x58, DA_INST IF_RXY ''LY''), (0x59, DA_INST IF_RXY ''CY''), (0x5A, DA_INST IF_RXY ''AY''),
    (0x5B, DA_INST IF_RXY ''SY''), (0x5C, DA_INST IF_RXY ''MFY''), (0x5E, DA_INST IF_RXY ''ALY''),
    (0x5F, DA_INST IF_RXY ''SLY''), (0x70, DA_INST IF_RXY ''STHY''),
    (0x71, DA_INST IF_RXY ''LAY''), (0x72, DA_INST IF_RXY ''STCY''),
    (0x73, DA_INST IF_RXY ''ICY''), (0x75, DA_INST IF_RXY ''LAEY''), (0x76, DA_INST IF_RXY ''LB''),
    (0x77, DA_INST IF_RXY ''LGB''), (0x78, DA_INST IF_RXY ''LHY''), (0x79, DA_INST IF_RXY ''CHY''),
    (0x7A, DA_INST IF_RXY ''AHY''), (0x7B, DA_INST IF_RXY ''SHY''), (0x7C, DA_INST IF_RXY ''MHY''),
    (0x80, DA_INST IF_RXY ''NG''), (0x81, DA_INST IF_RXY ''OG''), (0x82, DA_INST IF_RXY ''XG''),
    (0x86, DA_INST IF_RXY ''MLG''), (0x87, DA_INST IF_RXY ''DLG''),
    (0x88, DA_INST IF_RXY ''ALCG''), (0x89, DA_INST IF_RXY ''SLBG''),
    (0x8E, DA_INST IF_RXY ''STPQ''), (0x8F, DA_INST IF_RXY ''LPQ''),
    (0x90, DA_INST IF_RXY ''LLGC''), (0x91, DA_INST IF_RXY ''LLGH''),
    (0x94, DA_INST IF_RXY ''LLC''), (0x95, DA_INST IF_RXY ''LLH''), (0x96, DA_INST IF_RXY ''ML''),
    (0x97, DA_INST IF_RXY ''DL''), (0x98, DA_INST IF_RXY ''ALC''), (0x99, DA_INST IF_RXY ''SLB'')]"

definition l2_e5 :: "(nat \<times> disassm_instruction) list" where
  "l2_e5 = [
    (0x00, DA_INST IF_SSE ''LASP''), (0x01, DA_INST IF_SSE ''TPROT''),
    (0x02, DA_INST IF_SSE ''STRAG''), (0x0E, DA_INST IF_SSE ''MVCSK''),
    (0x0F, DA_INST IF_SSE ''MVCDK''), (0x44, DA_INST IF_SIL ''MVHHI''),
    (0x48, DA_INST IF_SIL ''MVGHI''), (0x4C, DA_INST IF_SIL ''MVHI''),
    (0x54, DA_INST IF_SIL ''CHHSI''), (0x55, DA_INST IF_SIL ''CLHHSI''),
    (0x58, DA_INST IF_SIL ''CGHSI''), (0x59, DA_INST IF_SIL ''CLGHSI''),
    (0x5C, DA_INST IF_SIL ''CHSI''), (0x5D, DA_INST IF_SIL ''CLFHSI'')]"

definition l2_eb :: "(nat \<times> disassm_instruction) list" where
  "l2_eb = [
    (0x04, DA_INST IF_RSY1 ''LMG''), (0x0A, DA_INST IF_RSY1 ''SRAG''),
    (0x0B, DA_INST IF_RSY1 ''SLAG''), (0x0C, DA_INST IF_RSY1 ''SRLG''),
    (0x0D, DA_INST IF_RSY1 ''SLLG''), (0x0F, DA_INST IF_RSY1 ''TRACG''),
    (0x14, DA_INST IF_RSY1 ''CSY''), (0x1C, DA_INST IF_RSY1 ''RLLG''),
    (0x1D, DA_INST IF_RSY1 ''RLL''), (0x20, DA_INST IF_RSY2 ''CLMH''),
    (0x21, DA_INST IF_RSY2 ''CLMY''), (0x24, DA_INST IF_RSY1 ''STMG''),
    (0x25, DA_INST IF_RSY1 ''STCTG''), (0x26, DA_INST IF_RSY1 ''STMH''),
    (0x2C, DA_INST IF_RSY2 ''STCMH''), (0x2D, DA_INST IF_RSY2 ''STCMY''),
    (0x2F, DA_INST IF_RSY1 ''LCTLG''), (0x30, DA_INST IF_RSY1 ''CSG''),
    (0x31, DA_INST IF_RSY1 ''CDSY''), (0x3E, DA_INST IF_RSY1 ''CDSG''),
    (0x44, DA_INST IF_RSY1 ''BXHG''), (0x45, DA_INST IF_RSY1 ''BXLEG''),
    (0x4C, DA_INST IF_RSY1 ''ECAG''), (0x51, DA_INST IF_SIY ''TMY''),
    (0x52, DA_INST IF_SIY ''MVIY''), (0x54, DA_INST IF_SIY ''NIY''),
    (0x55, DA_INST IF_SIY ''CLIY''), (0x56, DA_INST IF_SIY ''OIY''),
    (0x57, DA_INST IF_SIY ''XIY''), (0x6A, DA_INST IF_SIY ''ASI''),
    (0x6E, DA_INST IF_SIY ''ALSI''), (0x80, DA_INST IF_RSY2 ''ICMH''),
    (0x81, DA_INST IF_RSY2 ''ICMY''), (0x8E, DA_INST IF_RSY1 ''MVCLU''),
    (0x8F, DA_INST IF_RSY1 ''CLCLU''), (0x90, DA_INST IF_RSY1 ''STMY''),
    (0x96, DA_INST IF_RSY1 ''LMH''), (0x98, DA_INST IF_RSY1 ''LMY''),
    (0x9A, DA_INST IF_RSY1 ''LAMY''), (0x9B, DA_INST IF_RSY1 ''STAMY''),
    (0xC0, DA_INST IF_RSL ''TP'')]"

definition l2_ec :: "(nat \<times> disassm_instruction) list" where
  "l2_ec = [
    (0x44, DA_INST IF_RIE ''BRXHG''), (0x45, DA_INST IF_RIE ''BRXLG''),
    (0x54, DA_INST IF_RIE ''RNSBG''), (0x55, DA_INST IF_RIE ''RISBG''),
    (0x56, DA_INST IF_RIE ''ROSBG''), (0x57, DA_INST IF_RIE ''RXSBG''),
    (0x64, DA_INST IF_RIE ''CGRJ''), (0x65, DA_INST IF_RIE ''CLGRJ''),
    (0x70, DA_INST IF_RIE ''CGIT''), (0x71, DA_INST IF_RIE ''CLGIT''),
    (0x72, DA_INST IF_RIE ''CIT''), (0x73, DA_INST IF_RIE ''CLFIT''),
    (0x76, DA_INST IF_RIE ''CRJ''), (0x77, DA_INST IF_RIE ''CLRJ''),
    (0x7C, DA_INST IF_RIE ''CGIJ''), (0x7D, DA_INST IF_RIE ''CLGIJ''),
    (0x7E, DA_INST IF_RIE ''CIJ''), (0x7F, DA_INST IF_RIE ''CLIJ''),
    (0xE4, DA_INST IF_RRS ''CGRB''), (0xE5, DA_INST IF_RRS ''CLGRB''),
    (0xF6, DA_INST IF_RRS ''CRB''), (0xF7, DA_INST IF_RRS ''CLRB''),
    (0xFC, DA_INST IF_RIS ''CGIB''), (0xFD, DA_INST IF_RIS ''CLGIB'')]"

definition l2_ed :: "(nat \<times> disassm_instruction) list" where
  "l2_ed = [
    (0x04, DA_INST IF_RXE ''LDEB''), (0x05, DA_INST IF_RXE ''LXDB''),
    (0x06, DA_INST IF_RXE ''LXEB''), (0x07, DA_INST IF_RXE ''MXDB''),
    (0x08, DA_INST IF_RXE ''KEB''), (0x09, DA_INST IF_RXE ''CEB''), (0x0A, DA_INST IF_RXE ''AEB''),
    (0x0B, DA_INST IF_RXE ''SEB''), (0x0C, DA_INST IF_RXE ''MDEB''),
    (0x0D, DA_INST IF_RXE ''DEB''), (0x0E, DA_INST IF_RXE ''MAEB''),
    (0x0F, DA_INST IF_RXE ''MSEB''), (0x10, DA_INST IF_RXE ''TCEB''),
    (0x11, DA_INST IF_RXE ''TCDB''), (0x12, DA_INST IF_RXE ''TCXB''),
    (0x14, DA_INST IF_RXE ''SQEB''), (0x15, DA_INST IF_RXE ''SQDB''),
    (0x17, DA_INST IF_RXE ''MEEB''), (0x18, DA_INST IF_RXE ''KDB''),
    (0x19, DA_INST IF_RXE ''CDB''), (0x1A, DA_INST IF_RXE ''ADB''), (0x1B, DA_INST IF_RXE ''SDB''),
    (0x1C, DA_INST IF_RXE ''MDB''), (0x1D, DA_INST IF_RXE ''DDB''),
    (0x1E, DA_INST IF_RXF ''MADB''), (0x1F, DA_INST IF_RXF ''MSDB''),
    (0x24, DA_INST IF_RXE ''LDE''), (0x25, DA_INST IF_RXE ''LXD''), (0x26, DA_INST IF_RXE ''LXE''),
    (0x2E, DA_INST IF_RXF ''MAE''), (0x2F, DA_INST IF_RXF ''MSE''), (0x34, DA_INST IF_RXE ''SQE''),
    (0x35, DA_INST IF_RXE ''SQD''), (0x37, DA_INST IF_RXE ''MEE''),
    (0x38, DA_INST IF_RXF ''MAYL''), (0x39, DA_INST IF_RXF ''MYL''),
    (0x3A, DA_INST IF_RXF ''MAY''), (0x3B, DA_INST IF_RXF ''MY''), (0x3C, DA_INST IF_RXF ''MAYH''),
    (0x3D, DA_INST IF_RXF ''MYH''), (0x3E, DA_INST IF_RXF ''MAD''), (0x3F, DA_INST IF_RXF ''MSD''),
    (0x40, DA_INST IF_RXF ''SLDT''), (0x41, DA_INST IF_RXF ''SRDT''),
    (0x48, DA_INST IF_RXF ''SLXT''), (0x49, DA_INST IF_RXF ''SRXT''),
    (0x50, DA_INST IF_RXE ''TDCET''), (0x51, DA_INST IF_RXE ''TDGET''),
    (0x54, DA_INST IF_RXE ''TDCDT''), (0x55, DA_INST IF_RXE ''TDGDT''),
    (0x58, DA_INST IF_RXE ''TDCXT''), (0x59, DA_INST IF_RXE ''TDGXT''),
    (0x64, DA_INST IF_RXY ''LEY''), (0x65, DA_INST IF_RXY ''LDY''),
    (0x66, DA_INST IF_RXY ''STEY''), (0x67, DA_INST IF_RXY ''STDY'')]"

definition l1_low :: "(nat \<times> disassm_instruction) list" where
  "l1_low = [
    (0x01, DA_INST_TBL 256 l2_01 8 8), (0x04, DA_INST IF_RR ''SPM''),
    (0x05, DA_INST IF_RR ''BALR''), (0x06, DA_INST IF_RR ''BCTR''),
    (0x07, DA_INST IF_RR_MASK ''BCR''), (0x0A, DA_INST IF_I ''SVC''),
    (0x0B, DA_INST IF_RR ''BSM''), (0x0C, DA_INST IF_RR ''BASSM''), (0x0D, DA_INST IF_RR ''BASR''),
    (0x0E, DA_INST IF_RR ''MVCL''), (0x0F, DA_INST IF_RR ''CLCL''), (0x10, DA_INST IF_RR ''LPR''),
    (0x11, DA_INST IF_RR ''LNR''), (0x12, DA_INST IF_RR ''LTR''), (0x13, DA_INST IF_RR ''LCR''),
    (0x14, DA_INST IF_RR ''NR''), (0x15, DA_INST IF_RR ''CLR''), (0x16, DA_INST IF_RR ''OR''),
    (0x17, DA_INST IF_RR ''XR''), (0x18, DA_INST IF_RR ''LR''), (0x19, DA_INST IF_RR ''CR''),
    (0x1A, DA_INST IF_RR ''AR''), (0x1B, DA_INST IF_RR ''SR''), (0x1C, DA_INST IF_RR ''MR''),
    (0x1D, DA_INST IF_RR ''DR''), (0x1E, DA_INST IF_RR ''ALR''), (0x1F, DA_INST IF_RR ''SLR''),
    (0x20, DA_INST IF_RR ''LPDR''), (0x21, DA_INST IF_RR ''LNDR''), (0x22, DA_INST IF_RR ''LTDR''),
    (0x23, DA_INST IF_RR ''LCDR''), (0x24, DA_INST IF_RR ''HDR''), (0x25, DA_INST IF_RR ''LDXR''),
    (0x26, DA_INST IF_RR ''MXR''), (0x27, DA_INST IF_RR ''MXDR''), (0x28, DA_INST IF_RR ''LDR''),
    (0x29, DA_INST IF_RR ''CDR''), (0x2A, DA_INST IF_RR ''ADR''), (0x2B, DA_INST IF_RR ''SDR''),
    (0x2C, DA_INST IF_RR ''MDR''), (0x2D, DA_INST IF_RR ''DDR''), (0x2E, DA_INST IF_RR ''AWR''),
    (0x2F, DA_INST IF_RR ''SWR''), (0x30, DA_INST IF_RR ''LPER''), (0x31, DA_INST IF_RR ''LNER''),
    (0x32, DA_INST IF_RR ''LTER''), (0x33, DA_INST IF_RR ''LCER''), (0x34, DA_INST IF_RR ''HER''),
    (0x35, DA_INST IF_RR ''LEDR''), (0x36, DA_INST IF_RR ''AXR''), (0x37, DA_INST IF_RR ''SXR''),
    (0x38, DA_INST IF_RR ''LER''), (0x39, DA_INST IF_RR ''CER''), (0x3A, DA_INST IF_RR ''AER''),
    (0x3B, DA_INST IF_RR ''SER''), (0x3C, DA_INST IF_RR ''MDER''), (0x3D, DA_INST IF_RR ''DER''),
    (0x3E, DA_INST IF_RR ''AUR''), (0x3F, DA_INST IF_RR ''SUR''), (0x40, DA_INST IF_RX ''STH''),
    (0x41, DA_INST IF_RX ''LA''), (0x42, DA_INST IF_RX ''STC''), (0x43, DA_INST IF_RX ''IC''),
    (0x44, DA_INST IF_RX ''EX''), (0x45, DA_INST IF_RX ''BAL''), (0x46, DA_INST IF_RX ''BCT''),
    (0x47, DA_INST IF_RX_MASK ''BC''), (0x48, DA_INST IF_RX ''LH''), (0x49, DA_INST IF_RX ''CH''),
    (0x4A, DA_INST IF_RX ''AH''), (0x4B, DA_INST IF_RX ''SH''), (0x4C, DA_INST IF_RX ''MH''),
    (0x4D, DA_INST IF_RX ''BAS''), (0x4E, DA_INST IF_RX ''CVD''), (0x4F, DA_INST IF_RX ''CVB''),
    (0x50, DA_INST IF_RX ''ST''), (0x51, DA_INST IF_RX ''LAE''), (0x54, DA_INST IF_RX ''N''),
    (0x55, DA_INST IF_RX ''CL''), (0x56, DA_INST IF_RX ''O''), (0x57, DA_INST IF_RX ''X''),
    (0x58, DA_INST IF_RX ''L''), (0x59, DA_INST IF_RX ''C''), (0x5A, DA_INST IF_RX ''A''),
    (0x5B, DA_INST IF_RX ''S''), (0x5C, DA_INST IF_RX ''M''), (0x5D, DA_INST IF_RX ''D''),
    (0x5E, DA_INST IF_RX ''AL''), (0x5F, DA_INST IF_RX ''SL''), (0x60, DA_INST IF_RX ''STD''),
    (0x67, DA_INST IF_RX ''MXD''), (0x68, DA_INST IF_RX ''LD''), (0x69, DA_INST IF_RX ''CD''),
    (0x6A, DA_INST IF_RX ''AD''), (0x6B, DA_INST IF_RX ''SD''), (0x6C, DA_INST IF_RX ''MD''),
    (0x6D, DA_INST IF_RX ''DD''), (0x6E, DA_INST IF_RX ''AW''), (0x6F, DA_INST IF_RX ''SW''),
    (0x70, DA_INST IF_RX ''STE''), (0x71, DA_INST IF_RX ''MS''), (0x78, DA_INST IF_RX ''LE''),
    (0x79, DA_INST IF_RX ''CE''), (0x7A, DA_INST IF_RX ''AE''), (0x7B, DA_INST IF_RX ''SE''),
    (0x7C, DA_INST IF_RX ''MDE''), (0x7D, DA_INST IF_RX ''DE''), (0x7E, DA_INST IF_RX ''AU''),
    (0x7F, DA_INST IF_RX ''SU'')]"

definition l1_high :: "(nat \<times> disassm_instruction) list" where
  "l1_high = [
    (0x80, DA_INST IF_S ''SSM''), (0x82, DA_INST IF_S ''LPSW''), (0x83, DA_INST IF_DIAG ''DIAG''),
    (0x84, DA_INST IF_RSI ''BRXH''), (0x85, DA_INST IF_RSI ''BRXLE''),
    (0x86, DA_INST IF_RS1 ''BXH''), (0x87, DA_INST IF_RS1 ''BXLE''),
    (0x88, DA_INST IF_RS1 ''SRL''), (0x89, DA_INST IF_RS1 ''SLL''), (0x8A, DA_INST IF_RS1 ''SRA''),
    (0x8B, DA_INST IF_RS1 ''SLA''), (0x8C, DA_INST IF_RS1 ''SRDL''),
    (0x8D, DA_INST IF_RS1 ''SLDL''), (0x8E, DA_INST IF_RS1 ''SRDA''),
    (0x8F, DA_INST IF_RS1 ''SLDA''), (0x90, DA_INST IF_RS1 ''STM''), (0x91, DA_INST IF_SI ''TM''),
    (0x92, DA_INST IF_SI ''MVI''), (0x93, DA_INST IF_S ''TS''), (0x94, DA_INST IF_SI ''NI''),
    (0x95, DA_INST IF_SI ''CLI''), (0x96, DA_INST IF_SI ''OI''), (0x97, DA_INST IF_SI ''XI''),
    (0x98, DA_INST IF_RS1 ''LM''), (0x99, DA_INST IF_RS1 ''TRACE''),
    (0x9A, DA_INST IF_RS1 ''LAM''), (0x9B, DA_INST IF_RS1 ''STAM''),
    (0xA5, DA_INST_TBL 16 l2_a5 4 12), (0xA7, DA_INST_TBL 16 l2_a7 4 12),
    (0xA8, DA_INST IF_RS1 ''MVCLE''), (0xA9, DA_INST IF_RS1 ''CLCLE''),
    (0xAC, DA_INST IF_SI ''STNSM''), (0xAD, DA_INST IF_SI ''STOSM''),
    (0xAE, DA_INST IF_RS1 ''SIGP''), (0xAF, DA_INST IF_SI ''MC''), (0xB1, DA_INST IF_RX ''LRA''),
    (0xB2, DA_INST_TBL 256 l2_b2 8 8), (0xB3, DA_INST_TBL 256 l2_b3 8 8),
    (0xB6, DA_INST IF_RS1 ''STCTL''), (0xB7, DA_INST IF_RS1 ''LCTL''),
    (0xB9, DA_INST_TBL 256 l2_b9 8 8), (0xBA, DA_INST IF_RS1 ''CS''),
    (0xBB, DA_INST IF_RS1 ''CDS''), (0xBD, DA_INST IF_RS2 ''CLM''),
    (0xBE, DA_INST IF_RS2 ''STCM''), (0xBF, DA_INST IF_RS2 ''ICM''),
    (0xC0, DA_INST_TBL 16 l2_c0 4 12), (0xC2, DA_INST_TBL 16 l2_c2 4 12),
    (0xC4, DA_INST_TBL 16 l2_c4 4 12), (0xC6, DA_INST_TBL 16 l2_c6 4 12),
    (0xC8, DA_INST_TBL 16 l2_c8 4 12), (0xD0, DA_INST IF_SS1 ''TRTR''),
    (0xD1, DA_INST IF_SS1 ''MVN''), (0xD2, DA_INST IF_SS1 ''MVC''), (0xD3, DA_INST IF_SS1 ''MVZ''),
    (0xD4, DA_INST IF_SS1 ''NC''), (0xD5, DA_INST IF_SS1 ''CLC''), (0xD6, DA_INST IF_SS1 ''OC''),
    (0xD7, DA_INST IF_SS1 ''XC''), (0xD9, DA_INST IF_SS4 ''MVCK''),
    (0xDA, DA_INST IF_SS4 ''MVCP''), (0xDB, DA_INST IF_SS4 ''MVCS''),
    (0xDC, DA_INST IF_SS1 ''TR''), (0xDD, DA_INST IF_SS1 ''TRT''), (0xDE, DA_INST IF_SS1 ''ED''),
    (0xDF, DA_INST IF_SS1 ''EDMK''), (0xE1, DA_INST IF_SS1 ''PKU''),
    (0xE2, DA_INST IF_SS1 ''UNPKU''), (0xE3, DA_INST_TBL 256 l2_e3 8 40),
    (0xE5, DA_INST_TBL 256 l2_e5 8 8), (0xE8, DA_INST IF_SS1 ''MVCIN''),
    (0xE9, DA_INST IF_SS1 ''PKA''), (0xEA, DA_INST IF_SS1 ''UNPKA''),
    (0xEB, DA_INST_TBL 256 l2_eb 8 40), (0xEC, DA_INST_TBL 256 l2_ec 8 40),
    (0xED, DA_INST_TBL 256 l2_ed 8 40), (0xEE, DA_INST IF_SS5 ''PLO''),
    (0xEF, DA_INST IF_SS5 ''LMD''), (0xF0, DA_INST IF_SS3 ''SRP''), (0xF1, DA_INST IF_SS2 ''MVO''),
    (0xF2, DA_INST IF_SS2 ''PACK''), (0xF3, DA_INST IF_SS2 ''UNPK''),
    (0xF8, DA_INST IF_SS2 ''ZAP''), (0xF9, DA_INST IF_SS2 ''CP''), (0xFA, DA_INST IF_SS2 ''AP''),
    (0xFB, DA_INST IF_SS2 ''SP''), (0xFC, DA_INST IF_SS2 ''MP''), (0xFD, DA_INST IF_SS2 ''DP'')]"

definition l1 :: "(nat \<times> disassm_instruction) list" where
  "l1 = l1_low @ l1_high"

end
