(* ===== verification/Format_Text.thy ===== *)
theory Format_Text
  imports Vsprintf
begin

text \<open>
  The texts of the conversions \<^verbatim>\<open>%d\<close>, \<^verbatim>\<open>%s\<close>, \<^verbatim>\<open>%-6s\<close> and
  \<^verbatim>\<open>%02X\<close>, and rules that give the text of a whole format string.
\<close>

section \<open>Decimal and hexadecimal texts\<close>

fun dec :: "nat \<Rightarrow> u8 list" where
  "dec n = (if n < 10 then [48 + of_nat n] else dec (n div 10) @ [48 + of_nat (n mod 10)])"

declare dec.simps [simp del]

definition dec_int :: "int \<Rightarrow> u8 list" where
  "dec_int i = (if i < 0 then 45 # dec (nat (- i)) else dec (nat i))"

fun hexn :: "nat \<Rightarrow> nat \<Rightarrow> u8 list" where
  "hexn 0 n = []"
| "hexn (Suc k) n = hexn k (n div 16) @ [large_digits ! (n mod 16)]"

lemma uint_of_int: "0 \<le> i \<Longrightarrow> i < 2 ^ 64 \<Longrightarrow> uint (word_of_int i :: u64) = i"
  by (subst uint_word_of_int_eq, rule take_bit_int_eq_self) simp_all

lemma sixty_four: "(2 :: int) ^ 63 < 2 ^ 64"
  by simp

lemma decimal_digits: "k < 10 \<Longrightarrow> small_digits ! k = 48 + of_nat k"
proof -
  have "list_all (\<lambda>k. small_digits ! k = 48 + of_nat k) [0..<10]" by code_simp
  then show "k < 10 \<Longrightarrow> ?thesis" by (simp add: list_all_iff)
qed

lemma tmp_digits_dec: "num \<noteq> 0 \<Longrightarrow> rev (tmp_digits small_digits num 10) = dec (unat num)"
proof (induction "unat num" arbitrary: num rule: less_induct)
  case less
  have d: "unat (num div 10) = unat num div 10" "unat (num mod 10) = unat num mod 10"
    by (simp_all add: unat_div unat_mod)
  show ?case
  proof (cases "unat num < 10")
    case True
    then have "num div 10 = 0" "unat (num mod 10) = unat num" using d by (simp_all add: unat_eq_0 [symmetric])
    with True less.prems show ?thesis
      by (subst tmp_digits.simps, subst dec.simps) (simp add: tmp_digits.simps [of _ 0] decimal_digits)
  next
    case False
    then have "num div 10 \<noteq> 0" using d(1) by (metis div_eq_0_iff unat_0 zero_neq_numeral)
    moreover have "unat (num div 10) < unat num" using False d(1) by simp
    ultimately have "rev (tmp_digits small_digits (num div 10) 10) = dec (unat num div 10)"
      using less.hyps [of "num div 10"] d(1) by simp
    with False less.prems show ?thesis
      by (subst tmp_digits.simps, subst dec.simps) (simp add: d(2) decimal_digits)
  qed
qed

lemma number_dec: "number lim v 10 (- 1) (- 1) SIGN st = Some (puts lim (dec_int (sint v)) st)"
proof -
  have f: "flag SIGN SIGN" "\<not> flag SIGN LARGE" "\<not> flag SIGN LEFT" "\<not> flag SIGN ZEROPAD" "\<not> flag SIGN PLUS"
    "\<not> flag SIGN SPACE" "\<not> flag SIGN SPECIAL"
    by (simp_all add: flag_def SIGN_def LARGE_def LEFT_def ZEROPAD_def PLUS_def SPACE_def SPECIAL_def)
  have b: "- (2 ^ 63) \<le> sint v" "sint v < 2 ^ 63" using sint_greater_eq [of v] sint_less [of v] by simp_all
  show ?thesis
  proof (cases "sint v < 0")
    case True
    have "- v = word_of_int (- sint v)" by simp
    with True b(1) have "uint (- v) = - sint v" by (metis uint_of_int neg_0_le_iff_le less_imp_le minus_le_iff neg_less_iff_less
        order_le_less_trans sixty_four)
    then have u: "unat (- v) = nat (- sint v)" by (simp only: unat_eq_nat_uint)
    have nz: "- v \<noteq> 0" using True by auto
    from True f nz show ?thesis
      by (simp add: number_def number_emit_chars emit_chars_def Let_def dec_int_def tmp_digits_dec [OF nz] u)
  next
    case False
    have "v = word_of_int (sint v)" by simp
    with False b(2) have "uint v = sint v" by (metis uint_of_int not_less less_trans sixty_four)
    then have u: "nat (sint v) = unat v" by (simp only: unat_eq_nat_uint)
    show ?thesis
    proof (cases "v = 0")
      case True
      then show ?thesis
        using f by (simp add: number_def number_emit_chars emit_chars_def Let_def dec_int_def dec.simps)
    next
      case False
      with \<open>\<not> sint v < 0\<close> f show ?thesis
        by (simp add: number_def number_emit_chars emit_chars_def Let_def dec_int_def tmp_digits_dec u)
    qed
  qed
qed

lemma hex_tmp: "unat num < 16 ^ k \<Longrightarrow>
  replicate (k - length (tmp_digits large_digits num 16)) 48 @ rev (tmp_digits large_digits num 16) = hexn k (unat num)"
proof (induction k arbitrary: num)
  case 0
  then show ?case by (simp add: unat_eq_0 tmp_digits.simps)
next
  case (Suc k)
  have lt: "unat (num div 16) < 16 ^ k"
    using Suc.prems by (simp add: unat_div less_mult_imp_div_less mult.commute)
  have z: "large_digits ! 0 = 48" by code_simp
  show ?case
  proof (cases "num = 0")
    case True
    have "hexn j 0 = replicate j 48" for j by (induction j) (simp_all add: z replicate_append_same)
    with True show ?thesis by (simp add: tmp_digits.simps)
  next
    case False
    with Suc.IH [OF lt] show ?thesis by (subst (1 2) tmp_digits.simps) (simp add: unat_div unat_mod)
  qed
qed

lemma number_hexn:
  assumes "unat v < 16 ^ k" and "0 < k"
  shows "number lim v 16 (int k) (- 1) (ZEROPAD OR LARGE) st = Some (puts lim (hexn k (unat v)) st)"
proof -
  have f: "flag (ZEROPAD OR LARGE) ZEROPAD" "flag (ZEROPAD OR LARGE) LARGE" "\<not> flag (ZEROPAD OR LARGE) LEFT"
    "\<not> flag (ZEROPAD OR LARGE) SIGN" "\<not> flag (ZEROPAD OR LARGE) SPECIAL"
    by (simp_all add: flag_def SIGN_def LARGE_def LEFT_def ZEROPAD_def SPECIAL_def)
  have z: "large_digits ! 0 = 48" by code_simp
  have h0: "hexn j 0 = replicate j 48" for j by (induction j) (simp_all add: z replicate_append_same)
  show ?thesis
  proof (cases "v = 0")
    case True
    from assms(2) obtain j where "k = Suc j" by (cases k) auto
    with True f show ?thesis
      by (simp add: number_def number_emit_chars emit_chars_def Let_def h0 replicate_append_same)
  next
    case False
    with f hex_tmp [OF assms(1)] show ?thesis
      by (simp add: number_def number_emit_chars emit_chars_def Let_def nat_diff_distrib' flip: of_nat_diff) 
  qed
qed

section \<open>Directives\<close>

lemma not_digits: "\<not> isdigit 100" "\<not> isdigit 115" "\<not> isdigit 88" "isdigit 50" "isdigit 54"
  by (simp_all add: isdigit_range)

lemma directive_d:
  "fargs st = a # as \<Longrightarrow> directive lim mem (100 # r) st
    = Ok (st\<lparr>fout := puts lim (dec_int (as_int a)) (fout st), fargs := as\<rparr>, r)"
proof -
  have q: "ascii ''hlLZzt'' = [104, 108, 76, 90, 122, 116]" by code_simp
  have "int_arg None SIGN a = scast (ucast a :: u32)"
    by (simp add: int_arg_def flag_def SIGN_def Let_def)
  moreover have "sint (scast (ucast a :: u32) :: u64) = as_int a"
    unfolding as_int_def signed_scast_eq
    by (rule signed_take_bit_int_eq_self)
      (use sint_greater_eq [of "ucast a :: u32"] sint_less [of "ucast a :: u32"] in simp_all)
  ultimately show "fargs st = a # as \<Longrightarrow> ?thesis"
    by (simp add: directive_def field_width_of_def precision_of_def qualifier_of_def q not_digits convert_def Let_def
        conv_num_def va_arg_def number_dec)
qed

lemma strnlen_cstr: "terminated s \<Longrightarrow> strnlen s (Suc (length s)) = Ok (length (cstr s))"
  by (induction s) auto

lemma take_cstr: "take (length (cstr s)) s = cstr s"
  by (induction s) auto

lemma conv_s_plain:
  assumes "fargs st = a # as" and "4096 \<le> a" and "terminated (mem a)"
  shows "conv_s lim mem (- 1) (- 1) 0 st = Ok (st\<lparr>fout := puts lim (cstr (mem a)) (fout st), fargs := as\<rparr>)"
proof -
  have a: "(a < 4096) = False" using assms(2) by (simp add: not_less)
  have f: "flag 0 LEFT = False" by (simp add: flag_def)
  have w: "nat (- 1 - int n) = 0" "nat (min (- 1) (int n) - 1 - int n) = 0" for n by simp_all
  show ?thesis
    by (simp add: conv_s_def va_arg_def assms(1) a f Let_def strnlen_cstr [OF assms(3)] w take_cstr emit_def)
qed

lemma directive_s:
  assumes "fargs st = a # as" and "4096 \<le> a" and "terminated (mem a)"
  shows "directive lim mem (115 # r) st = Ok (st\<lparr>fout := puts lim (cstr (mem a)) (fout st), fargs := as\<rparr>, r)"
proof -
  have q: "ascii ''hlLZzt'' = [104, 108, 76, 90, 122, 116]" by code_simp
  show ?thesis
    using conv_s_plain [of "st\<lparr>fargs := a # as\<rparr>" a as mem lim] assms(2,3)
    by (simp add: directive_def field_width_of_def precision_of_def qualifier_of_def q not_digits convert_def Let_def assms(1))
qed

definition pad_right :: "nat \<Rightarrow> u8 list \<Rightarrow> u8 list" where
  "pad_right n t = t @ replicate (n - length t) 32"

lemma conv_s_left6:
  assumes "fargs st = a # as" and "4096 \<le> a" and "terminated (mem a)"
  shows "conv_s lim mem 6 (- 1) LEFT st = Ok (st\<lparr>fout := puts lim (pad_right 6 (cstr (mem a))) (fout st), fargs := as\<rparr>)"
proof -
  have a: "(a < 4096) = False" using assms(2) by (simp add: not_less)
  have f: "flag LEFT LEFT = True" by (simp add: flag_def LEFT_def)
  have w: "nat (6 - int n) = 6 - n" for n by simp
  show ?thesis
    by (simp add: conv_s_def va_arg_def assms(1) a f Let_def strnlen_cstr [OF assms(3)] w take_cstr emit_def
        pad_right_def puts_append)
qed

lemma directive_left6s:
  assumes "fargs st = a # as" and "4096 \<le> a" and "terminated (mem a)"
  shows "directive lim mem (45 # 54 # 115 # r) st
    = Ok (st\<lparr>fout := puts lim (pad_right 6 (cstr (mem a))) (fout st), fargs := as\<rparr>, r)"
proof -
  have q: "ascii ''hlLZzt'' = [104, 108, 76, 90, 122, 116]" by code_simp
  show ?thesis
    using conv_s_left6 [of "st\<lparr>fargs := a # as\<rparr>" a as mem lim] assms(2,3)
    by (simp add: directive_def field_width_of_def precision_of_def qualifier_of_def q not_digits convert_def Let_def assms(1))
qed

lemma directive_0kX:
  assumes "fargs st = a # as" and "unat a < 16 ^ k" and "k = 2 \<and> c = 50 \<or> k = 6 \<and> c = 54"
  shows "directive lim mem (48 # c # 88 # r) st
    = Ok (st\<lparr>fout := puts lim (hexn k (unat a)) (fout st), fargs := as\<rparr>, r)"
proof -
  have q: "ascii ''hlLZzt'' = [104, 108, 76, 90, 122, 116]" by code_simp
  have "int_arg None (ZEROPAD OR LARGE) a = a"
  proof -
    have "unat a < 2 ^ 32" using assms(2,3) by auto
    then have "(ucast (ucast a :: u32) :: u64) = a"
      by (intro word_unat_eq_iff [THEN iffD2]) (simp add: unsigned_ucast_eq unsigned_take_bit_eq take_bit_nat_eq_self)
    then show ?thesis by (simp add: int_arg_def flag_def SIGN_def ZEROPAD_def LARGE_def Let_def)
  qed
  moreover have "number lim a 16 (int k) (- 1) (ZEROPAD OR LARGE) st' = Some (puts lim (hexn k (unat a)) st')" for st'
    by (rule number_hexn [OF assms(2)]) (use assms(3) in auto)
  ultimately show ?thesis using assms(1,3)
    by (auto simp add: directive_def field_width_of_def precision_of_def qualifier_of_def q not_digits convert_def Let_def
        conv_num_def va_arg_def)
qed

section \<open>Format strings\<close>

definition prints :: "(u64 \<Rightarrow> u8 list) \<Rightarrow> u8 list \<Rightarrow> u64 list \<Rightarrow> u8 list \<Rightarrow> bool" where
  "prints mem fmt args t \<longleftrightarrow> (\<forall>lim n st. length fmt < n \<longrightarrow> fargs st = args \<longrightarrow>
     format_loop n lim mem fmt st = Ok (st\<lparr>fout := puts lim t (fout st), fargs := []\<rparr>))"

lemma prints_end: "prints mem [0] [] []"
  by (auto simp: prints_def less_Suc_eq_0_disj dest!: less_imp_Suc_add)

lemma prints_char:
  assumes "c \<noteq> 0" and "c \<noteq> 37" and "prints mem r args t"
  shows "prints mem (c # r) args (c # t)"
  unfolding prints_def
proof (intro allI impI)
  fix lim n and st :: fmt_state
  assume n: "length (c # r) < n" and st: "fargs st = args"
  then obtain m where m: "n = Suc m" "length r < m" by (cases n) auto
  have "format_loop n lim mem (c # r) st = format_loop m lim mem r (emit lim [c] st)"
    using assms(1,2) by (simp add: m(1))
  also have "\<dots> = Ok ((emit lim [c] st)\<lparr>fout := puts lim t (fout (emit lim [c] st)), fargs := []\<rparr>)"
    using assms(3) m(2) st unfolding prints_def by (simp add: emit_def)
  finally show "format_loop n lim mem (c # r) st = Ok (st\<lparr>fout := puts lim (c # t) (fout st), fargs := []\<rparr>)"
    by (simp add: emit_def)
qed

lemma prints_directive:
  assumes "\<And>lim st. fargs st = a # args \<Longrightarrow>
      directive lim mem d st = Ok (st\<lparr>fout := puts lim u (fout st), fargs := args\<rparr>, r)"
    and "prints mem r args t"
  shows "prints mem (37 # d) (a # args) (u @ t)"
  unfolding prints_def
proof (intro allI impI)
  fix lim n and st :: fmt_state
  assume n: "length (37 # d) < n" and st: "fargs st = a # args"
  then obtain m where m: "n = Suc m" "length d < m" by (cases n) auto
  note d = assms(1) [OF st, of lim]
  from directive_length [OF d] m(2) have r: "length r < m" by simp
  have "format_loop n lim mem (37 # d) st
    = format_loop m lim mem r (st\<lparr>fout := puts lim u (fout st), fargs := args\<rparr>)"
    using d by (simp add: m(1))
  also have "\<dots> = Ok (st\<lparr>fout := puts lim t (puts lim u (fout st)), fargs := []\<rparr>)"
    using assms(2) r unfolding prints_def by simp
  finally show "format_loop n lim mem (37 # d) st = Ok (st\<lparr>fout := puts lim (u @ t) (fout st), fargs := []\<rparr>)"
    by (simp add: puts_append)
qed

lemmas prints_d = prints_directive [OF directive_d]
lemmas prints_s = prints_directive [OF directive_s]
lemmas prints_left6s = prints_directive [OF directive_left6s]
lemmas prints_02X = prints_directive [OF directive_0kX [where k = 2 and c = 50, simplified]]
lemmas prints_06X = prints_directive [OF directive_0kX [where k = 6 and c = 54, simplified]]

text \<open>The text a call leaves in its buffer.\<close>

lemma snprintf_prints:
  assumes p: "prints mem fmt args t" and size: "0 \<le> sint len" "unat len \<le> length buf" "addr \<le> addr + ucast len"
  shows "\<exists>st. snprintf mem addr buf len fmt args = Ok (length t, st) \<and> cells (fout st) = in_buffer (unat len) buf t"
proof -
  have s: "scast len = (ucast len :: u64)"
  proof -
    have "len = word_of_int (sint len)" by simp
    moreover have "sint len < 2 ^ 32" using sint_less [of len] by simp
    moreover have "uint (word_of_int (sint len) :: u32) = sint len"
      by (subst uint_word_of_int_eq, rule take_bit_int_eq_self) (use size(1) calculation(2) in simp_all)
    ultimately have "uint len = sint len" by simp
    then show ?thesis by (simp only: scast_eq ucast_eq)
  qed
  have u: "unat (ucast len :: u64) = unat len" by (simp add: unat_ucast_32_64)
  have "format_loop (Suc (length fmt)) (unat len) mem fmt \<lparr>fout = \<lparr>pos = 0, cells = buf\<rparr>, fargs = args, stores = []\<rparr>
      = bindR (Ok (t, [], [])) (\<lambda>(t, as, ss). Ok \<lparr>fout = written (unat len) buf t, fargs = as, stores = ss\<rparr>)"
    using p puts_written [OF size(2), of t "[]"] unfolding prints_def by (simp add: written_def del: format_loop.simps)
  note v = vsnprintf_text [of "ucast len", unfolded u, OF _ size(2,3) this]
  have "(ucast (ucast len :: u64) :: u32) = len"
    by (rule bit_word_eqI) (simp add: bit_simps)
  then have "0 \<le> sint (ucast (ucast len :: u64) :: u32)" using size(1) by simp
  from v [OF this] show ?thesis by (simp add: snprintf_def s)
qed

end
