(* ===== verification/Spool.thy ===== *)
theory Spool
  imports Cstring
begin

text \<open>
  Spool files: \<^verbatim>\<open>src/cp/fs/spool.c\<close> and \<^verbatim>\<open>src/cp/include/spool.h\<close>, a queue of
  variable-length records stored in a list of pages.  A page is its address and its data area;
  what a fresh page holds is the parameter \<open>fresh\<close>.  A record is a 16-bit length (big endian)
  and its bytes, records start at even offsets, and a record may run over from one page to the
  next.  The user's buffer is the list of its bytes; a read outside of it is a stop.  The mutex
  makes each operation one step.
\<close>

definition SPOOL_DATA_SIZE :: nat where "SPOOL_DATA_SIZE = 4096 - 16"

record spool_page =
  sp_addr :: u64
  sp_data :: "u8 list"

record spool_file =
  sp_list :: "spool_page list"
  recs :: u64
  npages :: u64
  frecoff :: u16
  lrecoff :: u16

definition empty_spool :: spool_file where
  "empty_spool = \<lparr>sp_list = [], recs = 0, npages = 0, frecoff = 0, lrecoff = 0\<rparr>"

text \<open>A mutex (32 bytes), a list head (16), two 64-bit and two 16-bit fields, aligned to 8.\<close>

definition sizeof_spool_file :: int where "sizeof_spool_file = 72"

definition alloc_spool :: "mem \<Rightarrow> ((errno + u64 \<times> spool_file) \<times> mem) result" where
  "alloc_spool st =
     bindR (malloc sizeof_spool_file ZONE_NORMAL st) (\<lambda>(p, st). case p of
         None \<Rightarrow> Ok (Inl ENOMEM, st)
       | Some a \<Rightarrow> Ok (Inr (a, empty_spool), st))"

definition free_spool :: "u64 \<Rightarrow> mem \<Rightarrow> mem result" where
  "free_spool a st = free (Some a) st"

definition spool_nrecs :: "spool_file \<Rightarrow> u64" where
  "spool_nrecs f = recs f"

section \<open>Bytes of a page and of the user's buffer\<close>

definition put16 :: "u16 \<Rightarrow> u8 list" where
  "put16 x = [ucast (drop_bit 8 x), ucast x]"

definition get16 :: "u8 \<Rightarrow> u8 \<Rightarrow> u16" where
  "get16 hi lo = push_bit 8 (ucast hi) OR ucast lo"

text \<open>\<^verbatim>\<open>memcpy\<close> into the data area, and out of a buffer from a possibly negative offset.\<close>

definition blit :: "u8 list \<Rightarrow> nat \<Rightarrow> u8 list \<Rightarrow> u8 list result" where
  "blit d off bs =
     (if off + length bs \<le> length d then Ok (take off d @ bs @ drop (off + length bs) d)
      else Stop OutOfBounds)"

definition slice :: "u8 list \<Rightarrow> int \<Rightarrow> nat \<Rightarrow> u8 list result" where
  "slice buf off n =
     (if n = 0 then Ok []
      else if 0 \<le> off \<and> nat off + n \<le> length buf then Ok (take n (drop (nat off) buf))
      else Stop OutOfBounds)"

definition get_page :: "spool_page list \<Rightarrow> spool_page result" where
  "get_page ps = (case ps of [] \<Rightarrow> Stop BadPointer | p # _ \<Rightarrow> Ok p)"

section \<open>Appending a record\<close>

text \<open>
  Filling up the last page: the new file, \<^verbatim>\<open>copied\<close> and \<^verbatim>\<open>loff\<close>.
\<close>

definition fill_last :: "spool_file \<Rightarrow> u8 list \<Rightarrow> u16 \<Rightarrow> (spool_file \<times> nat \<times> nat) result" where
  "fill_last f buf len =
     (let left = SPOOL_DATA_SIZE - unat (lrecoff f) in
      if npages f \<noteq> 0 \<and> 2 \<le> left
      then
        if sp_list f = [] then Stop BadPointer
        else
          let spage = last (sp_list f);
              n = min (unat len) (left - 2)
          in bindR (blit (sp_data spage) (unat (lrecoff f)) (put16 len)) (\<lambda>d.
             bindR (if left - 2 \<noteq> 0
                    then bindR (slice buf 0 n) (\<lambda>bs. blit d (unat (lrecoff f) + 2) bs)
                    else Ok d) (\<lambda>d.
               let copied = 2 + (if left - 2 \<noteq> 0 then n else 0)
               in Ok (f\<lparr>sp_list := butlast (sp_list f) @ [spage\<lparr>sp_data := d\<rparr>]\<rparr>,
                      copied, unat (lrecoff f) + copied)))
      else Ok (f, 0, 0))"

text \<open>One new page: its data and the number of bytes put into it.\<close>

definition fill_new :: "u8 list \<Rightarrow> u8 list \<Rightarrow> u16 \<Rightarrow> nat \<Rightarrow> nat \<Rightarrow> (u8 list \<times> nat) result" where
  "fill_new d buf len rlen copied =
     (if copied = 0
      then
        let n = min (unat len) (SPOOL_DATA_SIZE - 2)
        in bindR (blit d 0 (put16 len)) (\<lambda>d.
           bindR (slice buf 0 n) (\<lambda>bs.
           bindR (blit d 2 bs) (\<lambda>d. Ok (d, 2 + n))))
      else
        let n = min (rlen - copied) SPOOL_DATA_SIZE
        in bindR (slice buf (2 - int copied) n) (\<lambda>bs.
           bindR (blit d 0 bs) (\<lambda>d. Ok (d, n))))"

text \<open>
  The loop that allocates pages.  \<^verbatim>\<open>BUG_ON(rlen < copied)\<close> has been passed and no round copies
  more than is left, so \<^verbatim>\<open>rlen != copied\<close> is \<open>copied < rlen\<close>; each round copies at
  least one byte, so \<open>rlen\<close> rounds are enough.
\<close>

fun append_pages :: "nat \<Rightarrow> (u64 \<Rightarrow> u8 list) \<Rightarrow> u8 list \<Rightarrow> u16 \<Rightarrow> nat \<Rightarrow> nat \<Rightarrow> nat \<Rightarrow> buddy \<Rightarrow> spool_page list
    \<Rightarrow> (nat option \<times> buddy \<times> spool_page list) result" where
  "append_pages 0 fresh buf len rlen copied loff b new = Ok (Some loff, b, new)"
| "append_pages (Suc k) fresh buf len rlen copied loff b new =
     (if copied < rlen
      then bindR (alloc_pages 0 ZONE_NORMAL b) (\<lambda>(page, b). case page of
             None \<Rightarrow> Ok (None, b, new)
           | Some p \<Rightarrow>
               let a = page_to_addr (page_num_to_ptr p)
               in bindR (fill_new (fresh a) buf len rlen copied) (\<lambda>(d, n).
                    append_pages k fresh buf len rlen (copied + n) n b
                      (new @ [\<lparr>sp_addr = a, sp_data = d\<rparr>])))
      else Ok (Some loff, b, new))"

fun free_new_pages :: "spool_page list \<Rightarrow> buddy \<Rightarrow> buddy result" where
  "free_new_pages [] b = Ok b"
| "free_new_pages (p # ps) b = bindR (free_pages (sp_addr p) 0 b) (\<lambda>b. free_new_pages ps b)"

definition spool_append_rec :: "(u64 \<Rightarrow> u8 list) \<Rightarrow> spool_file \<Rightarrow> u8 list option \<Rightarrow> u16 \<Rightarrow> buddy
    \<Rightarrow> (errno option \<times> spool_file \<times> buddy) result" where
  "spool_append_rec fresh f buf len b =
     (case buf of
        None \<Rightarrow> Ok (Some EINVAL, f, b)
      | Some buf \<Rightarrow>
          if len = 0 then Ok (Some EINVAL, f, b)
          else
            let rlen = unat len + 2
            in bindR (BUG_ON (unat (lrecoff f) mod 2 \<noteq> 0)) (\<lambda>_.
               bindR (fill_last f buf len) (\<lambda>(f, copied, loff).
               bindR (BUG_ON (rlen < copied)) (\<lambda>_.
               bindR (append_pages rlen fresh buf len rlen copied loff b []) (\<lambda>(res, b, new). case res of
                   None \<Rightarrow> bindR (free_new_pages new b) (\<lambda>b. Ok (Some ENOMEM, f, b))
                 | Some loff \<Rightarrow>
                     let loff = (if loff mod 2 \<noteq> 0 then loff + 1 else loff)
                     in Ok (None, f\<lparr>sp_list := sp_list f @ new, npages := npages f + of_nat (length new),
                                 recs := recs f + 1, lrecoff := of_nat loff\<rparr>, b))))))"

section \<open>Taking a record\<close>

text \<open>
  The state of the loop of \<^verbatim>\<open>spool_grab_rec\<close>: the pages, \<^verbatim>\<open>copied\<close>,
  \<^verbatim>\<open>processed\<close>, \<^verbatim>\<open>offset\<close>, \<^verbatim>\<open>left\<close>, the bytes given to the user and
  the page allocator.
\<close>

record grab =
  g_list :: "spool_page list"
  g_npages :: u64
  copied :: nat
  processed :: nat
  offset :: nat
  left :: nat
  g_out :: "u8 list"
  g_mm :: buddy

definition next_page :: "grab \<Rightarrow> grab result" where
  "next_page g =
     bindR (get_page (g_list g)) (\<lambda>spage.
     bindR (free_pages (sp_addr spage) 0 (g_mm g)) (\<lambda>b.
     bindR (get_page (tl (g_list g))) (\<lambda>_.
       Ok (g\<lparr>g_list := tl (g_list g), g_npages := g_npages g - 1, g_mm := b,
            offset := 0, left := SPOOL_DATA_SIZE\<rparr>))))"

definition take_bytes :: "nat \<Rightarrow> nat \<Rightarrow> grab \<Rightarrow> grab result" where
  "take_bytes rlen reclen g =
     (if rlen \<noteq> copied g
      then
        let tmp = min (left g) (rlen - copied g)
        in bindR (get_page (g_list g)) (\<lambda>spage.
           bindR (slice (sp_data spage) (int (offset g)) tmp) (\<lambda>bs.
             Ok (g\<lparr>g_out := g_out g @ bs, processed := processed g + tmp, copied := copied g + tmp,
                  left := left g - tmp, offset := offset g + tmp\<rparr>)))
      else
        let tmp = min (left g) (reclen + 2 - processed g)
        in Ok (g\<lparr>processed := processed g + tmp, left := left g - tmp, offset := offset g + tmp\<rparr>))"

text \<open>A round takes at least one byte of the record, so its length plus 2 bounds the rounds.\<close>

fun grab_loop :: "nat \<Rightarrow> nat \<Rightarrow> nat \<Rightarrow> grab \<Rightarrow> grab result" where
  "grab_loop 0 rlen reclen g = Ok g"
| "grab_loop (Suc k) rlen reclen g =
     (if reclen + 2 \<noteq> processed g
      then bindR (if left g = 0 then next_page g else Ok g) (\<lambda>g.
           bindR (take_bytes rlen reclen g) (\<lambda>g. grab_loop k rlen reclen g))
      else Ok g)"

text \<open>
  The result: the return value, the bytes written to the user's buffer (their number is the
  new \<^verbatim>\<open>*len\<close>), the file and the page allocator.
\<close>

definition spool_grab_rec :: "spool_file \<Rightarrow> bool \<Rightarrow> u16 \<Rightarrow> buddy
    \<Rightarrow> (errno option \<times> u8 list \<times> spool_file \<times> buddy) result" where
  "spool_grab_rec f buf_null len b =
     (if len = 0 \<or> buf_null then Ok (Some EINVAL, [], f, b)
      else if recs f = 0 then Ok (Some ENOENT, [], f, b)
      else
        bindR (BUG_ON (unat (lrecoff f) mod 2 \<noteq> 0)) (\<lambda>_.
        bindR (get_page (sp_list f)) (\<lambda>spage.
        bindR (peek (sp_data spage) (unat (frecoff f))) (\<lambda>hi.
        bindR (peek (sp_data spage) (unat (frecoff f) + 1)) (\<lambda>lo.
          let reclen = unat (get16 hi lo);
              rlen = min (unat len) reclen + 2;
              g = \<lparr>g_list = sp_list f, g_npages = npages f, copied = 2, processed = 2,
                   offset = unat (frecoff f) + 2, left = SPOOL_DATA_SIZE - unat (frecoff f) - 2,
                   g_out = [], g_mm = b\<rparr>
          in bindR (grab_loop (reclen + 2) rlen reclen g) (\<lambda>g.
             let off = (if offset g mod 2 \<noteq> 0 then offset g + 1 else offset g)
             in bindR (if off = SPOOL_DATA_SIZE
                       then bindR (get_page (g_list g)) (\<lambda>spage.
                            bindR (free_pages (sp_addr spage) 0 (g_mm g)) (\<lambda>b.
                              Ok (g\<lparr>g_list := tl (g_list g), g_npages := g_npages g - 1, g_mm := b\<rparr>, 0)))
                       else Ok (g, off))
                  (\<lambda>(g, off). Ok (None, g_out g,
                     f\<lparr>sp_list := g_list g, npages := g_npages g, recs := recs f - 1,
                       frecoff := of_nat off\<rparr>, g_mm g))))))))"


section \<open>Bytes: facts\<close>

lemma get16_bytes: "get16 (ucast (drop_bit 8 x)) (ucast x) = x"
proof (rule bit_word_eqI)
  fix n assume "n < LENGTH(16)"
  then show "bit (get16 (ucast (drop_bit 8 x)) (ucast x)) n = bit x n"
    by (cases "n < 8") (auto simp: get16_def bit_simps dest: bit_imp_le_length)
qed

lemma length_put16 [simp]: "length (put16 x) = 2"
  by (simp add: put16_def)

lemma blit_Ok: "blit d off bs = Ok d' \<longleftrightarrow> off + length bs \<le> length d \<and> d' = take off d @ bs @ drop (off + length bs) d"
  by (auto simp: blit_def)

lemma slice_Ok: "slice buf off n = Ok bs \<longleftrightarrow>
    (n = 0 \<and> bs = [] \<or> 0 < n \<and> 0 \<le> off \<and> nat off + n \<le> length buf \<and> bs = take n (drop (nat off) buf))"
  by (auto simp: slice_def)

lemma slice_nat: "off + n \<le> length buf \<Longrightarrow> slice buf (int off) n = Ok (take n (drop off buf))"
  by (simp add: slice_def)

lemma slice_before: "2 < k \<Longrightarrow> 0 < n \<Longrightarrow> slice buf (2 - int k) n = Stop OutOfBounds"
  by (simp add: slice_def)

section \<open>The queue of records\<close>

text \<open>
  \<open>holds rs bs\<close>: the bytes are the records \<open>rs\<close>, each a length, its data and a byte of
  padding where the length is odd.
\<close>

fun holds :: "u8 list list \<Rightarrow> u8 list \<Rightarrow> bool" where
  "holds [] bs \<longleftrightarrow> bs = []"
| "holds (r # rs) bs \<longleftrightarrow> r \<noteq> [] \<and> length r < 65536
     \<and> (\<exists>pad rest. length pad = length r mod 2 \<and> bs = put16 (of_nat (length r)) @ r @ pad @ rest \<and> holds rs rest)"

definition stored :: "spool_page list \<Rightarrow> u8 list" where
  "stored ps = concat (map sp_data ps)"

definition pages_ok :: "spool_page list \<Rightarrow> bool" where
  "pages_ok ps \<longleftrightarrow> (\<forall>p \<in> set ps. length (sp_data p) = SPOOL_DATA_SIZE)"

text \<open>
  The bytes in use: from the first record in the first page to the end of the last in the last
  page.
\<close>

definition in_use :: "spool_file \<Rightarrow> u8 list" where
  "in_use f = (if sp_list f = [] then []
     else drop (unat (frecoff f)) (stored (butlast (sp_list f)) @ take (unat (lrecoff f)) (sp_data (last (sp_list f)))))"

definition spool_ok :: "spool_file \<Rightarrow> u8 list list \<Rightarrow> bool" where
  "spool_ok f rs \<longleftrightarrow> pages_ok (sp_list f) \<and> unat (npages f) = length (sp_list f) \<and> unat (recs f) = length rs
     \<and> even (unat (frecoff f)) \<and> even (unat (lrecoff f)) \<and> unat (lrecoff f) \<le> SPOOL_DATA_SIZE
     \<and> unat (frecoff f) < SPOOL_DATA_SIZE
     \<and> (sp_list f = [] \<longrightarrow> unat (frecoff f) = 0)
     \<and> unat (frecoff f) \<le> length (stored (butlast (sp_list f))) + (if sp_list f = [] then 0 else unat (lrecoff f))
     \<and> holds rs (in_use f)"

lemma stored_simps [simp]: "stored [] = []" "stored (p # ps) = sp_data p @ stored ps" "stored (ps @ qs) = stored ps @ stored qs"
  by (simp_all add: stored_def)

lemma length_stored: "pages_ok ps \<Longrightarrow> length (stored ps) = SPOOL_DATA_SIZE * length ps"
  by (induction ps) (auto simp: pages_ok_def)

lemma holds_append:
  "holds rs bs \<Longrightarrow> r \<noteq> [] \<Longrightarrow> length r < 65536 \<Longrightarrow> length pad = length r mod 2
    \<Longrightarrow> holds (rs @ [r]) (bs @ put16 (of_nat (length r)) @ r @ pad)"
proof (induction rs arbitrary: bs)
  case Nil
  then show ?case by auto
next
  case (Cons x rs)
  from Cons.prems(1) obtain pad' rest where x: "x \<noteq> []" "length x < 65536" "length pad' = length x mod 2"
    "bs = put16 (of_nat (length x)) @ x @ pad' @ rest" "holds rs rest" by auto
  from Cons.IH [OF x(5) Cons.prems(2-4)] x(1-4) show ?case
    by (simp, intro exI [of _ pad'] exI [of _ "rest @ put16 (of_nat (length r)) @ r @ pad"]) simp
qed


section \<open>Appending: facts\<close>

text \<open>When the bytes of a record are available where the code reads them.\<close>

definition fits :: "spool_file \<Rightarrow> u16 \<Rightarrow> bool" where
  "fits f len \<longleftrightarrow>
     (let left = SPOOL_DATA_SIZE - unat (lrecoff f) in
      if sp_list f \<noteq> [] \<and> 2 \<le> left
      then unat len + 2 \<le> left \<or> left = 2 \<and> unat len \<le> SPOOL_DATA_SIZE
      else unat len + 2 \<le> SPOOL_DATA_SIZE)"

lemma in_use_snoc:
  "sp_list f = ps @ [p] \<Longrightarrow> in_use f = drop (unat (frecoff f)) (stored ps @ take (unat (lrecoff f)) (sp_data p))"
  by (simp add: in_use_def)

text \<open>Whatever the case, the last page ends with the record, up to the aligned end offset.\<close>

definition align2 :: "nat \<Rightarrow> nat" where
  "align2 n = (if n mod 2 \<noteq> 0 then n + 1 else n)"

lemma align2: "even (align2 n)" "n \<le> align2 n" "align2 n - n = n mod 2" "even k \<Longrightarrow> n \<le> k \<Longrightarrow> align2 n \<le> k"
  unfolding align2_def by presburger+

lemma even_data_size: "even SPOOL_DATA_SIZE" "SPOOL_DATA_SIZE = 4080"
  by (simp_all add: SPOOL_DATA_SIZE_def)

text \<open>All the bytes up to the end of the last record.\<close>

definition content :: "spool_file \<Rightarrow> u8 list" where
  "content f = (if sp_list f = [] then []
     else stored (butlast (sp_list f)) @ take (unat (lrecoff f)) (sp_data (last (sp_list f))))"

lemma in_use_content: "in_use f = drop (unat (frecoff f)) (content f)"
  by (simp add: in_use_def content_def)

lemma spool_okI:
  assumes ok: "spool_ok f rs" and r: "r \<noteq> []" "length r < 65536"
    and f': "sp_list f' = ps @ [p]" "pages_ok (ps @ [p])" "unat (npages f') = length (ps @ [p])"
      "unat (recs f') = length rs + 1" "frecoff f' = frecoff f" "unat (lrecoff f') = align2 loff" "loff \<le> SPOOL_DATA_SIZE"
    and bytes: "stored ps @ take loff (sp_data p) = content f @ put16 (of_nat (length r)) @ r"
    and parity: "even loff \<longleftrightarrow> even (length r)"
  shows "spool_ok f' (rs @ [r])"
proof -
  have len: "length (sp_data p) = SPOOL_DATA_SIZE" using f'(2) by (simp add: pages_ok_def)
  have al: "align2 loff \<le> SPOOL_DATA_SIZE" using align2(4) [OF even_data_size(1) f'(7)] .
  define pad where "pad = drop loff (take (align2 loff) (sp_data p))"
  have t: "take (align2 loff) (sp_data p) = take loff (sp_data p) @ pad"
  proof -
    have "take loff (take (align2 loff) (sp_data p)) = take loff (sp_data p)" using align2(2) [of loff] by (simp add: min_def)
    then show ?thesis unfolding pad_def using append_take_drop_id [of loff "take (align2 loff) (sp_data p)"] by simp
  qed
  have pad: "length pad = length r mod 2"
    using align2(3) [of loff] al len parity by (cases "even loff") (simp_all add: pad_def odd_iff_mod_2_eq_one even_iff_mod_2_eq_zero)
  let ?X = "content f"
  have X: "unat (frecoff f) \<le> length ?X"
  proof (cases "sp_list f = []")
    case True
    then show ?thesis using ok by (simp add: spool_ok_def)
  next
    case False
    then have "last (sp_list f) \<in> set (sp_list f)" by simp
    with ok have "length (sp_data (last (sp_list f))) = SPOOL_DATA_SIZE" by (auto simp: spool_ok_def pages_ok_def)
    with ok False show ?thesis unfolding content_def spool_ok_def by simp
  qed
  have "in_use f' = drop (unat (frecoff f)) (stored ps @ take (align2 loff) (sp_data p))"
    using in_use_snoc [OF f'(1)] f'(5,6) by simp
  also have "\<dots> = drop (unat (frecoff f)) (?X @ put16 (of_nat (length r)) @ r @ pad)"
    unfolding t append_assoc [symmetric] bytes ..
  also have "\<dots> = drop (unat (frecoff f)) ?X @ put16 (of_nat (length r)) @ r @ pad" using X by simp
  also have "drop (unat (frecoff f)) ?X = in_use f" by (simp only: in_use_content)
  finally have u: "in_use f' = in_use f @ put16 (of_nat (length r)) @ r @ pad" .
  have "holds (rs @ [r]) (in_use f')"
    unfolding u by (rule holds_append [OF _ r pad]) (use ok in \<open>simp only: spool_ok_def\<close>)
  moreover have "unat (frecoff f) \<le> length (stored ps) + align2 loff"
  proof -
    have "length ?X \<le> length (stored ps @ take loff (sp_data p))" unfolding bytes by simp
    then show ?thesis using X align2(2) [of loff] by simp
  qed
  moreover have "even (unat (frecoff f))" "unat (frecoff f) < SPOOL_DATA_SIZE"
    using ok unfolding spool_ok_def by blast+
  ultimately show ?thesis unfolding spool_ok_def f'(1,3-6)
    using f'(2) al align2(1) [of loff] by simp
qed


text \<open>One page is enough after the last one, if the record fits.\<close>

lemma fill_new_first:
  assumes "length d = SPOOL_DATA_SIZE" and "unat len + 2 \<le> SPOOL_DATA_SIZE" and "unat len \<le> length buf"
  shows "fill_new d buf len rlen 0
    = Ok (put16 len @ take (unat len) buf @ drop (unat len + 2) d, 2 + unat len)"
proof -
  have m: "min (unat len) (SPOOL_DATA_SIZE - 2) = unat len" using assms(2) by simp
  have s: "slice buf 0 (unat len) = Ok (take (unat len) buf)" using slice_nat [of 0 "unat len" buf] assms(3) by simp
  show ?thesis using assms by (simp add: fill_new_def m s blit_def Let_def add.commute)
qed

lemma fill_new_rest:
  assumes "length d = SPOOL_DATA_SIZE" and "unat len \<le> SPOOL_DATA_SIZE" and "unat len \<le> length buf"
  shows "fill_new d buf len (unat len + 2) 2 = Ok (take (unat len) buf @ drop (unat len) d, unat len)"
proof -
  have m: "min (unat len + 2 - 2) SPOOL_DATA_SIZE = unat len" using assms(2) by simp
  have s: "slice buf (2 - int 2) (unat len) = Ok (take (unat len) buf)" using slice_nat [of 0 "unat len" buf] assms(3) by simp
  show ?thesis unfolding fill_new_def Let_def m s using assms by (simp add: blit_def)
qed

lemma append_one_page:
  assumes "alloc_pages 0 ZONE_NORMAL b = Ok (Some p, b')"
    and "fill_new (fresh (page_to_addr (page_num_to_ptr p))) buf len rlen cp = Ok (d, n)"
    and "cp + n = rlen" and "0 < n" and "0 < k"
  shows "append_pages (Suc k) fresh buf len rlen cp loff b []
    = Ok (Some n, b', [\<lparr>sp_addr = page_to_addr (page_num_to_ptr p), sp_data = d\<rparr>])"
  using assms by (cases k) (simp_all add: Let_def)

lemma append_no_page: "append_pages k fresh buf len rlen rlen loff b [] = Ok (Some loff, b, [])"
  by (cases k) simp_all

lemma spool_append_gives:
  assumes ok: "spool_ok f rs" and len: "len \<noteq> 0" "unat len \<le> length buf" and fits: "fits f len"
    and room: "unat (npages f) + 1 < 2 ^ 64" "unat (recs f) + 1 < 2 ^ 64"
    and page: "alloc_pages 0 ZONE_NORMAL b = Ok (Some p, b')" and fresh: "\<And>a. length (fresh a) = SPOOL_DATA_SIZE"
  shows "\<exists>f' b2. spool_append_rec fresh f (Some buf) len b = Ok (None, f', b2)
    \<and> spool_ok f' (rs @ [take (unat len) buf])"
proof -
  let ?a = "page_to_addr (page_num_to_ptr p)" and ?r = "take (unat len) buf"
  let ?L = "unat (lrecoff f)" and ?n = "unat len"
  have n: "0 < ?n" using len(1) by (simp add: unat_gt_0)
  have r: "?r \<noteq> []" "length ?r < 65536" "length ?r = ?n" "of_nat (length ?r) = len"
    using n len(2) unsigned_less [of len, where ?'a = nat] by (auto simp: min_def)
  from ok have P: "pages_ok (sp_list f)" "unat (npages f) = length (sp_list f)" "unat (recs f) = length rs"
    "even ?L" "?L \<le> SPOOL_DATA_SIZE" by (auto simp: spool_ok_def)
  have np: "npages f = 0 \<longleftrightarrow> sp_list f = []" using P(2) by (metis length_0_conv unat_eq_0)
  have inc: "unat (npages f + 1) = unat (npages f) + 1" "unat (recs f + 1) = unat (recs f) + 1"
    using room by (simp_all add: unat_word_ariths)
  have al: "unat (of_nat (align2 k) :: u16) = align2 k" if "k \<le> SPOOL_DATA_SIZE" for k
    using align2(4) [OF even_data_size(1) that] by (intro unat_of_nat_small) (simp add: SPOOL_DATA_SIZE_def)
  show ?thesis
  proof (cases "sp_list f \<noteq> [] \<and> 2 \<le> SPOOL_DATA_SIZE - ?L")
    case False
    have fl: "fill_last f buf len = Ok (f, 0, 0)" using False np by (auto simp: fill_last_def Let_def)
    have sz: "?n + 2 \<le> SPOOL_DATA_SIZE" using fits False by (auto simp: fits_def Let_def)
    define d where "d = put16 len @ ?r @ drop (?n + 2) (fresh ?a)"
    define q where "q = \<lparr>sp_addr = ?a, sp_data = d\<rparr>"
    have fn: "fill_new (fresh ?a) buf len (?n + 2) 0 = Ok (d, ?n + 2)"
      using fill_new_first [OF fresh sz len(2)] by (simp add: d_def)
    have ap: "append_pages (?n + 2) fresh buf len (?n + 2) 0 0 b [] = Ok (Some (?n + 2), b', [q])"
      using append_one_page [where fresh = fresh, OF page fn, of "?n + 1" 0] by (simp add: q_def)
    define f' where "f' = f\<lparr>sp_list := sp_list f @ [q], npages := npages f + 1, recs := recs f + 1,
      lrecoff := of_nat (align2 (?n + 2))\<rparr>"
    have "spool_append_rec fresh f (Some buf) len b = Ok (None, f', b')"
      using P(4) len(1) fl ap by (simp add: spool_append_rec_def Let_def f'_def align2_def even_iff_mod_2_eq_zero)
    moreover have "spool_ok f' (rs @ [?r])"
    proof (rule spool_okI [OF ok r(1,2), of f' "sp_list f" q "?n + 2"])
      note szz = sz
      have "length (sp_data q) = SPOOL_DATA_SIZE" using len(2) sz fresh by (simp add: q_def d_def)
      then show "pages_ok (sp_list f @ [q])" using P(1) by (simp add: pages_ok_def)
      show "stored (sp_list f) @ take (?n + 2) (sp_data q)
        = content f @ put16 (of_nat (length ?r)) @ ?r"
      proof -
        have "take (?n + 2) (sp_data q) = put16 len @ ?r" using len(2) by (simp add: q_def d_def)
        moreover have "stored (butlast (sp_list f)) @ take ?L (sp_data (last (sp_list f))) = stored (sp_list f)"
          if ne: "sp_list f \<noteq> []"
        proof -
          obtain k where "?L = 2 * k" using P(4) by (auto elim: evenE)
          then have "?L = SPOOL_DATA_SIZE" using False ne P(5) by (simp add: SPOOL_DATA_SIZE_def)
          moreover have "length (sp_data (last (sp_list f))) = SPOOL_DATA_SIZE" using P(1) ne by (simp add: pages_ok_def)
          ultimately have "take ?L (sp_data (last (sp_list f))) = sp_data (last (sp_list f))" by simp
          then show ?thesis using ne by (metis append_butlast_last_id stored_simps append_Nil2)
        qed
        ultimately show ?thesis using r(4) by (simp add: content_def)
      qed
        show "sp_list f' = sp_list f @ [q]" by (simp add: f'_def )
        show "unat (npages f') = length (sp_list f @ [q])" using P(2) inc(1) by (simp add: f'_def )
        show "unat (recs f') = length rs + 1" using P(3) inc(2) by (simp add: f'_def )
        show "frecoff f' = frecoff f" by (simp add: f'_def )
        show "?n + 2 \<le> SPOOL_DATA_SIZE" by (rule szz)
        then show "unat (lrecoff f') = align2 (?n + 2)" using al by (simp add: f'_def )
        show "even (?n + 2) \<longleftrightarrow> even (length ?r)" using P(4) r(3) by simp
      qed
    ultimately show ?thesis by blast
  next
    case True
    then obtain ps l where pl: "sp_list f = ps @ [l]" by (metis rev_exhaust)
    have dl: "length (sp_data l) = SPOOL_DATA_SIZE" using P(1) by (simp add: pl pages_ok_def)
    have Ll: "?L + 2 \<le> SPOOL_DATA_SIZE" using True P(5) by linarith
    have bl: "blit (sp_data l) ?L (put16 len) = Ok (take ?L (sp_data l) @ put16 len @ drop (?L + 2) (sp_data l))"
      using Ll dl by (simp add: blit_def)
    show ?thesis
    proof (cases "?n + 2 \<le> SPOOL_DATA_SIZE - ?L")
      case fit: True
      define d where "d = take ?L (sp_data l) @ put16 len @ ?r @ drop (?L + 2 + ?n) (sp_data l)"
      define q where "q = l\<lparr>sp_data := d\<rparr>"
      define f1 where "f1 = f\<lparr>sp_list := ps @ [q]\<rparr>"
      have sl: "slice buf 0 ?n = Ok ?r" using slice_nat [of 0 ?n buf] len(2) by simp
      have m: "min ?n (SPOOL_DATA_SIZE - ?L - 2) = ?n" using fit by simp
      have b2: "blit (take ?L (sp_data l) @ put16 len @ drop (?L + 2) (sp_data l)) (?L + 2) ?r = Ok d"
        using fit dl Ll len(2) by (simp add: blit_def d_def add.commute)
      have fl: "fill_last f buf len = Ok (f1, ?n + 2, ?L + (?n + 2))"
        using True fit n np pl b2 by (simp add: fill_last_def Let_def bl m sl f1_def q_def del: diff_diff_left)
      define f' where "f' = f1\<lparr>recs := recs f + 1, lrecoff := of_nat (align2 (?L + (?n + 2)))\<rparr>"
      have "spool_append_rec fresh f (Some buf) len b = Ok (None, f', b)"
        using P(4) len(1) fl append_no_page
        by (simp add: spool_append_rec_def Let_def f'_def f1_def align2_def even_iff_mod_2_eq_zero)
      moreover have "spool_ok f' (rs @ [?r])"
      proof (rule spool_okI [OF ok r(1,2), of f' ps q "?L + (?n + 2)"])
        have szz: "?L + (?n + 2) \<le> SPOOL_DATA_SIZE" using fit Ll by simp
        show "pages_ok (ps @ [q])" using P(1) fit dl len(2) Ll by (auto simp: pages_ok_def pl q_def d_def)
        show "stored ps @ take (?L + (?n + 2)) (sp_data q)
          = content f @ put16 (of_nat (length ?r)) @ ?r"
          using r(4) len(2) dl Ll by (simp add: content_def pl q_def d_def)
          show "sp_list f' = ps @ [q]" by (simp add: f'_def f1_def )
        show "unat (npages f') = length (ps @ [q])" using P(2) inc(1) by (simp add: f'_def f1_def pl)
        show "unat (recs f') = length rs + 1" using P(3) inc(2) by (simp add: f'_def f1_def )
        show "frecoff f' = frecoff f" by (simp add: f'_def f1_def )
        show "?L + (?n + 2) \<le> SPOOL_DATA_SIZE" by (rule szz)
        then show "unat (lrecoff f') = align2 (?L + (?n + 2))" using al by (simp add: f'_def f1_def )
        show "even (?L + (?n + 2)) \<longleftrightarrow> even (length ?r)" using P(4) r(3) by simp
      qed
      ultimately show ?thesis by blast
    next
      case False
      then have L2: "SPOOL_DATA_SIZE - ?L = 2" and sz: "?n \<le> SPOOL_DATA_SIZE"
        using fits True by (auto simp: fits_def Let_def pl)
      define l' where "l' = l\<lparr>sp_data := take ?L (sp_data l) @ put16 len\<rparr>"
      define f1 where "f1 = f\<lparr>sp_list := ps @ [l']\<rparr>"
      have fl: "fill_last f buf len = Ok (f1, 2, ?L + 2)"
        using L2 np pl dl Ll by (simp add: fill_last_def Let_def bl f1_def l'_def)
      define d where "d = ?r @ drop ?n (fresh ?a)"
      define q where "q = \<lparr>sp_addr = ?a, sp_data = d\<rparr>"
      have fn: "fill_new (fresh ?a) buf len (?n + 2) 2 = Ok (d, ?n)"
        using fill_new_rest [OF fresh sz len(2)] by (simp add: d_def)
      have ap: "append_pages (?n + 2) fresh buf len (?n + 2) 2 (?L + 2) b [] = Ok (Some ?n, b', [q])"
        using append_one_page [where fresh = fresh, OF page fn, of "?n + 1"] n by (simp add: q_def)
      define f' where "f' = f1\<lparr>sp_list := ps @ [l', q], npages := npages f + 1, recs := recs f + 1,
        lrecoff := of_nat (align2 ?n)\<rparr>"
      have "spool_append_rec fresh f (Some buf) len b = Ok (None, f', b')"
        using P(4) len(1) fl ap
        by (simp add: spool_append_rec_def Let_def f'_def f1_def align2_def even_iff_mod_2_eq_zero)
      moreover have "spool_ok f' (rs @ [?r])"
      proof (rule spool_okI [OF ok r(1,2), of f' "ps @ [l']" q ?n])
        note szz = sz
        show "pages_ok ((ps @ [l']) @ [q])"
          using P(1) dl L2 Ll sz fresh len(2) by (auto simp: pages_ok_def pl q_def d_def l'_def)
        show "stored (ps @ [l']) @ take ?n (sp_data q)
          = content f @ put16 (of_nat (length ?r)) @ ?r"
          using r(4) len(2) dl Ll by (simp add: content_def pl q_def d_def l'_def)
          show "sp_list f' = (ps @ [l']) @ [q]" by (simp add: f'_def f1_def )
        show "unat (npages f') = length ((ps @ [l']) @ [q])" using P(2) inc(1) by (simp add: f'_def f1_def pl)
        show "unat (recs f') = length rs + 1" using P(3) inc(2) by (simp add: f'_def f1_def )
        show "frecoff f' = frecoff f" by (simp add: f'_def f1_def )
        show "?n \<le> SPOOL_DATA_SIZE" by (rule szz)
        then show "unat (lrecoff f') = align2 (?n)" using al by (simp add: f'_def f1_def )
        show "even (?n) \<longleftrightarrow> even (length ?r)" using P(4) r(3) by simp
      qed
      ultimately show ?thesis by blast
    qed
  qed
qed


section \<open>Taking: facts\<close>

definition free_ok :: "buddy \<Rightarrow> bool" where
  "free_ok b \<longleftrightarrow> orders_low b \<noteq> [] \<and> orders_normal b \<noteq> []"

lemma free_pages_ok: "free_ok b \<Longrightarrow> \<exists>b'. free_pages a 0 b = Ok b' \<and> free_ok b'"
  by (auto simp: free_ok_def free_pages_def zone_add_def orders_add_def Let_def)

lemma unat_pred: "x \<noteq> 0 \<Longrightarrow> unat (x - 1) = unat x - 1"
  by (simp add: unat_minus_one)

definition grab_ok :: "grab \<Rightarrow> bool" where
  "grab_ok g \<longleftrightarrow> g_list g \<noteq> [] \<and> pages_ok (g_list g) \<and> offset g \<le> SPOOL_DATA_SIZE
     \<and> left g = SPOOL_DATA_SIZE - offset g \<and> unat (g_npages g) = length (g_list g) \<and> free_ok (g_mm g)"

lemma next_page_spec:
  assumes g: "grab_ok g" and l: "left g = 0" and more: "offset g < length (stored (g_list g))"
  shows "\<exists>g' p. next_page g = Ok g' \<and> grab_ok g' \<and> g_list g = p # g_list g' \<and> offset g' = 0
    \<and> left g' = SPOOL_DATA_SIZE \<and> processed g' = processed g \<and> copied g' = copied g \<and> g_out g' = g_out g"
proof -
  obtain p ps where ps: "g_list g = p # ps" using g by (cases "g_list g") (auto simp: grab_ok_def)
  have dl: "length (sp_data p) = SPOOL_DATA_SIZE" using g by (simp add: grab_ok_def pages_ok_def ps)
  have "offset g = SPOOL_DATA_SIZE" using g l by (simp add: grab_ok_def)
  then have "ps \<noteq> []" using more dl by (auto simp: ps)
  then obtain q qs where qs: "ps = q # qs" by (cases ps) auto
  obtain b where b: "free_pages (sp_addr p) 0 (g_mm g) = Ok b" "free_ok b"
    using free_pages_ok g by (auto simp: grab_ok_def)
  have "g_npages g \<noteq> 0" using g by (auto simp: grab_ok_def ps)
  then have "unat (g_npages g - 1) = length ps" using g by (simp add: unat_pred grab_ok_def ps)
  with g b show ?thesis
    by (simp add: next_page_def get_page_def ps qs grab_ok_def pages_ok_def)
qed

lemma take_bytes_spec:
  assumes g: "grab_ok g" and l: "0 < left g" and c: "copied g = min (processed g) rlen" "rlen \<le> reclen + 2"
    and more: "processed g < reclen + 2"
  shows "\<exists>g' n. take_bytes rlen reclen g = Ok g' \<and> 0 < n \<and> n \<le> reclen + 2 - processed g \<and> grab_ok g'
    \<and> g_list g' = g_list g \<and> offset g' = offset g + n \<and> processed g' = processed g + n
    \<and> copied g' = min (processed g') rlen
    \<and> g_out g' = g_out g @ take (min n (rlen - copied g)) (drop (offset g) (stored (g_list g)))
    \<and> (rlen - copied g' = rlen - copied g - n)"
proof -
  obtain p ps where ps: "g_list g = p # ps" using g by (cases "g_list g") (auto simp: grab_ok_def)
  have dl: "length (sp_data p) = SPOOL_DATA_SIZE" using g by (simp add: grab_ok_def pages_ok_def ps)
  have left: "left g = SPOOL_DATA_SIZE - offset g" using g by (simp add: grab_ok_def)
  show ?thesis
  proof (cases "rlen = copied g")
    case True
    define n where "n = min (left g) (reclen + 2 - processed g)"
    have "take_bytes rlen reclen g
      = Ok (g\<lparr>processed := processed g + n, left := left g - n, offset := offset g + n\<rparr>)"
      using True by (simp add: take_bytes_def Let_def n_def)
    moreover have "0 < n" "n \<le> reclen + 2 - processed g" using l more by (simp_all add: n_def)
    moreover have "offset g + n \<le> SPOOL_DATA_SIZE" "left g - n = SPOOL_DATA_SIZE - (offset g + n)"
      using left g unfolding grab_ok_def n_def by linarith+
    moreover have "min (processed g + n) rlen = copied g" using c True by simp
    ultimately show ?thesis using g True
      by (intro exI [of _ "g\<lparr>processed := processed g + n, left := left g - n, offset := offset g + n\<rparr>"]
          exI [of _ n]) (simp add: grab_ok_def)
  next
    case False
    define n where "n = min (left g) (rlen - copied g)"
    have n: "0 < n" "n \<le> rlen - copied g" "offset g + n \<le> length (sp_data p)"
      using l c False left dl by (auto simp: n_def)
    have cp: "copied g = processed g" "processed g < rlen" using c False by (simp_all add: min_def split: if_splits)
    define bs where "bs = take n (drop (offset g) (stored (g_list g)))"
    have bs: "bs = take n (drop (offset g) (sp_data p))" using n by (simp add: ps bs_def)
    define g' where "g' = g\<lparr>g_out := g_out g @ bs, processed := processed g + n,
          copied := copied g + n, left := left g - n, offset := offset g + n\<rparr>"
    have "take_bytes rlen reclen g = Ok g'"
      using False n(3) bs
      by (simp add: take_bytes_def Let_def get_page_def slice_nat ps n_def [symmetric] g'_def)
    moreover have "grab_ok g'"
      using g n dl left by (simp add: grab_ok_def g'_def)
    moreover have "copied g' = min (processed g') rlen" "n \<le> reclen + 2 - processed g" "min n (rlen - copied g) = n"
      using cp c(2) n(2) by (simp_all add: g'_def)
    moreover have "g_list g' = g_list g" "offset g' = offset g + n" "processed g' = processed g + n"
      "g_out g' = g_out g @ bs" "rlen - copied g' = rlen - copied g - n"
      by (simp_all add: g'_def)
    ultimately show ?thesis using n(1) unfolding bs_def by (intro exI [of _ g'] exI [of _ n]) simp
  qed
qed

lemma grab_loop_spec:
  assumes "grab_ok g" and "copied g = min (processed g) rlen" and "rlen \<le> reclen + 2" and "processed g \<le> reclen + 2"
    and "reclen + 2 - processed g \<le> k"
    and "offset g + (reclen + 2 - processed g) \<le> length (stored (g_list g))"
  shows "\<exists>g' pre. grab_loop k rlen reclen g = Ok g' \<and> grab_ok g' \<and> g_list g = pre @ g_list g'
    \<and> length (stored pre) + offset g' = offset g + (reclen + 2 - processed g)
    \<and> g_out g' = g_out g @ take (rlen - copied g) (drop (offset g) (stored (g_list g)))"
  using assms
proof (induction k arbitrary: g)
  case 0
  then show ?case by (auto intro!: exI [of _ "[]"])
next
  case (Suc k)
  show ?case
  proof (cases "processed g = reclen + 2")
    case True
    then show ?thesis using Suc.prems by (auto intro!: exI [of _ "[]"])
  next
    case False
    then have more: "processed g < reclen + 2" using Suc.prems(4) by simp
    obtain g1 pre where g1: "(if left g = 0 then next_page g else Ok g) = Ok g1" "grab_ok g1" "g_list g = pre @ g_list g1"
      "length (stored pre) + offset g1 = offset g" "0 < left g1" "processed g1 = processed g" "copied g1 = copied g"
      "g_out g1 = g_out g"
    proof (cases "left g = 0")
      case True
      have "offset g < length (stored (g_list g))" using Suc.prems(6) more by linarith
      from next_page_spec [OF Suc.prems(1) True this] obtain g' p where "next_page g = Ok g'" "grab_ok g'"
        "g_list g = p # g_list g'" "offset g' = 0" "left g' = SPOOL_DATA_SIZE" "processed g' = processed g"
        "copied g' = copied g" "g_out g' = g_out g" by blast
      moreover have "length (sp_data p) = SPOOL_DATA_SIZE" "offset g = SPOOL_DATA_SIZE"
        using Suc.prems(1) True calculation(3) by (auto simp: grab_ok_def pages_ok_def)
      ultimately show thesis using True by (intro that [of g' "[p]"]) (simp_all add: SPOOL_DATA_SIZE_def)
    next
      case False
      then show thesis using Suc.prems by (intro that [of g "[]"]) simp_all
    qed
    have drop: "drop (offset g1) (stored (g_list g1)) = drop (offset g) (stored (g_list g))"
      using g1(3) g1(4) [symmetric] by simp
    have more1: "processed g1 < reclen + 2" and c1: "copied g1 = min (processed g1) rlen"
      using more Suc.prems(2) g1(6,7) by simp_all
    obtain g2 n where g2: "take_bytes rlen reclen g1 = Ok g2" "0 < n" "n \<le> reclen + 2 - processed g1" "grab_ok g2"
      "g_list g2 = g_list g1" "offset g2 = offset g1 + n" "processed g2 = processed g1 + n"
      "copied g2 = min (processed g2) rlen"
      "g_out g2 = g_out g1 @ take (min n (rlen - copied g1)) (drop (offset g1) (stored (g_list g1)))"
      "rlen - copied g2 = rlen - copied g1 - n"
      using take_bytes_spec [OF g1(2,5) c1 Suc.prems(3) more1] by blast
    have len: "length (stored pre) + length (stored (g_list g1)) = length (stored (g_list g))" using g1(3) by simp
    have "reclen + 2 - processed g2 \<le> k" "processed g2 \<le> reclen + 2"
      "offset g2 + (reclen + 2 - processed g2) \<le> length (stored (g_list g2))"
      unfolding g2(5) using Suc.prems(5,6) g2(2,3,6,7) g1(4,6) len by linarith+
    from Suc.IH [OF g2(4,8) Suc.prems(3) this(2,1,3)] obtain g' pre' where
      g': "grab_loop k rlen reclen g2 = Ok g'" "grab_ok g'" "g_list g2 = pre' @ g_list g'"
      "length (stored pre') + offset g' = offset g2 + (reclen + 2 - processed g2)"
      "g_out g' = g_out g2 @ take (rlen - copied g2) (drop (offset g2) (stored (g_list g2)))" by blast
    have "grab_loop (Suc k) rlen reclen g = Ok g'" using False g1(1) g2(1) g'(1) by simp
    moreover have "g_list g = (pre @ pre') @ g_list g'" using g1(3) g2(5) g'(3) by simp
    moreover have "length (stored (pre @ pre')) + offset g' = offset g + (reclen + 2 - processed g)"
      using g'(4) g2(3,6,7) g1(4,6) by simp
    moreover have "g_out g' = g_out g @ take (rlen - copied g) (drop (offset g) (stored (g_list g)))"
    proof -
      let ?B = "drop (offset g) (stored (g_list g))" and ?m = "rlen - copied g"
      have "drop (offset g2) (stored (g_list g2)) = drop n ?B"
        unfolding drop [symmetric] g2(5,6) by (simp add: add.commute)
      then have "g_out g' = g_out g @ take (min n ?m) ?B @ take (?m - n) (drop n ?B)"
        using g'(5) g2(9,10) g1(7,8) drop by simp
      also have "take (min n ?m) ?B @ take (?m - n) (drop n ?B) = take ?m ?B"
        by (cases "n \<le> ?m") (simp_all only: min_absorb1 min_absorb2 take_add [symmetric] le_add_diff_inverse, simp)
      finally show ?thesis .
    qed
    ultimately show ?thesis using g'(2) by blast
  qed
qed

section \<open>Taking the first record\<close>

lemma length_content: "spool_ok f rs \<Longrightarrow> length (content f)
    = length (stored (butlast (sp_list f))) + (if sp_list f = [] then 0 else unat (lrecoff f))"
proof (cases "sp_list f = []")
  case False
  assume ok: "spool_ok f rs"
  from False have "last (sp_list f) \<in> set (sp_list f)" by simp
  with ok have "length (sp_data (last (sp_list f))) = SPOOL_DATA_SIZE" by (auto simp: spool_ok_def pages_ok_def)
  with ok False show ?thesis unfolding content_def spool_ok_def by simp
qed (simp add: content_def)

lemma content_prefix: "sp_list f \<noteq> [] \<Longrightarrow> stored (sp_list f) = content f @ drop (unat (lrecoff f)) (sp_data (last (sp_list f)))"
proof -
  assume ne: "sp_list f \<noteq> []"
  have "stored (sp_list f) = stored (butlast (sp_list f)) @ sp_data (last (sp_list f))"
    by (subst append_butlast_last_id [OF ne, symmetric]) (simp only: stored_simps append_Nil2)
  then show ?thesis by (simp add: content_def ne)
qed

lemma content_split:
  assumes "sp_list f = pre @ ps" and "ps \<noteq> []"
  shows "content f = stored pre @ content (f\<lparr>sp_list := ps\<rparr>)"
  using assms by (simp add: content_def butlast_append)

text \<open>A file after the pages \<open>pre\<close> have been given back and the first record has been moved.\<close>

lemma spool_ok_dropI:
  assumes ok: "spool_ok f rs" and f: "sp_list f = pre @ sp_list f'" and pos: "F = length (stored pre) + unat (frecoff f')"
    and bounds: "F \<le> length (content f)" "unat (frecoff f') < SPOOL_DATA_SIZE" "even (unat (frecoff f'))"
    and f': "unat (npages f') = length (sp_list f')" "unat (recs f') = length rs'" "lrecoff f' = lrecoff f"
      "sp_list f' = [] \<longrightarrow> unat (frecoff f') = 0"
    and holds: "holds rs' (drop F (content f))" and empty: "sp_list f' = [] \<longrightarrow> F = length (content f)"
  shows "spool_ok f' rs'"
proof -
  have pages: "pages_ok (sp_list f')" using ok f by (simp add: spool_ok_def pages_ok_def)
  have L: "even (unat (lrecoff f'))" "unat (lrecoff f') \<le> SPOOL_DATA_SIZE" using ok f'(3) by (simp_all add: spool_ok_def)
  have "unat (frecoff f') \<le> length (stored (butlast (sp_list f'))) + (if sp_list f' = [] then 0 else unat (lrecoff f'))
      \<and> in_use f' = drop F (content f)"
  proof (cases "sp_list f' = []")
    case True
    then show ?thesis using f'(4) empty by (simp add: in_use_def)
  next
    case False
    have "content (f\<lparr>sp_list := sp_list f'\<rparr>) = content f'" by (simp add: content_def f'(3))
    with content_split [OF f False] have c: "content f = stored pre @ content f'" by simp
    have "last (sp_list f') \<in> set (sp_list f')" using False by simp
    with pages have "length (sp_data (last (sp_list f'))) = SPOOL_DATA_SIZE" by (auto simp: pages_ok_def)
    with L(2) False have "length (content f') = length (stored (butlast (sp_list f'))) + unat (lrecoff f')"
      unfolding content_def by simp
    with c bounds(1) pos False show ?thesis by (simp add: in_use_content)
  qed
  then show ?thesis unfolding spool_ok_def using pages L bounds f' holds by simp
qed

lemma spool_grab_takes:
  assumes ok: "spool_ok f (r # rs)" and len: "len \<noteq> 0" and b: "free_ok b"
  shows "\<exists>f' b'. spool_grab_rec f False len b = Ok (None, take (unat len) r, f', b') \<and> spool_ok f' rs \<and> free_ok b'"
proof -
  let ?F = "unat (frecoff f)" and ?L = "unat (lrecoff f)" and ?S = "stored (sp_list f)"
  from ok have P: "pages_ok (sp_list f)" "unat (npages f) = length (sp_list f)" "unat (recs f) = length rs + 1"
    "even ?F" "even ?L" "?L \<le> SPOOL_DATA_SIZE" "?F < SPOOL_DATA_SIZE" "holds (r # rs) (in_use f)"
    by (auto simp: spool_ok_def)
  from P(8) obtain pad rest where r: "r \<noteq> []" "length r < 65536" "length pad = length r mod 2"
    "in_use f = put16 (of_nat (length r)) @ r @ pad @ rest" "holds rs rest" by auto
  have ne: "sp_list f \<noteq> []" using r(4) by (auto simp: in_use_def put16_def)
  define tail where "tail = drop ?L (sp_data (last (sp_list f)))"
  have S: "?S = content f @ tail" using content_prefix [OF ne] by (simp add: tail_def)
  have FC: "?F \<le> length (content f)" using ok length_content [OF ok] by (simp add: spool_ok_def)
  have dropF: "drop ?F (content f) = put16 (of_nat (length r)) @ r @ pad @ rest" using r(4) by (simp add: in_use_content)
  then have dropS: "drop ?F ?S = put16 (of_nat (length r)) @ r @ pad @ rest @ tail" using S FC by simp
  have lenC: "length (content f) = ?F + 2 + length r + length pad + length rest"
    using arg_cong [OF dropF, of length] FC by simp
  then have lenS: "?F + 2 + length r + length pad + length rest + length tail = length ?S" using S by simp
  obtain p ps where p: "sp_list f = p # ps" using ne by (cases "sp_list f") auto
  have dl: "length (sp_data p) = SPOOL_DATA_SIZE" using P(1) by (simp add: pages_ok_def p)
  have F1: "?F + 1 < SPOOL_DATA_SIZE" using P(4,7) even_data_size(1) by presburger
  define l where "l = (of_nat (length r) :: u16)"
  have l: "unat l = length r" using r(2) by (simp add: l_def unat_of_nat_small)
  have nth: "sp_data p ! ?F = ucast (drop_bit 8 l)" "sp_data p ! (?F + 1) = ucast l"
  proof -
    have "sp_data p ! i = ?S ! i" if "i < SPOOL_DATA_SIZE" for i using that dl by (simp add: p nth_append)
    moreover have "?S ! (?F + i) = drop ?F ?S ! i" for i using lenS by (subst nth_drop) simp_all
    from this [of 0] this [of 1] have "?S ! ?F = ucast (drop_bit 8 l)" "?S ! (?F + 1) = ucast l"
      unfolding dropS by (simp_all add: put16_def l_def)
    ultimately show "sp_data p ! ?F = ucast (drop_bit 8 l)" "sp_data p ! (?F + 1) = ucast l"
      using P(7) F1 by simp_all
  qed
  define g where "g = \<lparr>g_list = sp_list f, g_npages = npages f, copied = 2, processed = 2,
     offset = ?F + 2, left = SPOOL_DATA_SIZE - ?F - 2, g_out = [], g_mm = b\<rparr>"
  let ?rlen = "min (unat len) (length r) + 2"
  have "grab_ok g" using ne P(1,2) b F1 by (simp add: grab_ok_def g_def)
  moreover have "copied g = min (processed g) ?rlen" "?rlen \<le> length r + 2" "processed g \<le> length r + 2"
    "length r + 2 - processed g \<le> length r + 2" by (simp_all add: g_def)
  moreover have "offset g + (length r + 2 - processed g) \<le> length (stored (g_list g))"
    using lenS by (simp add: g_def)
  ultimately obtain g' pre where loop: "grab_loop (length r + 2) ?rlen (length r) g = Ok g'" and g': "grab_ok g'"
    "g_list g = pre @ g_list g'" "length (stored pre) + offset g' = offset g + (length r + 2 - processed g)"
    "g_out g' = g_out g @ take (?rlen - copied g) (drop (offset g) (stored (g_list g)))"
    using grab_loop_spec [of g ?rlen "length r" "length r + 2"] by blast
  have pre: "sp_list f = pre @ g_list g'" "length (stored pre) + offset g' = ?F + 2 + length r"
    using g'(2,3) by (simp_all add: g_def)
  have "drop (?F + 2) ?S = drop 2 (drop ?F ?S)" by (simp add: add.commute)
  then have "drop (?F + 2) ?S = r @ pad @ rest @ tail" unfolding dropS by (simp add: put16_def)
  then have out: "g_out g' = take (unat len) r" using g'(4) by (simp add: g_def min_def)
  have "pages_ok pre" using P(1) pre(1) by (simp add: pages_ok_def)
  then have "even (length (stored pre))" using even_data_size(1) by (simp add: length_stored)
  then have parity: "even (offset g') \<longleftrightarrow> even (length r)" using pre(2) P(4) by presburger
  let ?off = "align2 (offset g')"
  have off: "?off = offset g' + length pad"
    using align2(2,3) [of "offset g'"] parity r(3) by presburger
  have off_le: "?off \<le> SPOOL_DATA_SIZE"
    using align2(4) [OF even_data_size(1)] g'(1) by (simp add: grab_ok_def)
  have E: "length (stored pre) + ?off = ?F + 2 + length r + length pad" using pre(2) off by simp
  have dropE: "drop (length (stored pre) + ?off) (content f) = rest"
  proof -
    have "drop (length (stored pre) + ?off) (content f) = drop (2 + length r + length pad) (drop ?F (content f))"
      unfolding E drop_drop by (simp add: algebra_simps)
    then show ?thesis unfolding dropF by (simp add: put16_def)
  qed
  have recs0: "recs f \<noteq> 0" using P(3) by auto
  then have recs: "recs f \<noteq> 0" "unat (recs f - 1) = length rs" using P(3) by (simp_all add: unat_pred)
  obtain p' ps' where p': "g_list g' = p' # ps'" using g'(1) by (cases "g_list g'") (auto simp: grab_ok_def)
  have start: "spool_grab_rec f False len b =
      bindR (if ?off = SPOOL_DATA_SIZE
             then bindR (free_pages (sp_addr p') 0 (g_mm g')) (\<lambda>b.
                    Ok (g'\<lparr>g_list := ps', g_npages := g_npages g' - 1, g_mm := b\<rparr>, 0))
             else Ok (g', ?off))
        (\<lambda>(g, off). Ok (None, g_out g, f\<lparr>sp_list := g_list g, npages := g_npages g, recs := recs f - 1,
           frecoff := of_nat off\<rparr>, g_mm g))"
    using len recs(1) P(5) F1 dl P(7) loop
    by (simp add: spool_grab_rec_def get_page_def p nth [simplified] get16_bytes l Let_def g_def [unfolded p, symmetric, simplified] p'
        align2_def even_iff_mod_2_eq_zero del: grab_loop.simps split del: if_split cong: if_cong)
  show ?thesis
  proof (cases "?off = SPOOL_DATA_SIZE")
    case True
    obtain b' where b': "free_pages (sp_addr p') 0 (g_mm g') = Ok b'" "free_ok b'"
      using free_pages_ok g'(1) by (auto simp: grab_ok_def)
    define f' where "f' = f\<lparr>sp_list := ps', npages := g_npages g' - 1, recs := recs f - 1, frecoff := 0\<rparr>"
    have "spool_grab_rec f False len b = Ok (None, take (unat len) r, f', b')"
      using start True b'(1) out by (simp add: f'_def)
    moreover have "spool_ok f' rs"
    proof (rule spool_ok_dropI [OF ok, of "pre @ [p']" f' "length (stored pre) + ?off"])
      have dl': "length (sp_data p') = SPOOL_DATA_SIZE" using P(1) pre(1) p' by (simp add: pages_ok_def)
      show "sp_list f = (pre @ [p']) @ sp_list f'" using pre(1) p' by (simp add: f'_def)
      show "length (stored pre) + ?off = length (stored (pre @ [p'])) + unat (frecoff f')"
        using True dl' by (simp add: f'_def)
      show "length (stored pre) + ?off \<le> length (content f)" using E lenC by simp
      show "unat (npages f') = length (sp_list f')"
      proof -
        have "g_npages g' \<noteq> 0" "unat (g_npages g') = length ps' + 1" using g'(1) p' by (auto simp: grab_ok_def)
        then show ?thesis by (simp add: f'_def unat_pred)
      qed
      show "unat (recs f') = length rs" using recs(2) by (simp add: f'_def)
      show "holds rs (drop (length (stored pre) + ?off) (content f))" using dropE r(5) by simp
      show "sp_list f' = [] \<longrightarrow> length (stored pre) + ?off = length (content f)"
      proof
        assume "sp_list f' = []"
        then have "length ?S = length (stored pre) + ?off" using pre(1) p' dl' True by (simp add: f'_def)
        with lenS lenC E show "length (stored pre) + ?off = length (content f)" by linarith
      qed
    qed (simp_all add: f'_def SPOOL_DATA_SIZE_def)
    ultimately show ?thesis using b'(2) by blast
  next
    case False
    define f' where "f' = f\<lparr>sp_list := g_list g', npages := g_npages g', recs := recs f - 1, frecoff := of_nat ?off\<rparr>"
    have fr: "unat (frecoff f') = ?off"
      using off_le by (simp add: f'_def unat_of_nat_small SPOOL_DATA_SIZE_def)
    have "spool_grab_rec f False len b = Ok (None, take (unat len) r, f', g_mm g')"
      using start False out by (simp add: f'_def)
    moreover have "spool_ok f' rs"
    proof (rule spool_ok_dropI [OF ok, of pre f' "length (stored pre) + ?off"])
      show "length (stored pre) + ?off \<le> length (content f)" using E lenC by simp
      show "unat (frecoff f') < SPOOL_DATA_SIZE" using fr off_le False by simp
      show "holds rs (drop (length (stored pre) + ?off) (content f))" using dropE r(5) by simp
      show "unat (npages f') = length (sp_list f')" using g'(1) by (simp add: grab_ok_def f'_def)
    qed (use fr pre(1) recs(2) align2(1) p' in \<open>simp_all add: f'_def\<close>)
    ultimately show ?thesis using g'(1) by (auto simp: grab_ok_def)
  qed
qed

section \<open>Properties\<close>

lemma spool_ok_empty: "spool_ok empty_spool []"
  by (simp add: spool_ok_def empty_spool_def pages_ok_def in_use_def SPOOL_DATA_SIZE_def)

text \<open>The example: three bytes appended to an empty spool file on the small machine.\<close>

lemma example_page_alloc: "alloc_pages 0 ZONE_NORMAL small_storage
    = Ok (Some 1, small_storage\<lparr>orders_low := [[2], [3], [5]] @ replicate 16 []\<rparr>)"
  by code_simp

definition blank :: "u64 \<Rightarrow> u8 list" where
  "blank a = replicate SPOOL_DATA_SIZE 0"

lemma blank: "length (blank a) = SPOOL_DATA_SIZE"
  by (simp add: blank_def)

lemma fits_empty: "unat len + 2 \<le> SPOOL_DATA_SIZE \<Longrightarrow> fits empty_spool len"
  by (simp add: fits_def empty_spool_def)

lemma example_append: "\<exists>f b. spool_append_rec blank empty_spool (Some [1, 2, 3]) 3 small_storage = Ok (None, f, b)
    \<and> spool_ok f [[1, 2, 3]]"
  using spool_append_gives [OF spool_ok_empty, of 3 "[1, 2, 3]" small_storage, OF _ _ fits_empty _ _ example_page_alloc,
      of blank]
  by (simp add: blank empty_spool_def SPOOL_DATA_SIZE_def)



text \<open>
  (C13) \<^verbatim>\<open>spool_grab_rec\<close> is the dequeue: it returns the oldest record, cut to the
  caller's length, and the file holds the other records, in their order, even when the record
  runs over a page boundary and when only part of it is asked for; pages that are no longer
  used are given back.
\<close>

theorem spool_grab_dequeues:
  assumes "spool_ok f (r # rs)" and "len \<noteq> 0" and "free_ok b"
  shows "\<exists>f' b'. spool_grab_rec f False len b = Ok (None, take (unat len) r, f', b')
    \<and> spool_ok f' rs \<and> free_ok b'"
  by (rule spool_grab_takes [OF assms])

theorem spool_grab_dequeues_witness:
  "\<exists>f b f' b'. spool_append_rec blank empty_spool (Some [1, 2, 3]) 3 small_storage = Ok (None, f, b)
     \<and> spool_grab_rec f False 2 small_storage = Ok (None, [1, 2], f', b') \<and> spool_ok f' []"
proof -
  obtain f b where f: "spool_append_rec blank empty_spool (Some [1, 2, 3]) 3 small_storage = Ok (None, f, b)"
    "spool_ok f [[1, 2, 3]]" using example_append by blast
  have "free_ok small_storage" by (simp add: free_ok_def small_storage_lists)
  from spool_grab_dequeues [OF f(2) _ this, of 2] f show ?thesis by auto
qed

text \<open>
  (C34) A record that is longer than what is left of the last page, where more than its length
  field still fits, is read from before the caller's buffer: the second \<^verbatim>\<open>memcpy\<close> takes
  the bytes from \<^verbatim>\<open>buf-copied+2\<close>, not \<^verbatim>\<open>buf+copied-2\<close>.
\<close>

theorem spool_append_reads_outside:
  assumes "spool_ok f rs" and "sp_list f \<noteq> []" and "unat len \<le> length buf"
    and "2 < SPOOL_DATA_SIZE - unat (lrecoff f)" and "SPOOL_DATA_SIZE - unat (lrecoff f) < unat len + 2"
    and "alloc_pages 0 ZONE_NORMAL b = Ok (Some p, b')"
  shows "spool_append_rec fresh f (Some buf) len b = Stop OutOfBounds"
proof -
  let ?L = "unat (lrecoff f)" and ?n = "unat len"
  let ?left = "SPOOL_DATA_SIZE - ?L"
  obtain ps l where pl: "sp_list f = ps @ [l]" using assms(2) by (metis rev_exhaust)
  have P: "length (sp_data l) = SPOOL_DATA_SIZE" "even ?L" "npages f \<noteq> 0"
    using assms(1) by (auto simp: spool_ok_def pages_ok_def pl)
  have bl: "blit (sp_data l) ?L (put16 len) = Ok (take ?L (sp_data l) @ put16 len @ drop (?L + 2) (sp_data l))"
    using assms(4) P(1) by (simp add: blit_def)
  have m: "min ?n (?left - 2) = ?left - 2" using assms(5) by simp
  have sl: "slice buf 0 (?left - 2) = Ok (take (?left - 2) buf)"
    using slice_nat [of 0 "?left - 2" buf] assms(3,5) by simp
  obtain d where b2: "blit (take ?L (sp_data l) @ put16 len @ drop (?L + 2) (sp_data l)) (?L + 2) (take (?left - 2) buf) = Ok d"
  proof -
    have "?L + 2 + (?left - 2) \<le> SPOOL_DATA_SIZE" using assms(4) by linarith
    then show thesis using that assms(3,5) P(1) by (simp add: blit_def)
  qed
  define f1 where "f1 = f\<lparr>sp_list := ps @ [l\<lparr>sp_data := d\<rparr>]\<rparr>"
  have "2 \<le> ?left" "?left - 2 \<noteq> 0" "2 + (?left - 2) = ?left" using assms(4) by linarith+
  then have fl: "fill_last f buf len = Ok (f1, ?left, ?L + ?left)"
    using P(3) b2 by (simp add: fill_last_def Let_def pl bl m sl f1_def del: diff_diff_left)
  have neg: "slice buf (2 - int ?left) (min (?n + 2 - ?left) SPOOL_DATA_SIZE) = Stop OutOfBounds"
  proof (rule slice_before [OF assms(4)])
    have "0 < SPOOL_DATA_SIZE" by (simp add: SPOOL_DATA_SIZE_def)
    then show "0 < min (?n + 2 - ?left) SPOOL_DATA_SIZE" using assms(5) by linarith
  qed
  have "?left \<noteq> 0" using assms(4) by linarith
  then have fn: "fill_new d' buf len (?n + 2) ?left = Stop OutOfBounds" for d'
    unfolding fill_new_def Let_def neg by simp
  have "append_pages (Suc (Suc ?n)) fresh buf len (?n + 2) ?left (?L + ?left) b [] = Stop OutOfBounds"
    using assms(5,6) fn by (simp add: Let_def)
  moreover have "len \<noteq> 0" using assms(4,5) by auto
  ultimately show ?thesis
    using P(2) fl assms(5) by (simp add: spool_append_rec_def Let_def even_iff_mod_2_eq_zero del: append_pages.simps)
qed

theorem spool_append_reads_outside_witness:
  "spool_append_rec blank \<lparr>sp_list = [\<lparr>sp_addr = 0x5000, sp_data = blank 0\<rparr>], recs = 0, npages = 1, frecoff = 6, lrecoff = 6\<rparr>
     (Some (replicate 5000 0)) 5000 small_storage = Stop OutOfBounds"
proof -
  let ?f = "\<lparr>sp_list = [\<lparr>sp_addr = 0x5000, sp_data = blank 0\<rparr>], recs = 0, npages = 1, frecoff = 6, lrecoff = 6\<rparr>"
  have "spool_ok ?f []" by (simp add: spool_ok_def pages_ok_def in_use_def blank SPOOL_DATA_SIZE_def)
  from spool_append_reads_outside [OF this, of 5000 "replicate 5000 0", OF _ _ _ _ example_page_alloc]
  show ?thesis by (simp add: SPOOL_DATA_SIZE_def)
qed

end
