(* ===== verification/Disassm.thy ===== *)
theory Disassm
  imports Inst_Tables Format_Text Spool
begin

text \<open>
  The disassembler: \<^verbatim>\<open>da_snprintf\<close> and \<^verbatim>\<open>disassm\<close> of \<^verbatim>\<open>src/cp/shell/disassm.c\<close>.
  The instruction's storage and the output buffer are lists of bytes; \<open>addr\<close> is the address
  of the buffer and \<open>tbl_addr\<close> gives the addresses of the tables, which the code only prints.
\<close>

section \<open>The bytes of an instruction\<close>

definition be16 :: "u8 list \<Rightarrow> nat \<Rightarrow> u16 result" where
  "be16 bytes i = bindR (peek bytes i) (\<lambda>h. bindR (peek bytes (i + 1)) (\<lambda>l. Ok (get16 h l)))"

definition be32 :: "u8 list \<Rightarrow> nat \<Rightarrow> u32 result" where
  "be32 bytes i =
     bindR (be16 bytes i) (\<lambda>h. bindR (be16 bytes (i + 2)) (\<lambda>l. Ok (push_bit 16 (ucast h) OR ucast l)))"

text \<open>\<^verbatim>\<open>b >> 4\<close>, \<^verbatim>\<open>b & 0xf\<close> and \<^verbatim>\<open>h & 0x0fff\<close>, as arguments.\<close>

definition hi4 :: "u8 \<Rightarrow> u64" where "hi4 b = ucast (drop_bit 4 b)"
definition lo4 :: "u8 \<Rightarrow> u64" where "lo4 b = ucast (b AND 0xf)"
definition disp :: "u16 \<Rightarrow> u64" where "disp h = ucast (h AND 0xfff)"

text \<open>
  The 20-bit displacement: the addition of the 12 low bits and the high byte, in
  \<^verbatim>\<open>u32\<close>.
\<close>

definition long_disp :: "u16 \<Rightarrow> u8 \<Rightarrow> u64" where
  "long_disp h b = ucast ((ucast h AND 0xfff) + push_bit 12 (ucast b :: u32) :: u32)"

section \<open>Printing\<close>

text \<open>The addresses of the strings passed to \<^verbatim>\<open>snprintf\<close>: the name, and \<^verbatim>\<open>"R"\<close> or the empty string.\<close>

definition NAME :: u64 where "NAME = 0x10000"
definition PFX :: u64 where "PFX = 0x20000"

definition strings :: "string \<Rightarrow> string \<Rightarrow> u64 \<Rightarrow> u8 list" where
  "strings name pfx a = (if a = PFX then ascii pfx @ [0] else ascii name @ [0])"

definition da_print :: "u64 \<Rightarrow> string \<Rightarrow> string \<Rightarrow> u8 list \<Rightarrow> u32 \<Rightarrow> string \<Rightarrow> u64 list \<Rightarrow> u8 list result" where
  "da_print addr name pfx buf buflen fmt args =
     bindR (snprintf (strings name pfx) addr buf buflen (ascii fmt @ [0]) args) (\<lambda>(_, st). Ok (cells (fout st)))"

text \<open>
  The format that follows the name, the register prefix where it depends on the format, and the
  arguments after the name.
\<close>

definition IPFX :: string where "IPFX = ''%-6s ''"

definition da_args :: "inst_fmt \<Rightarrow> u8 list \<Rightarrow> (string \<times> string \<times> u64 list) result" where
  "da_args fmt bytes = (case fmt of
     IF_DIAG \<Rightarrow> bindR (be32 bytes 0) (\<lambda>w. Ok (IPFX @ ''X'' @ [CHR 0x27] @ ''%06X'' @ [CHR 0x27], '''', [ucast (w AND 0xffffff)]))
   | IF_E \<Rightarrow> Ok (IPFX, '''', [])
   | IF_I \<Rightarrow> bindR (peek bytes 1) (\<lambda>b. Ok (IPFX @ ''X'' @ [CHR 0x27] @ ''%02X'' @ [CHR 0x27], '''', [ucast b]))
   | IF_RI1 \<Rightarrow> bindR (peek bytes 1) (\<lambda>b1. bindR (be16 bytes 2) (\<lambda>h.
       Ok (IPFX @ ''%s%d,%d'', ''R'', [PFX, hi4 b1, ucast h])))
   | IF_RI2 \<Rightarrow> bindR (peek bytes 1) (\<lambda>b1. bindR (be16 bytes 2) (\<lambda>h.
       Ok (IPFX @ ''%s%d,%d'', '''', [PFX, hi4 b1, ucast h])))
   | IF_RIL1 \<Rightarrow> bindR (peek bytes 1) (\<lambda>b1. bindR (be32 bytes 2) (\<lambda>w.
       Ok (IPFX @ ''%s%d,%d'', ''R'', [PFX, hi4 b1, ucast w])))
   | IF_RIL2 \<Rightarrow> bindR (peek bytes 1) (\<lambda>b1. bindR (be32 bytes 2) (\<lambda>w.
       Ok (IPFX @ ''%s%d,%d'', '''', [PFX, hi4 b1, ucast w])))
   | IF_RR \<Rightarrow> bindR (peek bytes 1) (\<lambda>b1. Ok (IPFX @ ''%s%d,R%d'', ''R'', [PFX, hi4 b1, lo4 b1]))
   | IF_RR_MASK \<Rightarrow> bindR (peek bytes 1) (\<lambda>b1. Ok (IPFX @ ''%s%d,R%d'', '''', [PFX, hi4 b1, lo4 b1]))
   | IF_RRE \<Rightarrow> bindR (peek bytes 3) (\<lambda>b3. Ok (IPFX @ ''R%d,R%d'', '''', [hi4 b3, lo4 b3]))
   | IF_RS1 \<Rightarrow> bindR (peek bytes 1) (\<lambda>b1. bindR (be16 bytes 2) (\<lambda>h. bindR (peek bytes 2) (\<lambda>b2.
       Ok (IPFX @ ''R%d,%s%d,%d(R%d)'', ''R'', [hi4 b1, PFX, lo4 b1, disp h, hi4 b2]))))
   | IF_RS2 \<Rightarrow> bindR (peek bytes 1) (\<lambda>b1. bindR (be16 bytes 2) (\<lambda>h. bindR (peek bytes 2) (\<lambda>b2.
       Ok (IPFX @ ''R%d,%s%d,%d(R%d)'', '''', [hi4 b1, PFX, lo4 b1, disp h, hi4 b2]))))
   | IF_RSI \<Rightarrow> bindR (peek bytes 1) (\<lambda>b1. bindR (be16 bytes 2) (\<lambda>h.
       Ok (IPFX @ ''R%d,R%d,%d'', '''', [hi4 b1, lo4 b1, ucast h])))
   | IF_RSY1 \<Rightarrow> bindR (peek bytes 1) (\<lambda>b1. bindR (be16 bytes 2) (\<lambda>h. bindR (peek bytes 4) (\<lambda>b4. bindR (peek bytes 2) (\<lambda>b2.
       Ok (IPFX @ ''R%d,%s%d,%d(R%d)'', ''R'', [hi4 b1, PFX, lo4 b1, long_disp h b4, hi4 b2])))))
   | IF_RSY2 \<Rightarrow> bindR (peek bytes 1) (\<lambda>b1. bindR (be16 bytes 2) (\<lambda>h. bindR (peek bytes 4) (\<lambda>b4. bindR (peek bytes 2) (\<lambda>b2.
       Ok (IPFX @ ''R%d,%s%d,%d(R%d)'', '''', [hi4 b1, PFX, lo4 b1, long_disp h b4, hi4 b2])))))
   | IF_RX \<Rightarrow> bindR (peek bytes 1) (\<lambda>b1. bindR (be16 bytes 2) (\<lambda>h. bindR (peek bytes 2) (\<lambda>b2.
       Ok (IPFX @ ''%s%d,%d(R%d,R%d)'', ''R'', [PFX, hi4 b1, disp h, lo4 b1, hi4 b2]))))
   | IF_RX_MASK \<Rightarrow> bindR (peek bytes 1) (\<lambda>b1. bindR (be16 bytes 2) (\<lambda>h. bindR (peek bytes 2) (\<lambda>b2.
       Ok (IPFX @ ''%s%d,%d(R%d,R%d)'', '''', [PFX, hi4 b1, disp h, lo4 b1, hi4 b2]))))
   | IF_RXY \<Rightarrow> bindR (peek bytes 1) (\<lambda>b1. bindR (be16 bytes 2) (\<lambda>h. bindR (peek bytes 4) (\<lambda>b4. bindR (peek bytes 2) (\<lambda>b2.
       Ok (IPFX @ ''R%d,%d(R%d,R%d)'', '''', [hi4 b1, long_disp h b4, lo4 b1, hi4 b2])))))
   | IF_S \<Rightarrow> bindR (be16 bytes 2) (\<lambda>h. bindR (peek bytes 2) (\<lambda>b2.
       Ok (IPFX @ ''%d(R%d)'', '''', [disp h, hi4 b2])))
   | IF_SI \<Rightarrow> bindR (be16 bytes 2) (\<lambda>h. bindR (peek bytes 2) (\<lambda>b2. bindR (peek bytes 1) (\<lambda>b1.
       Ok (IPFX @ ''%d(R%d),%d'', '''', [disp h, hi4 b2, ucast b1]))))
   | IF_SS1 \<Rightarrow> bindR (be16 bytes 2) (\<lambda>h. bindR (peek bytes 1) (\<lambda>b1. bindR (peek bytes 2) (\<lambda>b2.
       bindR (be16 bytes 4) (\<lambda>g. bindR (peek bytes 4) (\<lambda>b4.
       Ok (IPFX @ ''%d(%d,R%d),%d(R%d)'', '''', [disp h, ucast b1 + 1, hi4 b2, disp g, hi4 b4]))))))
   | IF_SS2 \<Rightarrow> bindR (be16 bytes 2) (\<lambda>h. bindR (peek bytes 1) (\<lambda>b1. bindR (peek bytes 2) (\<lambda>b2.
       bindR (be16 bytes 4) (\<lambda>g. bindR (peek bytes 4) (\<lambda>b4.
       Ok (IPFX @ ''%d(%d,R%d),%d(%d,R%d)'', '''', [disp h, hi4 b1 + 1, hi4 b2, disp g, lo4 b1 + 1, hi4 b4]))))))
   | IF_SS3 \<Rightarrow> bindR (be16 bytes 2) (\<lambda>h. bindR (peek bytes 1) (\<lambda>b1. bindR (peek bytes 2) (\<lambda>b2.
       bindR (be16 bytes 4) (\<lambda>g. bindR (peek bytes 4) (\<lambda>b4.
       Ok (IPFX @ ''%d(%d,R%d),%d(R%d),%d'', '''', [disp h, hi4 b1 + 1, hi4 b2, disp g, hi4 b4, lo4 b1]))))))
   | IF_SS4 \<Rightarrow> bindR (be16 bytes 2) (\<lambda>h. bindR (peek bytes 1) (\<lambda>b1. bindR (peek bytes 2) (\<lambda>b2.
       bindR (be16 bytes 4) (\<lambda>g. bindR (peek bytes 4) (\<lambda>b4.
       Ok (IPFX @ ''%d(%d,R%d),%d(R%d),R%d'', '''', [disp h, hi4 b1 + 1, hi4 b2, disp g, hi4 b4, lo4 b1]))))))
   | IF_SS5 \<Rightarrow> bindR (peek bytes 1) (\<lambda>b1. bindR (be16 bytes 2) (\<lambda>h. bindR (peek bytes 2) (\<lambda>b2.
       bindR (be16 bytes 4) (\<lambda>g. bindR (peek bytes 4) (\<lambda>b4.
       Ok (IPFX @ ''R%d,R%d,%d(R%d),%d(R%d)'', '''', [hi4 b1, lo4 b1, disp h, hi4 b2, disp g, hi4 b4]))))))
   | _ \<Rightarrow> Ok (''%s ???'', '''', []))"

definition inst_length :: "u8 \<Rightarrow> nat" where
  "inst_length opcode = (let ilc = unat (drop_bit 6 opcode) in 2 * (if 2 \<le> ilc then ilc else ilc + 1))"

definition da_inst :: "u64 \<Rightarrow> u8 list \<Rightarrow> u8 list \<Rightarrow> u32 \<Rightarrow> inst_fmt \<Rightarrow> string \<Rightarrow> u8 list result" where
  "da_inst addr bytes buf buflen fmt name =
     bindR (da_args fmt bytes) (\<lambda>(f, pfx, args). da_print addr name pfx buf buflen f (NAME # args))"

lemma subtable_smaller [termination_simp]:
  "map_of table op = Some (DA_INST_TBL n t len loc) \<Longrightarrow>
     size_list (size_prod (\<lambda>_. 0) size) t < size_list (size_prod (\<lambda>_. 0) size) table"
  by (induction table) (auto split: if_splits)

definition MANY :: string where
  "MANY = ''??? (many, X'' @ [CHR 0x27] @ ''%02X'' @ [CHR 0x27] @ ''+  X'' @ [CHR 0x27] @ ''%02X'' @ [CHR 0x27] @ '', table = %p)''"

text \<open>
  The address of a table is never \<^verbatim>\<open>NULL\<close>, so the sub-table is always followed; its
  result is written over the note about it, and its return value is dropped.
\<close>

function (sequential) da_snprintf :: "((nat \<times> disassm_instruction) list \<Rightarrow> u64) \<Rightarrow> u64 \<Rightarrow> u8 list \<Rightarrow> u8 list \<Rightarrow> u32 \<Rightarrow> u8
    \<Rightarrow> nat \<Rightarrow> (nat \<times> disassm_instruction) list \<Rightarrow> (nat \<times> u8 list) result" where
  "da_snprintf tbl_addr addr bytes buf buflen opcode sz table =
     (if sz \<le> unat opcode then Stop OutOfBounds
      else
        bindR (case map_of table (unat opcode) of
            None \<Rightarrow> da_print addr '''' '''' buf buflen ''??'' []
          | Some (DA_INST fmt name) \<Rightarrow> da_inst addr bytes buf buflen fmt name
          | Some (DA_INST_TBL n t len loc) \<Rightarrow>
              bindR (peek bytes (loc div 8)) (\<lambda>subop.
                let subop = drop_bit (8 - len - loc mod 8) subop;
                    subop = subop AND (2 ^ len - 1)
                in bindR (da_print addr '''' '''' buf buflen
                       MANY
                       [ucast opcode, ucast subop, tbl_addr t]) (\<lambda>buf.
                   bindR (da_snprintf tbl_addr addr bytes buf buflen subop n t) (\<lambda>(_, buf). Ok buf))))
          (\<lambda>buf. Ok (inst_length opcode, buf)))"
  by pat_completeness auto
termination
  by (relation "measure (\<lambda>(_, _, _, _, _, _, _, table). size_list (size_prod (\<lambda>_. 0) size) table)")
    (auto dest: subtable_smaller)

declare da_snprintf.simps [simp del]

definition disassm :: "((nat \<times> disassm_instruction) list \<Rightarrow> u64) \<Rightarrow> u64 \<Rightarrow> u8 list \<Rightarrow> u8 list \<Rightarrow> u32 \<Rightarrow> (nat \<times> u8 list) result" where
  "disassm tbl_addr addr bytes buf buflen =
     bindR (peek bytes 0) (\<lambda>opcode. da_snprintf tbl_addr addr bytes buf buflen opcode 256 l1)"

section \<open>What an instruction looks like\<close>

text \<open>
  The specification reads an instruction as a sequence of half bytes: \<open>field bytes i n\<close> is
  the number formed by \<open>n\<close> of them from the \<open>i\<close>-th on.
\<close>

definition nibble :: "u8 list \<Rightarrow> nat \<Rightarrow> nat" where
  "nibble bytes k =
     (let b = unat (bytes ! (k div 2)) in if even k then b div 16 else b mod 16)"

fun field :: "u8 list \<Rightarrow> nat \<Rightarrow> nat \<Rightarrow> nat" where
  "field bytes i 0 = 0"
| "field bytes i (Suc n) = 16 * field bytes i n + nibble bytes (i + n)"

datatype operand =
    Reg nat
  | Num int
  | Hex nat nat
  | Disp nat nat
  | DispX nat nat nat
  | DispL nat nat nat

fun show_operand :: "operand \<Rightarrow> u8 list" where
  "show_operand (Reg r) = 82 # dec r"
| "show_operand (Num i) = dec_int i"
| "show_operand (Hex k n) = 88 # 39 # hexn k n @ [39]"
| "show_operand (Disp d b) = dec d @ 40 # 82 # dec b @ [41]"
| "show_operand (DispX d x b) = dec d @ 40 # 82 # dec x @ 44 # 82 # dec b @ [41]"
| "show_operand (DispL d l b) = dec d @ 40 # dec l @ 44 # 82 # dec b @ [41]"

fun show_operands :: "operand list \<Rightarrow> u8 list" where
  "show_operands [] = []"
| "show_operands [x] = show_operand x"
| "show_operands (x # xs) = show_operand x @ 44 # show_operands xs"

definition signed32 :: "nat \<Rightarrow> int" where
  "signed32 n = (if n < 2 ^ 31 then int n else int n - 2 ^ 32)"

text \<open>The operands of a format, or \<open>None\<close> for a format the disassembler only names.\<close>

definition operands :: "inst_fmt \<Rightarrow> u8 list \<Rightarrow> operand list option" where
  "operands fmt bytes =
     (let F = field bytes;
          r1 = Reg (F 2 1); r2 = Reg (F 3 1); m1 = Num (int (F 2 1)); m2 = Num (int (F 3 1));
          a1 = Disp (F 5 3) (F 4 1); a2 = Disp (F 9 3) (F 8 1); y = F 8 2 * 4096 + F 5 3
      in case fmt of
        IF_DIAG \<Rightarrow> Some [Hex 6 (F 2 6)]
      | IF_E \<Rightarrow> Some []
      | IF_I \<Rightarrow> Some [Hex 2 (F 2 2)]
      | IF_RI1 \<Rightarrow> Some [r1, Num (int (F 4 4))]
      | IF_RI2 \<Rightarrow> Some [m1, Num (int (F 4 4))]
      | IF_RIL1 \<Rightarrow> Some [r1, Num (signed32 (F 4 8))]
      | IF_RIL2 \<Rightarrow> Some [m1, Num (signed32 (F 4 8))]
      | IF_RR \<Rightarrow> Some [r1, r2]
      | IF_RR_MASK \<Rightarrow> Some [m1, r2]
      | IF_RRE \<Rightarrow> Some [Reg (F 6 1), Reg (F 7 1)]
      | IF_RS1 \<Rightarrow> Some [r1, r2, a1]
      | IF_RS2 \<Rightarrow> Some [r1, m2, a1]
      | IF_RSI \<Rightarrow> Some [r1, r2, Num (int (F 4 4))]
      | IF_RSY1 \<Rightarrow> Some [r1, r2, Disp y (F 4 1)]
      | IF_RSY2 \<Rightarrow> Some [r1, m2, Disp y (F 4 1)]
      | IF_RX \<Rightarrow> Some [r1, DispX (F 5 3) (F 3 1) (F 4 1)]
      | IF_RX_MASK \<Rightarrow> Some [m1, DispX (F 5 3) (F 3 1) (F 4 1)]
      | IF_RXY \<Rightarrow> Some [r1, DispX y (F 3 1) (F 4 1)]
      | IF_S \<Rightarrow> Some [a1]
      | IF_SI \<Rightarrow> Some [a1, Num (int (F 2 2))]
      | IF_SS1 \<Rightarrow> Some [DispL (F 5 3) (F 2 2 + 1) (F 4 1), a2]
      | IF_SS2 \<Rightarrow> Some [DispL (F 5 3) (F 2 1 + 1) (F 4 1), DispL (F 9 3) (F 3 1 + 1) (F 8 1)]
      | IF_SS3 \<Rightarrow> Some [DispL (F 5 3) (F 2 1 + 1) (F 4 1), a2, m2]
      | IF_SS4 \<Rightarrow> Some [DispL (F 5 3) (F 2 1 + 1) (F 4 1), a2, r2]
      | IF_SS5 \<Rightarrow> Some [r1, r2, a1, a2]
      | _ \<Rightarrow> None)"

definition show_inst :: "inst_fmt \<Rightarrow> string \<Rightarrow> u8 list \<Rightarrow> u8 list" where
  "show_inst fmt name bytes = (case operands fmt bytes of
     None \<Rightarrow> ascii name @ [32, 63, 63, 63]
   | Some ops \<Rightarrow> pad_right 6 (ascii name) @ 32 # show_operands ops)"

text \<open>The entry for an instruction: its first byte selects it, and a field of it where there is a sub-table.\<close>

definition find_inst :: "u8 list \<Rightarrow> (inst_fmt \<times> string) option" where
  "find_inst bytes = (case map_of l1 (field bytes 0 2) of
     Some (DA_INST fmt name) \<Rightarrow> Some (fmt, name)
   | Some (DA_INST_TBL _ t len loc) \<Rightarrow> (case map_of t (field bytes (loc div 4) (len div 4)) of
       Some (DA_INST fmt name) \<Rightarrow> Some (fmt, name)
     | _ \<Rightarrow> None)
   | None \<Rightarrow> None)"

definition inst_text :: "u8 list \<Rightarrow> u8 list" where
  "inst_text bytes = (case find_inst bytes of None \<Rightarrow> [63, 63] | Some (fmt, name) \<Rightarrow> show_inst fmt name bytes)"

section \<open>Fields and words\<close>

lemma nibble_pair: "16 * (b div 16) + b mod 16 = (b :: nat)"
  by simp

lemma field_byte: "field bytes (2 * k) 2 = unat (bytes ! k)"
proof -
  have two: "field bytes i (Suc (Suc 0)) = 16 * nibble bytes i + nibble bytes (Suc i)" for i by simp
  have "field bytes (2 * k) (Suc (Suc 0)) = unat (bytes ! k)" unfolding two by (simp add: nibble_def)
  then show ?thesis by (simp only: numeral_2_eq_2)
qed

lemma field_split: "field bytes i (m + n) = 16 ^ n * field bytes i m + field bytes (i + m) n"
  by (induction n) (simp_all add: algebra_simps)

lemma field_join: "k = m + n \<Longrightarrow> j = i + m \<Longrightarrow> field bytes i k = 16 ^ n * field bytes i m + field bytes j n"
  by (simp only: field_split)

lemma fields:
  "field bytes 0 2 = unat (bytes ! 0)"
  "field bytes 2 1 = unat (bytes ! 1) div 16" "field bytes 3 1 = unat (bytes ! 1) mod 16"
  "field bytes 2 2 = unat (bytes ! 1)"
  "field bytes 4 1 = unat (bytes ! 2) div 16"
  "field bytes 6 1 = unat (bytes ! 3) div 16" "field bytes 7 1 = unat (bytes ! 3) mod 16"
  "field bytes 8 1 = unat (bytes ! 4) div 16" "field bytes 8 2 = unat (bytes ! 4)"
  "field bytes 10 2 = unat (bytes ! 5)"
  "field bytes 5 3 = 256 * (unat (bytes ! 2) mod 16) + unat (bytes ! 3)"
  "field bytes 9 3 = 256 * (unat (bytes ! 4) mod 16) + unat (bytes ! 5)"
  "field bytes 4 4 = 256 * unat (bytes ! 2) + unat (bytes ! 3)"
  "field bytes 4 8 = 65536 * (256 * unat (bytes ! 2) + unat (bytes ! 3)) + (256 * unat (bytes ! 4) + unat (bytes ! 5))"
  "field bytes 2 6 = 65536 * unat (bytes ! 1) + (256 * unat (bytes ! 2) + unat (bytes ! 3))"
proof -
  note b = field_byte [of bytes 0, simplified] field_byte [of bytes 1, simplified] field_byte [of bytes 2, simplified]
    field_byte [of bytes 3, simplified] field_byte [of bytes 4, simplified] field_byte [of bytes 5, simplified]
  have 1: "field bytes i 1 = nibble bytes i" for i by simp
  show "field bytes 0 2 = unat (bytes ! 0)" "field bytes 2 2 = unat (bytes ! 1)"
    "field bytes 8 2 = unat (bytes ! 4)" "field bytes 10 2 = unat (bytes ! 5)"
    using b by simp_all
  show "field bytes 2 1 = unat (bytes ! 1) div 16" "field bytes 3 1 = unat (bytes ! 1) mod 16"
    "field bytes 4 1 = unat (bytes ! 2) div 16"
    "field bytes 6 1 = unat (bytes ! 3) div 16" "field bytes 7 1 = unat (bytes ! 3) mod 16"
    "field bytes 8 1 = unat (bytes ! 4) div 16"
    unfolding 1 by (simp_all add: nibble_def)
  have one: "field bytes 5 1 = unat (bytes ! 2) mod 16" "field bytes 9 1 = unat (bytes ! 4) mod 16"
    unfolding 1 by (simp_all add: nibble_def)
  show "field bytes 5 3 = 256 * (unat (bytes ! 2) mod 16) + unat (bytes ! 3)"
    by (subst field_join [of 3 1 2 6]) (simp_all add: one [unfolded One_nat_def] b del: field.simps)
  show "field bytes 9 3 = 256 * (unat (bytes ! 4) mod 16) + unat (bytes ! 5)"
    by (subst field_join [of 3 1 2 10]) (simp_all add: one [unfolded One_nat_def] b del: field.simps)
  have 4: "field bytes 4 4 = 256 * unat (bytes ! 2) + unat (bytes ! 3)"
    "field bytes 8 4 = 256 * unat (bytes ! 4) + unat (bytes ! 5)"
    by (subst field_join [of 4 2 2 6], simp_all add: b) (subst field_join [of 4 2 2 10], simp_all add: b)
  show "field bytes 4 4 = 256 * unat (bytes ! 2) + unat (bytes ! 3)" by (rule 4)
  show "field bytes 4 8 = 65536 * (256 * unat (bytes ! 2) + unat (bytes ! 3)) + (256 * unat (bytes ! 4) + unat (bytes ! 5))"
    by (subst field_join [of 8 4 4 8]) (simp_all add: 4)
  show "field bytes 2 6 = 65536 * unat (bytes ! 1) + (256 * unat (bytes ! 2) + unat (bytes ! 3))"
    by (subst field_join [of 6 2 4 4]) (simp_all add: 4 b)
qed

declare field.simps [simp del]

lemma unat_get16: "unat (get16 h l) = 256 * unat h + unat l"
proof -
  have "get16 h l = of_nat (256 * unat h + unat l)"
    using push_bit_or_of_nat [of "unat l" 8 "ucast h :: u16"] unsigned_less [of l, where ?'a = nat]
    by (simp add: get16_def)
  then show ?thesis
    using unsigned_less [of l, where ?'a = nat] unsigned_less [of h, where ?'a = nat]
    by (simp add: unat_of_nat_small del: of_nat_add of_nat_mult)
qed

lemma unat_get32: "unat (push_bit 16 (ucast (h :: u16)) OR ucast (l :: u16) :: u32) = 65536 * unat h + unat l"
proof -
  have "push_bit 16 (ucast h) OR ucast l = (of_nat (65536 * unat h + unat l) :: u32)"
    using push_bit_or_of_nat [of "unat l" 16 "ucast h :: u32"] unsigned_less [of l, where ?'a = nat]
    by simp
  then show ?thesis
    using unsigned_less [of l, where ?'a = nat] unsigned_less [of h, where ?'a = nat]
    by (simp add: unat_of_nat_small del: of_nat_add of_nat_mult)
qed

lemma unat_mask: "x AND 0xf = take_bit 4 x" "y AND 0xfff = take_bit 12 y" "z AND 0xffffff = take_bit 24 z"
  for x :: u8 and y :: "'a::len word" and z :: u32
proof -
  have "(0xf :: u8) = mask 4" "(0xfff :: 'a word) = mask 12" "(0xffffff :: u32) = mask 24"
    by (simp_all add: mask_eq_exp_minus_1)
  then show "x AND 0xf = take_bit 4 x" "y AND 0xfff = take_bit 12 y" "z AND 0xffffff = take_bit 24 z"
    by (simp_all only: take_bit_eq_mask)
qed

lemma unat_args [simp]:
  "unat (hi4 b) = unat b div 16" "unat (lo4 b) = unat b mod 16"
  "unat (disp (get16 h l)) = 256 * (unat h mod 16) + unat l"
  "unat (long_disp (get16 h l) d) = unat d * 4096 + (256 * (unat h mod 16) + unat l)"
proof -
  show "unat (hi4 b) = unat b div 16" "unat (lo4 b) = unat b mod 16"
    by (simp_all add: hi4_def lo4_def unat_mask unsigned_drop_bit_eq drop_bit_eq_div unsigned_take_bit_eq take_bit_eq_mod unat_div unat_mod)
  have m: "(256 * unat h + unat l) mod 4096 = 256 * (unat h mod 16) + unat l"
  proof -
    have "256 * unat h + unat l = 256 * (unat h mod 16) + unat l + 4096 * (unat h div 16)"
      using mult_div_mod_eq [of 16 "unat h"] by linarith
    moreover have "256 * (unat h mod 16) + unat l < 4096"
      using unsigned_less [of l, where ?'a = nat] mod_less_divisor [of 16 "unat h"] by simp
    ultimately show ?thesis by (metis mod_less mod_mult_self2)
  qed
  show "unat (disp (get16 h l)) = 256 * (unat h mod 16) + unat l"
    by (simp add: disp_def unat_mask unsigned_take_bit_eq take_bit_eq_mod unat_mod unat_get16 m)
  have "(ucast (get16 h l) AND 0xfff) + push_bit 12 (ucast d) = (of_nat (unat d * 4096 + (256 * (unat h mod 16) + unat l)) :: u32)"
  proof -
    have "ucast (get16 h l) AND 0xfff = (of_nat ((256 * unat h + unat l) mod 4096) :: u32)"
      by (rule word_unat_eq_iff [THEN iffD2])
        (simp add: unat_mask unsigned_take_bit_eq take_bit_eq_mod unat_mod unat_get16 unat_of_nat_small del: of_nat_add of_nat_mult)
    also have "(256 * unat h + unat l) mod 4096 = 256 * (unat h mod 16) + unat l" by (rule m)
    finally show ?thesis by (simp add: push_bit_eq_mult algebra_simps)
  qed
  moreover have "unat d * 4096 + (256 * (unat h mod 16) + unat l) < 2 ^ 32"
    using unsigned_less [of l, where ?'a = nat] unsigned_less [of d, where ?'a = nat] by simp
  ultimately show "unat (long_disp (get16 h l) d) = unat d * 4096 + (256 * (unat h mod 16) + unat l)"
    by (simp add: long_disp_def unat_of_nat_small del: of_nat_add of_nat_mult)
qed

lemma unat_byte_arg: "unat (ucast (b :: u8) + 1 :: u64) = unat b + 1" "unat (hi4 b + 1) = unat b div 16 + 1"
  "unat (lo4 b + 1) = unat b mod 16 + 1"
proof -
  have p: "unat (x + 1 :: u64) = unat x + 1" if "unat x < 256" for x
    using that by (simp add: unat_word_ariths)
  have "unat b < 256" using unsigned_less [of b, where ?'a = nat] by simp
  then show "unat (ucast (b :: u8) + 1 :: u64) = unat b + 1" "unat (hi4 b + 1) = unat b div 16 + 1"
    "unat (lo4 b + 1) = unat b mod 16 + 1"
    by (simp_all add: p)
qed

text \<open>An argument slot read by \<^verbatim>\<open>%d\<close>.\<close>

lemma as_int_small: "unat a < 2 ^ 31 \<Longrightarrow> as_int a = int (unat a)"
  by (simp add: as_int_def int_size_small)

lemma as_int_u32: "as_int (ucast (w :: u32)) = signed32 (unat w)"
proof -
  have w: "(ucast (ucast w :: u64) :: u32) = w" by (rule bit_word_eqI) (simp add: bit_simps)
  have "sint w = signed_take_bit 31 (int (unat w))" by (simp add: sint_uint)
  also have "\<dots> = signed32 (unat w)"
  proof (cases "unat w < 2 ^ 31")
    case True
    then have "int (unat w) < int (2 ^ 31)" by (simp only: of_nat_less_iff)
    then have "signed_take_bit 31 (int (unat w)) = int (unat w)" by (intro signed_take_bit_int_eq_self) (simp_all add: order_trans [OF _ uint_ge_0])
    with True show ?thesis by (simp only: signed32_def if_True)
  next
    case False
    then have "int (2 ^ 31) \<le> int (unat w)" "int (unat w) < int (2 ^ 32)"
      using unsigned_less [of w, where ?'a = nat] by (simp_all only: of_nat_less_iff of_nat_le_iff len_num1 not_less) simp
    then have "signed_take_bit 31 (int (unat w) - 2 ^ 32) = int (unat w) - 2 ^ 32"
      by (intro signed_take_bit_int_eq_self) simp_all
    moreover have "signed_take_bit 31 (int (unat w)) = signed_take_bit 31 (int (unat w) - 2 ^ 32)"
      unfolding signed_take_bit_eq_iff_take_bit_eq by (simp add: take_bit_eq_mod)
    ultimately show ?thesis using False by (simp add: signed32_def)
  qed
  finally show ?thesis by (simp add: as_int_def w)
qed

section \<open>The texts of the formats\<close>

lemma prints_num: "as_int a = i \<Longrightarrow> prints mem r args t \<Longrightarrow> prints mem (37 # 100 # r) (a # args) (dec_int i @ t)"
  using prints_d by blast

lemma prints_nat: "unat a = n \<Longrightarrow> n < 2 ^ 31 \<Longrightarrow> prints mem r args t \<Longrightarrow> prints mem (37 # 100 # r) (a # args) (dec n @ t)"
  using prints_num [of a "int n"] by (simp add: as_int_small dec_int_def)

lemma prints_str:
  assumes "mem a = s @ [0]" and "0 \<notin> set s" and "4096 \<le> a" and "prints mem r args t"
  shows "prints mem (37 # 115 # r) (a # args) (s @ t)"
proof -
  have "cstr (mem a) = s" "terminated (mem a)" using assms(1,2) by (simp_all add: terminated_def)
  then show ?thesis using assms(3,4) prints_directive [of a args mem "115 # r" "cstr (mem a)" r t, OF directive_s] by simp
qed

lemma prints_name:
  assumes "mem a = s @ [0]" and "0 \<notin> set s" and "4096 \<le> a" and "prints mem r args t"
  shows "prints mem (37 # 45 # 54 # 115 # r) (a # args) (pad_right 6 s @ t)"
proof -
  have "cstr (mem a) = s" "terminated (mem a)" using assms(1,2) by (simp_all add: terminated_def)
  then show ?thesis using assms(3,4) prints_directive [of a args mem "45 # 54 # 115 # r" "pad_right 6 (cstr (mem a))" r t, OF directive_left6s] by simp
qed

lemma strings_simps [simp]: "strings name pfx NAME = ascii name @ [0]" "strings name pfx PFX = ascii pfx @ [0]"
  "4096 \<le> NAME" "4096 \<le> PFX"
  by (simp_all add: strings_def NAME_def PFX_def)

lemma ascii_simps [simp]: "ascii [] = []" "ascii (c # s) = of_nat (of_char c) # ascii s"
  by (simp_all add: ascii_def)

definition fmt_length :: "inst_fmt \<Rightarrow> nat" where
  "fmt_length fmt =
     (if fmt \<in> {IF_DIAG, IF_RI1, IF_RI2, IF_RRE, IF_RS1, IF_RS2, IF_RSI, IF_RX, IF_RX_MASK, IF_S, IF_SI} then 4
      else if fmt \<in> {IF_RSY1, IF_RSY2, IF_RXY} then 5
      else if fmt \<in> {IF_RIL1, IF_RIL2, IF_SS1, IF_SS2, IF_SS3, IF_SS4, IF_SS5} then 6
      else if fmt \<in> {IF_I, IF_RR, IF_RR_MASK} then 2
      else 0)"

lemma prints_char_str: "mem a = [c, 0] \<Longrightarrow> c \<noteq> 0 \<Longrightarrow> 4096 \<le> a \<Longrightarrow> prints mem r args t \<Longrightarrow> prints mem (37 # 115 # r) (a # args) (c # t)"
  using prints_str [of mem a "[c]" r args t] by simp

lemma prints_no_str: "mem a = [0] \<Longrightarrow> 4096 \<le> a \<Longrightarrow> prints mem r args t \<Longrightarrow> prints mem (37 # 115 # r) (a # args) t"
  using prints_str [of mem a "[]" r args t] by simp

lemma prints_hex2: "unat a = n \<Longrightarrow> n < 256 \<Longrightarrow> prints mem r args t \<Longrightarrow> prints mem (37 # 48 # 50 # 88 # r) (a # args) (hexn 2 n @ t)"
  using prints_directive [of a args mem "48 # 50 # 88 # r" "hexn 2 (unat a)" r t] directive_0kX [of _ a args 2 50] by auto

lemma prints_hex6: "unat a = n \<Longrightarrow> n < 2 ^ 24 \<Longrightarrow> prints mem r args t \<Longrightarrow> prints mem (37 # 48 # 54 # 88 # r) (a # args) (hexn 6 n @ t)"
  using prints_directive [of a args mem "48 # 54 # 88 # r" "hexn 6 (unat a)" r t] directive_0kX [of _ a args 6 54] by auto

lemma byte_bounds [simp]:
  "unat (b :: u8) < 2147483647" "unat b < 256" "unat b div 16 < 2147483648" "unat b mod 16 < 2147483648" "unat b div 16 < 2147483647" "unat b mod 16 < 2147483647"
  "256 * (unat b mod 16) + unat (c :: u8) < 2147483648"
  "unat (d :: u8) * 4096 + (256 * (unat b mod 16) + unat c) < 2147483648"
  "65536 * unat b + (256 * unat c + unat d) < 16777216"
proof -
  have u: "unat (x :: u8) < 256" for x using unsigned_less [of x, where ?'a = nat] by simp
  show "unat (b :: u8) < 2147483647" "unat b < 256" "unat b div 16 < 2147483648" "unat b div 16 < 2147483647"
    using u [of b] by simp_all
  have m: "unat b mod 16 < 16" by simp
  show "unat b mod 16 < 2147483648" "unat b mod 16 < 2147483647"
    "256 * (unat b mod 16) + unat (c :: u8) < 2147483648"
    "unat (d :: u8) * 4096 + (256 * (unat b mod 16) + unat c) < 2147483648"
    "65536 * unat b + (256 * unat c + unat d) < 16777216"
    using m u [of b] u [of c] u [of d] by linarith+
qed

lemma as_int_args [simp]:
  "as_int (hi4 b) = int (unat b div 16)" "as_int (lo4 b) = int (unat b mod 16)"
  "as_int (ucast (b :: u8)) = int (unat b)"
  "as_int (ucast (get16 h l)) = int (256 * unat h + unat l)"
  "as_int (ucast (push_bit 16 (ucast (get16 b c)) OR ucast (get16 h l) :: u32))
    = signed32 (65536 * (256 * unat b + unat c) + (256 * unat h + unat l))"
  subgoal by (subst as_int_small) simp_all
  subgoal by (subst as_int_small) simp_all
  subgoal by (subst as_int_small) (simp_all add: less_trans [OF byte_bounds(1)])
  subgoal using unsigned_less [of "get16 h l", where ?'a = nat] by (subst as_int_small) (simp_all add: unat_get16)
  subgoal unfolding as_int_u32 unat_get32 unat_get16 ..
  done

lemma unat_diag: "unat ((push_bit 16 (ucast (get16 b c)) OR ucast (get16 h l)) AND 0xffffff :: u32)
    = 65536 * unat c + (256 * unat h + unat l)"
proof -
  have "(65536 * (256 * unat b + unat c) + (256 * unat h + unat l)) mod 16777216 = 65536 * unat c + (256 * unat h + unat l)"
  proof -
    have "65536 * (256 * unat b + unat c) + (256 * unat h + unat l)
      = (65536 * unat c + (256 * unat h + unat l)) + 16777216 * unat b" by simp
    then show ?thesis by (metis mod_less mod_mult_self2 byte_bounds(9))
  qed
  then show ?thesis by (simp add: unat_mask unsigned_take_bit_eq take_bit_eq_mod unat_mod unat_get32 unat_get16)
qed

lemma be32_gives:
  "4 \<le> length bytes \<Longrightarrow> be32 bytes 0
    = Ok (push_bit 16 (ucast (get16 (bytes ! 0) (bytes ! Suc 0))) OR ucast (get16 (bytes ! 2) (bytes ! 3)))"
  "6 \<le> length bytes \<Longrightarrow> be32 bytes 2
    = Ok (push_bit 16 (ucast (get16 (bytes ! 2) (bytes ! 3))) OR ucast (get16 (bytes ! 4) (bytes ! 5)))"
  by (auto simp: be32_def be16_def peek_def eval_nat_numeral)

lemmas da_args_simps = fmt_length_def da_args_def be16_def be32_gives IPFX_def show_inst_def operands_def Let_def
  fields [unfolded One_nat_def]

lemmas prints_num_end = prints_num [OF _ prints_end, unfolded append_Nil2]
lemmas prints_nat_end = prints_nat [OF _ _ prints_end, unfolded append_Nil2]

lemma da_args_prints:
  assumes len: "fmt_length fmt \<le> length bytes" and name: "0 \<notin> set (ascii name)"
  shows "\<exists>f pfx args. da_args fmt bytes = Ok (f, pfx, args)
    \<and> prints (strings name pfx) (ascii f @ [0]) (NAME # args) (show_inst fmt name bytes)"
  using len name
  apply (cases fmt)
  apply (simp_all add: da_args_simps)
  apply (((rule prints_end)
    | (rule prints_char, (simp; fail), (simp; fail))
    | (rule prints_name, (simp; fail), (simp; fail), (simp; fail))
    | (rule prints_nat prints_nat_end, (simp add: unat_byte_arg; fail), (simp; fail))
    | (rule prints_num prints_num_end, (simp; fail))
    | (rule prints_char_str, (simp; fail), (simp; fail), (simp; fail))
    | (rule prints_no_str, (simp; fail), (simp; fail))
    | (rule prints_str, (simp; fail), (simp; fail), (simp; fail))
    | (rule prints_hex2, (simp; fail), (simp; fail))
    | (rule prints_hex6, (simp add: unat_diag; fail), (simp; fail)))+)
  done

section \<open>The tables\<close>

text \<open>
  What the code relies on: the indices of a table are strictly increasing and below its size, a
  sub-table has no sub-tables of its own, its sub-opcode lies in the instruction and selects
  among as many entries as the table has, and every operand lies in the instruction, whose
  length is given by its first byte.
\<close>

fun ascending :: "nat list \<Rightarrow> bool" where
  "ascending (x # y # xs) \<longleftrightarrow> x < y \<and> ascending (y # xs)"
| "ascending _ \<longleftrightarrow> True"

definition name_ok :: "string \<Rightarrow> bool" where
  "name_ok name \<longleftrightarrow> name \<noteq> [] \<and> list_all (\<lambda>c. c \<noteq> CHR 0x00) name"

fun sub_entry_ok :: "nat \<Rightarrow> disassm_instruction \<Rightarrow> bool" where
  "sub_entry_ok n (DA_INST fmt name) \<longleftrightarrow> fmt_length fmt \<le> n \<and> name_ok name \<and> fmt \<noteq> IF_INV \<and> fmt \<noteq> IF_VAR"
| "sub_entry_ok n (DA_INST_TBL _ _ _ _) \<longleftrightarrow> False"

definition table_ok :: "(nat \<Rightarrow> disassm_instruction \<Rightarrow> bool) \<Rightarrow> nat \<Rightarrow> (nat \<times> disassm_instruction) list \<Rightarrow> bool" where
  "table_ok ok sz t \<longleftrightarrow> ascending (map fst t) \<and> list_all (\<lambda>(i, e). i < sz \<and> ok i e) t"

definition length_of :: "nat \<Rightarrow> nat" where
  "length_of op = (if op < 64 then 2 else if op < 192 then 4 else 6)"

fun entry_ok :: "nat \<Rightarrow> disassm_instruction \<Rightarrow> bool" where
  "entry_ok op (DA_INST fmt name) \<longleftrightarrow> sub_entry_ok (length_of op) (DA_INST fmt name)"
| "entry_ok op (DA_INST_TBL sz t len loc) \<longleftrightarrow>
     (len = 8 \<and> loc = 8 \<and> sz = 256 \<or> len = 4 \<and> loc = 12 \<and> sz = 16 \<or> len = 8 \<and> loc = 40 \<and> sz = 256)
     \<and> loc div 8 < length_of op \<and> table_ok (\<lambda>_. sub_entry_ok (length_of op)) sz t"

lemmas table_simps = table_ok_def name_ok_def fmt_length_def

lemma subtables_ok:
  "table_ok (\<lambda>_. sub_entry_ok 2) 256 l2_01"
  "table_ok (\<lambda>_. sub_entry_ok 4) 16 l2_a5"
  "table_ok (\<lambda>_. sub_entry_ok 4) 16 l2_a7"
  "table_ok (\<lambda>_. sub_entry_ok 4) 256 l2_b2"
  "table_ok (\<lambda>_. sub_entry_ok 4) 256 l2_b3"
  "table_ok (\<lambda>_. sub_entry_ok 4) 256 l2_b9"
  "table_ok (\<lambda>_. sub_entry_ok 6) 16 l2_c0"
  "table_ok (\<lambda>_. sub_entry_ok 6) 16 l2_c2"
  "table_ok (\<lambda>_. sub_entry_ok 6) 16 l2_c4"
  "table_ok (\<lambda>_. sub_entry_ok 6) 16 l2_c6"
  "table_ok (\<lambda>_. sub_entry_ok 6) 16 l2_c8"
  "table_ok (\<lambda>_. sub_entry_ok 6) 256 l2_e3"
  "table_ok (\<lambda>_. sub_entry_ok 6) 256 l2_e5"
  "table_ok (\<lambda>_. sub_entry_ok 6) 256 l2_eb"
  "table_ok (\<lambda>_. sub_entry_ok 6) 256 l2_ec"
  "table_ok (\<lambda>_. sub_entry_ok 6) 256 l2_ed"
  by (simp_all add: table_simps l2_01_def l2_a5_def l2_a7_def l2_b2_def l2_b3_def l2_b9_def l2_c0_def l2_c2_def l2_c4_def l2_c6_def l2_c8_def l2_e3_def l2_e5_def l2_eb_def l2_ec_def l2_ed_def l2_b3_low_def l2_b3_high_def)

lemma l1_entries:
  "list_all (\<lambda>(i, e). i < 256 \<and> entry_ok i e) l1_low"
  "list_all (\<lambda>(i, e). i < 256 \<and> entry_ok i e) l1_high"
  by (simp_all add: l1_low_def l1_high_def name_ok_def fmt_length_def length_of_def subtables_ok [unfolded One_nat_def])

lemma l1_ascending: "ascending (map fst l1)"
  by (simp add: l1_def l1_low_def l1_high_def)

lemma l1_ok: "table_ok entry_ok 256 l1"
  using l1_entries l1_ascending by (simp add: table_ok_def l1_def)

lemma table_entry: "table_ok ok sz t \<Longrightarrow> map_of t i = Some e \<Longrightarrow> i < sz \<and> ok i e"
  by (auto simp: table_ok_def list_all_iff dest: map_of_SomeD)

lemma inst_length_of: "inst_length op = length_of (unat op)"
proof -
  have "unat (drop_bit 6 op) = unat op div 64" by (simp add: unsigned_drop_bit_eq drop_bit_eq_div unat_div)
  moreover have "unat op < 256" using unsigned_less [of op, where ?'a = nat] by simp
  ultimately show ?thesis unfolding inst_length_def length_of_def Let_def
    by (cases "unat op < 64"; cases "unat op < 128"; cases "unat op < 192") (simp_all add: div_nat_eqI split: if_splits) 
qed

lemma name_no_nul: "name_ok name \<Longrightarrow> 0 \<notin> set (ascii name)"
proof -
  have "(of_nat (of_char c) :: u8) = 0 \<longleftrightarrow> c = CHR 0x00" for c
  proof -
    have "of_char c < (256 :: nat)" by (metis of_char_mod_256 mod_less_divisor zero_less_numeral)
    then have "unat (of_nat (of_char c) :: u8) = of_char c" by (intro unat_of_nat_small) simp
    then have "(of_nat (of_char c) :: u8) = 0 \<longleftrightarrow> of_char c = (0 :: nat)"
      using unat_eq_0 [of "of_nat (of_char c) :: u8"] by (simp only:)
    also have "\<dots> \<longleftrightarrow> of_char c = (of_char (CHR 0x00) :: nat)" by simp
    finally show ?thesis by (simp only: of_char_eq_iff)
  qed
  note nul = this
  assume "name_ok name"
  then have "CHR 0x00 \<notin> set name" by (auto simp: name_ok_def list_all_iff)
  then show "0 \<notin> set (ascii name)" using nul unfolding ascii_def set_map image_iff by metis
qed

section \<open>Disassembling\<close>

lemma byte_mask: "(x :: u8) AND 255 = x"
proof -
  have "(255 :: u8) = - 1" by simp
  then show ?thesis by (simp only: and.right_neutral)
qed

lemma length_in_buffer [simp]: "n \<le> length buf \<Longrightarrow> length (in_buffer n buf t) = length buf"
  by (auto simp: in_buffer_def)

lemma drop_in_buffer [simp]: "n \<le> length buf \<Longrightarrow> drop n (in_buffer n buf t) = drop n buf"
  by (cases "n = 0"; cases "n - 1 \<le> length t") (auto simp: in_buffer_def min_def drop_Cons')

lemma da_print_gives:
  assumes "prints (strings name pfx) (ascii f @ [0]) args t"
    and "0 \<le> sint buflen" "unat buflen \<le> length buf" "addr \<le> addr + ucast buflen"
  shows "da_print addr name pfx buf buflen f args = Ok (in_buffer (unat buflen) buf t)"
  using snprintf_prints [OF assms] by (auto simp: da_print_def)

lemma da_inst_gives:
  assumes "fmt_length fmt \<le> length bytes" and "name_ok name"
    and "0 \<le> sint buflen" "unat buflen \<le> length buf" "addr \<le> addr + ucast buflen"
  shows "da_inst addr bytes buf buflen fmt name = Ok (in_buffer (unat buflen) buf (show_inst fmt name bytes))"
  using da_args_prints [OF assms(1) name_no_nul [OF assms(2)]] da_print_gives [OF _ assms(3-5)]
  by (auto simp: da_inst_def)

lemma directive_p: "\<exists>u. \<forall>lim st. fargs st = a # as \<longrightarrow>
    directive lim mem (112 # r) st = Ok (st\<lparr>fout := puts lim u (fout st), fargs := as\<rparr>, r)"
proof -
  obtain u where u: "\<And>lim st. number lim a 16 16 (- 1) (0 OR ZEROPAD) st = Some (puts lim u st)"
    using number_emits [of 16 a 16 "- 1" "0 OR ZEROPAD"] by auto
  have q: "ascii ''hlLZzt'' = [104, 108, 76, 90, 122, 116]" by code_simp
  have "\<not> isdigit 112" by (simp add: isdigit_range)
  then have "directive lim mem (112 # r) st = Ok (st\<lparr>fout := puts lim u (fout st), fargs := as\<rparr>, r)"
    if "fargs st = a # as" for lim st
    using u that by (simp add: directive_def field_width_of_def precision_of_def qualifier_of_def q convert_def Let_def
        conv_num_def va_arg_def)
  then show ?thesis by blast
qed

lemma note_prints: "\<exists>t. prints mem
    (ascii MANY @ [0])
    [ucast (x :: u8), ucast (y :: u8), p] t"
proof -
  obtain u where u: "\<And>lim st. fargs st = [p] \<Longrightarrow> directive lim mem (112 # [41, 0]) st
      = Ok (st\<lparr>fout := puts lim u (fout st), fargs := []\<rparr>, [41, 0])"
    using directive_p [of p "[]" mem "[41, 0]"] by auto
  have "prints mem [41, 0] [] [41]" by (rule prints_char) (simp_all add: prints_end)
  from prints_directive [OF u this] have p: "prints mem [37, 112, 41, 0] [p] (u @ [41])" by simp
  show ?thesis
    apply (simp add: MANY_def)
    apply (rule exI)
    apply (((rule p)
      | (rule prints_char, (simp; fail), (simp; fail))
      | (rule prints_hex2 [OF refl], (simp; fail)))+)
    done
qed

definition table_text :: "(nat \<times> disassm_instruction) list \<Rightarrow> nat \<Rightarrow> u8 list \<Rightarrow> u8 list" where
  "table_text t i bytes = (case map_of t i of Some (DA_INST fmt name) \<Rightarrow> show_inst fmt name bytes | _ \<Rightarrow> [63, 63])"

lemma question_prints: "prints mem (ascii ''??'' @ [0]) [] [63, 63]"
  by simp (intro prints_char prints_end; simp)

lemma da_sub_gives:
  assumes t: "table_ok (\<lambda>_. sub_entry_ok n) sz t" and op: "unat op < sz" and n: "n \<le> length bytes"
    and buf: "0 \<le> sint buflen" "unat buflen \<le> length buf" "addr \<le> addr + ucast buflen"
  shows "da_snprintf tbl_addr addr bytes buf buflen op sz t
    = Ok (inst_length op, in_buffer (unat buflen) buf (table_text t (unat op) bytes))"
proof (cases "map_of t (unat op)")
  case None
  then show ?thesis
    using op da_print_gives [OF question_prints buf] by (simp add: da_snprintf.simps [of _ _ _ _ _ op] table_text_def)
next
  case (Some e)
  from table_entry [OF t Some] have ok: "sub_entry_ok n e" by simp
  then obtain fmt name where e: "e = DA_INST fmt name" by (cases e) auto
  with ok n have "fmt_length fmt \<le> length bytes" "name_ok name" by auto
  from da_inst_gives [OF this buf] op Some show ?thesis
    by (simp add: da_snprintf.simps [of _ _ _ _ _ op] table_text_def e)
qed

lemma disassm_gives:
  assumes bytes: "inst_length (bytes ! 0) \<le> length bytes"
    and buf: "0 \<le> sint buflen" "unat buflen \<le> length buf" "addr \<le> addr + ucast buflen"
  shows "\<exists>buf'. disassm tbl_addr addr bytes buf buflen
      = Ok (inst_length (bytes ! 0), in_buffer (unat buflen) buf' (inst_text bytes))
    \<and> length buf' = length buf \<and> drop (unat buflen) buf' = drop (unat buflen) buf"
proof -
  let ?op = "bytes ! 0" let ?n = "length_of (unat ?op)"
  have n: "?n \<le> length bytes" using bytes by (simp add: inst_length_of)
  have ne: "bytes \<noteq> []" using n by (auto simp: length_of_def split: if_splits)
  have lt: "\<not> 256 \<le> unat ?op" by (simp add: not_le)
  have d: "disassm tbl_addr addr bytes buf buflen = da_snprintf tbl_addr addr bytes buf buflen ?op 256 l1"
    using ne by (simp add: disassm_def)
  show ?thesis
  proof (cases "map_of l1 (unat ?op)")
    case None
    then show ?thesis
      using lt da_print_gives [OF question_prints buf]
      by (intro exI [of _ buf]) (simp add: d da_snprintf.simps [of _ _ _ _ _ ?op] inst_text_def find_inst_def fields(1))
  next
    case (Some e)
    note ok = table_entry [OF l1_ok Some]
    show ?thesis
    proof (cases e)
      case (DA_INST fmt name)
      with ok n have "fmt_length fmt \<le> length bytes" "name_ok name" by auto
      from da_inst_gives [OF this buf] lt Some show ?thesis
        by (intro exI [of _ buf]) (simp add: d da_snprintf.simps [of _ _ _ _ _ ?op] inst_text_def find_inst_def fields(1) DA_INST)
    next
      case (DA_INST_TBL sz t len loc)
      with ok have t: "table_ok (\<lambda>_. sub_entry_ok ?n) sz t" and loc: "loc div 8 < ?n"
        and kind: "len = 8 \<and> loc = 8 \<and> sz = 256 \<or> len = 4 \<and> loc = 12 \<and> sz = 16 \<or> len = 8 \<and> loc = 40 \<and> sz = 256"
        by auto
      define sub where "sub = (drop_bit (8 - len - loc mod 8) (bytes ! (loc div 8)) AND (2 ^ len - 1) :: u8)"
      have sub: "unat sub = field bytes (loc div 4) (len div 4)" "unat sub < sz"
        using kind by (auto simp: sub_def byte_mask fields [unfolded One_nat_def] unat_mask(1) unsigned_take_bit_eq take_bit_eq_mod unat_mod)
      obtain msg where nt: "prints (strings [] []) (ascii MANY @ [0])
          [ucast ?op, ucast sub, tbl_addr t] msg"
        using note_prints by blast
      let ?buf = "in_buffer (unat buflen) buf msg"
      have buf': "unat buflen \<le> length ?buf" using buf(2) by simp
      have e: "map_of l1 (unat ?op) = Some (DA_INST_TBL sz t len loc)" using Some DA_INST_TBL by simp
      have "da_snprintf tbl_addr addr bytes buf buflen ?op 256 l1
        = Ok (inst_length ?op, in_buffer (unat buflen) ?buf (table_text t (unat sub) bytes))"
        unfolding da_snprintf.simps [of _ _ _ _ _ ?op] e
        using lt loc n da_print_gives [OF nt buf] da_sub_gives [OF t sub(2) n buf(1) buf' buf(3), of tbl_addr]
        by (simp add: Let_def sub_def [symmetric] del: diff_diff_left)
      moreover have "table_text t (unat sub) bytes = inst_text bytes"
        using t by (auto simp: table_text_def inst_text_def find_inst_def fields(1) e sub(1) split: option.splits disassm_instruction.splits
            dest: table_entry)
      ultimately show ?thesis using d buf(2) by (intro exI [of _ ?buf]) simp
    qed
  qed
qed

section \<open>Properties\<close>


text \<open>
  (C15) Disassembling any bytes that hold a whole instruction reads nothing outside of it,
  returns its length, and leaves in the buffer the text of the instruction the bytes encode
  (its name and its operands, or \<^verbatim>\<open>??\<close>), cut to the size of the buffer and
  terminated; nothing after the buffer's size is written.
\<close>

theorem disassm_correct:
  assumes "inst_length (bytes ! 0) \<le> length bytes"
    and "0 < sint buflen" and "unat buflen \<le> length buf" and "addr \<le> addr + ucast buflen"
  shows "\<exists>rest. disassm tbl_addr addr bytes buf buflen
      = Ok (inst_length (bytes ! 0), take (unat buflen - 1) (inst_text bytes) @ 0 # rest @ drop (unat buflen) buf)"
proof -
  have nz: "unat buflen \<noteq> 0" using assms(2) by (auto simp: unat_eq_0)
  obtain buf' where d: "disassm tbl_addr addr bytes buf buflen
      = Ok (inst_length (bytes ! 0), in_buffer (unat buflen) buf' (inst_text bytes))"
    "length buf' = length buf" "drop (unat buflen) buf' = drop (unat buflen) buf"
    using disassm_gives [OF assms(1) _ assms(3,4)] assms(2) by (auto simp: less_imp_le)
  let ?k = "Suc (min (unat buflen - 1) (length (inst_text bytes)))"
  have "?k \<le> unat buflen" using nz by simp
  then have "drop ?k buf' = drop ?k (take (unat buflen) buf') @ drop (unat buflen) buf"
    using d(2) assms(3) append_take_drop_id [of "unat buflen" buf'] unfolding d(3) [symmetric]
    by (metis drop_append length_take diff_is_0_eq drop_0 min.absorb2)
  with d(1) nz show ?thesis by (auto simp: in_buffer_def)
qed

theorem disassm_correct_witness:
  "\<exists>rest. disassm (\<lambda>_. 0x5000) 0x8000 [0x58, 0x12, 0x30, 0x04] (replicate 32 0xff) 32
     = Ok (4, ascii ''L      R1,4(R2,R3)'' @ 0 # rest)"
proof -
  have l: "inst_length 0x58 = 4" by (simp add: inst_length_of length_of_def)
  have m: "map_of l1 0x58 = Some (DA_INST IF_RX ''L'')" by (simp add: l1_def l1_low_def)
  have r: "replicate 5 (32 :: u8) = [32, 32, 32, 32, 32]" by (simp add: eval_nat_numeral)
  have "inst_text [0x58, 0x12, 0x30, 0x04] = ascii ''L      R1,4(R2,R3)''"
    by (simp add: inst_text_def find_inst_def m fields [unfolded One_nat_def] show_inst_def operands_def Let_def
        pad_right_def dec.simps r)
  with disassm_correct [of "[0x58, 0x12, 0x30, 0x04]" 32 "replicate 32 0xff" "0x8000" "\<lambda>_. 0x5000"] l
  show ?thesis by simp
qed

end
