(* ===== verification/Ldep.thy ===== *)
theory Ldep
  imports Prelude
begin

text \<open>
  Lock dependency tracking: \<^verbatim>\<open>src/cp/nucleus/ldep.c\<close> and \<^verbatim>\<open>src/cp/include/ldep.h\<close>.
  The state is the enabling flag, the two fields of the current task and the messages written;
  the spinlock makes each operation one step.  \<open>ra\<close> is the return address the compiler supplies.
\<close>

definition LDEP_STACK_SIZE :: nat where "LDEP_STACK_SIZE = 10"

record held_lock =
  ra :: u64
  lock :: u64
  lockname :: u64
  lclass :: u64

datatype ldep_msg =
    Exceeded
  | Recursive u64 u64 held_lock
  | NotHeld u64 u64 "held_lock list"
  | StillHeld u64 "held_lock list"

record ldep =
  ldep_enabled :: bool
  nr_locks :: int
  lock_stack :: "held_lock list"
  msgs :: "ldep_msg list"

definition ldep_on :: "ldep \<Rightarrow> ldep" where
  "ldep_on st = st\<lparr>ldep_enabled := True\<rparr>"

definition slot :: "ldep \<Rightarrow> int \<Rightarrow> held_lock result" where
  "slot st i = (if 0 \<le> i \<and> nat i < length (lock_stack st) then Ok (lock_stack st ! nat i) else Stop OutOfBounds)"

definition set_slot :: "ldep \<Rightarrow> int \<Rightarrow> held_lock \<Rightarrow> ldep result" where
  "set_slot st i h =
     (if 0 \<le> i \<and> nat i < length (lock_stack st) then Ok (st\<lparr>lock_stack := (lock_stack st)[nat i := h]\<rparr>)
      else Stop OutOfBounds)"

definition say :: "ldep_msg \<Rightarrow> ldep \<Rightarrow> ldep" where
  "say m st = st\<lparr>msgs := msgs st @ [m]\<rparr>"

text \<open>Whether the slot could not be had, and the state with the counter already incremented.\<close>

definition get_stack_slot :: "ldep \<Rightarrow> bool \<times> ldep" where
  "get_stack_slot st =
     (let st = st\<lparr>nr_locks := nr_locks st + 1\<rparr>
      in if nr_locks st = int LDEP_STACK_SIZE then (True, say Exceeded st) else (False, st))"

text \<open>The two searches of the lock stack from index \<open>i\<close> on, by class and by lock.\<close>

fun find_class :: "nat \<Rightarrow> nat \<Rightarrow> u64 \<Rightarrow> ldep \<Rightarrow> held_lock option result" where
  "find_class 0 i c st = Ok None"
| "find_class (Suc n) i c st =
     bindR (slot st (int i)) (\<lambda>cur. if lclass cur \<noteq> c then find_class n (i + 1) c st else Ok (Some cur))"

fun find_lock :: "nat \<Rightarrow> nat \<Rightarrow> u64 \<Rightarrow> ldep \<Rightarrow> nat option result" where
  "find_lock 0 i l st = Ok None"
| "find_lock (Suc n) i l st =
     bindR (slot st (int i)) (\<lambda>cur. if lock cur = l then Ok (Some i) else find_lock n (i + 1) l st)"

definition held_locks :: "ldep \<Rightarrow> held_lock list" where
  "held_locks st = take (nat (nr_locks st)) (lock_stack st)"

definition ldep_lock :: "u64 \<Rightarrow> u64 \<Rightarrow> u64 \<Rightarrow> u64 \<Rightarrow> ldep \<Rightarrow> ldep result" where
  "ldep_lock l c name retaddr st =
     (if \<not> ldep_enabled st then Ok st
      else
        bindR (find_class (nat (nr_locks st)) 0 c st) (\<lambda>found. case found of
          Some cur \<Rightarrow> Ok ((say (Recursive name retaddr cur) st)\<lparr>ldep_enabled := False\<rparr>)
        | None \<Rightarrow>
            let (full, st) = get_stack_slot st
            in if full then Ok st
               else set_slot st (nr_locks st - 1) \<lparr>ra = retaddr, lock = l, lockname = name, lclass = c\<rparr>))"

text \<open>
  \<^verbatim>\<open>memcpy\<close> of \<open>n\<close> bytes from one entry to another: its four words are big endian, so
  \<open>n\<close> bytes replace whole words and then the high bytes of one.
\<close>

definition mix :: "nat \<Rightarrow> u64 \<Rightarrow> u64 \<Rightarrow> u64" where
  "mix n src dst =
     (if 8 \<le> n then src
      else (let low = mask (8 * (8 - n)) in (src AND NOT low) OR (dst AND low)))"

definition copy_bytes :: "nat \<Rightarrow> held_lock \<Rightarrow> held_lock \<Rightarrow> held_lock" where
  "copy_bytes n src dst =
     \<lparr>ra = mix n (ra src) (ra dst), lock = mix (n - 8) (lock src) (lock dst),
      lockname = mix (n - 16) (lockname src) (lockname dst), lclass = mix (n - 24) (lclass src) (lclass dst)\<rparr>"

definition ldep_unlock :: "u64 \<Rightarrow> u64 \<Rightarrow> u64 \<Rightarrow> ldep \<Rightarrow> ldep result" where
  "ldep_unlock l name retaddr st =
     (if \<not> ldep_enabled st then Ok st
      else
        bindR (find_lock (nat (nr_locks st)) 0 l st) (\<lambda>found. case found of
          None \<Rightarrow> Ok ((say (NotHeld name retaddr (held_locks st)) st)\<lparr>ldep_enabled := False\<rparr>)
        | Some i \<Rightarrow>
            bindR (if int i \<noteq> nr_locks st - 1
                   then bindR (slot st (int i)) (\<lambda>dst. bindR (slot st (int i + 1)) (\<lambda>src.
                          set_slot st (int i) (copy_bytes (nat (nr_locks st) - i - 1) src dst)))
                   else Ok st)
              (\<lambda>st. Ok (st\<lparr>nr_locks := nr_locks st - 1\<rparr>))))"

definition ldep_no_locks :: "u64 \<Rightarrow> ldep \<Rightarrow> ldep" where
  "ldep_no_locks retaddr st =
     (if \<not> ldep_enabled st \<or> nr_locks st = 0 then st
      else (say (StillHeld retaddr (held_locks st)) st)\<lparr>ldep_enabled := False\<rparr>)"

section \<open>Facts\<close>

lemma mix_0: "mix 0 a b = b"
proof (rule bit_word_eqI)
  fix n assume "n < LENGTH(64)"
  then show "bit (mix 0 a b) n = bit b n" by (simp add: mix_def Let_def bit_simps)
qed

text \<open>The tracking state of a task: fewer entries than the array has room for, one of each class.\<close>

definition ldep_ok :: "ldep \<Rightarrow> bool" where
  "ldep_ok st \<longleftrightarrow> ldep_enabled st \<and> length (lock_stack st) = LDEP_STACK_SIZE
     \<and> 0 \<le> nr_locks st \<and> nr_locks st < int LDEP_STACK_SIZE"

lemma find_class_spec:
  "i + n \<le> length (lock_stack st) \<Longrightarrow>
    find_class n i c st = Ok (List.find (\<lambda>h. lclass h = c) (take n (drop i (lock_stack st))))"
proof (induction n arbitrary: i)
  case (Suc n)
  then have "drop i (lock_stack st) = lock_stack st ! i # drop (Suc i) (lock_stack st)"
    by (simp add: Cons_nth_drop_Suc)
  with Suc show ?case by (simp add: slot_def)
qed simp

lemma find_lock_spec:
  "i + n \<le> length (lock_stack st) \<Longrightarrow>
    find_lock n i l st = Ok (map_option (\<lambda>k. i + k)
      (if \<exists>h \<in> set (take n (drop i (lock_stack st))). lock h = l
       then Some (length (takeWhile (\<lambda>h. lock h \<noteq> l) (take n (drop i (lock_stack st))))) else None))"
proof (induction n arbitrary: i)
  case (Suc n)
  then have "drop i (lock_stack st) = lock_stack st ! i # drop (Suc i) (lock_stack st)"
    by (simp add: Cons_nth_drop_Suc)
  with Suc show ?case by (auto simp: slot_def)
qed simp

lemma held_locks_length: "ldep_ok st \<Longrightarrow> int (length (held_locks st)) = nr_locks st"
  by (auto simp: ldep_ok_def held_locks_def min_def nat_less_iff)

lemma ldep_lock_gives:
  assumes ok: "ldep_ok st" and new: "\<forall>h \<in> set (held_locks st). lclass h \<noteq> c"
    and room: "length (held_locks st) + 1 < LDEP_STACK_SIZE"
  shows "\<exists>st'. ldep_lock l c name retaddr st = Ok st' \<and> ldep_ok st' \<and> msgs st' = msgs st
    \<and> held_locks st' = held_locks st @ [\<lparr>ra = retaddr, lock = l, lockname = name, lclass = c\<rparr>]"
proof -
  let ?n = "nat (nr_locks st)" and ?h = "\<lparr>ra = retaddr, lock = l, lockname = name, lclass = c\<rparr>"
  have n: "?n + 1 < LDEP_STACK_SIZE" "0 \<le> nr_locks st" "length (lock_stack st) = LDEP_STACK_SIZE" "ldep_enabled st"
    using ok room held_locks_length [OF ok] by (auto simp: ldep_ok_def)
  have "find_class ?n 0 c st = Ok None"
    using find_class_spec [of 0 ?n st c] new n by (simp add: held_locks_def find_None_iff)
  then have "ldep_lock l c name retaddr st
    = Ok (st\<lparr>nr_locks := nr_locks st + 1, lock_stack := (lock_stack st)[?n := ?h]\<rparr>)"
    using n by (simp add: ldep_lock_def get_stack_slot_def set_slot_def Let_def)
  then show ?thesis
    using n by (simp add: ldep_ok_def held_locks_def nat_add_distrib take_Suc_conv_app_nth)
qed

lemma ldep_unlock_last:
  assumes ok: "ldep_ok st" and held: "held_locks st = hs @ [h]" "lock h = l" "\<forall>x \<in> set hs. lock x \<noteq> l"
  shows "\<exists>st'. ldep_unlock l name retaddr st = Ok st' \<and> ldep_ok st' \<and> msgs st' = msgs st \<and> held_locks st' = hs"
proof -
  let ?n = "nat (nr_locks st)"
  have n: "?n = Suc (length hs)" "nr_locks st = int ?n" "length (lock_stack st) = LDEP_STACK_SIZE" "ldep_enabled st"
    "?n < LDEP_STACK_SIZE"
    using ok held(1) held_locks_length [OF ok] by (auto simp: ldep_ok_def)
  have tw: "takeWhile (\<lambda>x. lock x \<noteq> l) (hs @ [h]) = hs"
    using held(2,3) by (simp add: takeWhile_append)
  have "find_lock ?n 0 l st = Ok (Some (length hs))"
    using find_lock_spec [of 0 ?n st l] held n(3,5) tw by (simp add: held_locks_def)
  then have "ldep_unlock l name retaddr st = Ok (st\<lparr>nr_locks := nr_locks st - 1\<rparr>)"
    using n by (simp add: ldep_unlock_def)
  moreover have "take (length hs) (lock_stack st) = hs"
  proof -
    have "take (length hs) (held_locks st) = take (length hs) (lock_stack st)" by (simp add: held_locks_def n(1))
    then show ?thesis using held(1) by simp
  qed
  ultimately show ?thesis using n by (simp add: ldep_ok_def held_locks_def nat_diff_distrib)
qed

section \<open>Properties\<close>

definition no_locks :: ldep where
  "no_locks = \<lparr>ldep_enabled = True, nr_locks = 0, lock_stack = replicate 10 \<lparr>ra = 0, lock = 0, lockname = 0, lclass = 0\<rparr>, msgs = []\<rparr>"

text \<open>
  Taking a lock of a class not yet held and giving it back first is never complained about,
  as long as fewer than nine locks are held, and leaves the tracked locks as they were.
\<close>

theorem ldep_nested:
  assumes "ldep_ok st" and "\<forall>h \<in> set (held_locks st). lclass h \<noteq> c \<and> lock h \<noteq> l"
    and "length (held_locks st) < 9"
  shows "\<exists>st1 st2. ldep_lock l c name ra1 st = Ok st1 \<and> ldep_unlock l name2 ra2 st1 = Ok st2
    \<and> ldep_ok st2 \<and> held_locks st2 = held_locks st \<and> msgs st2 = msgs st"
proof -
  obtain st1 where 1: "ldep_lock l c name ra1 st = Ok st1" "ldep_ok st1" "msgs st1 = msgs st"
    "held_locks st1 = held_locks st @ [\<lparr>ra = ra1, lock = l, lockname = name, lclass = c\<rparr>]"
    using ldep_lock_gives [OF assms(1), where c = c and l = l and name = name and retaddr = ra1] assms(2,3)
    by (force simp: LDEP_STACK_SIZE_def)
  from ldep_unlock_last [OF 1(2,4), where l = l and name = name2 and retaddr = ra2] assms(2) 1(1,3)
  show ?thesis by force
qed

theorem ldep_nested_witness:
  "\<exists>st1 st2. ldep_lock 0x1000 0x2000 0x3000 0x4000 no_locks = Ok st1
    \<and> ldep_unlock 0x1000 0x3000 0x5000 st1 = Ok st2 \<and> held_locks st2 = []"
  using ldep_nested [of no_locks "0x2000" "0x1000" "0x3000" "0x4000" "0x3000" "0x5000"]
  by (auto simp: no_locks_def ldep_ok_def LDEP_STACK_SIZE_def held_locks_def)

text \<open>
  (C35) The tenth nested lock is announced as disabling the tracking, but does not disable it,
  and the eleventh is written behind the array.
\<close>

theorem ldep_stack_overrun:
  assumes "ldep_ok st" and "nr_locks st = 9"
    and "\<forall>h \<in> set (lock_stack st). lclass h \<noteq> c1 \<and> lclass h \<noteq> c2"
  shows "\<exists>st1. ldep_lock l1 c1 n1 r1 st = Ok st1 \<and> msgs st1 = msgs st @ [Exceeded] \<and> ldep_enabled st1
    \<and> ldep_lock l2 c2 n2 r2 st1 = Stop OutOfBounds"
proof -
  have len: "length (lock_stack st) = 10" "ldep_enabled st" using assms(1) by (simp_all add: ldep_ok_def LDEP_STACK_SIZE_def)
  let ?st = "(say Exceeded (st\<lparr>nr_locks := 10\<rparr>))"
  have "find_class 9 0 c1 st = Ok None"
    using find_class_spec [of 0 9 st c1] len assms(3) by (auto simp: find_None_iff dest: in_set_takeD)
  then have 1: "ldep_lock l1 c1 n1 r1 st = Ok ?st"
    using len assms(2) by (simp add: ldep_lock_def get_stack_slot_def LDEP_STACK_SIZE_def Let_def)
  have s: "lock_stack ?st = lock_stack st" "nr_locks ?st = 10" "ldep_enabled ?st" "msgs ?st = msgs st @ [Exceeded]"
    using len by (simp_all add: say_def)
  have "find_class 10 0 c2 ?st = Ok None"
    using find_class_spec [of 0 10 ?st c2] len assms(3) by (auto simp: find_None_iff s(1) dest: in_set_takeD)
  then have "ldep_lock l2 c2 n2 r2 ?st = Stop OutOfBounds"
    using len s by (simp add: ldep_lock_def get_stack_slot_def LDEP_STACK_SIZE_def Let_def set_slot_def)
  with 1 s show ?thesis by blast
qed

theorem ldep_stack_overrun_witness:
  "\<exists>st1. ldep_lock 0x1000 0x2000 0x3000 0x4000 (no_locks\<lparr>nr_locks := 9\<rparr>) = Ok st1
    \<and> ldep_lock 0x1008 0x2008 0x3008 0x4008 st1 = Stop OutOfBounds"
  using ldep_stack_overrun [of "no_locks\<lparr>nr_locks := 9\<rparr>" "0x2000" "0x2008" "0x1000" "0x3000" "0x4000" "0x1008" "0x3008" "0x4008"]
  by (auto simp: no_locks_def ldep_ok_def LDEP_STACK_SIZE_def)

text \<open>
  Giving back the first of two held locks drops the second one from the tracked locks
  instead: \<^verbatim>\<open>memcpy\<close> is given the number of entries, not of bytes.  Giving back the second
  lock is then reported as an error and disables the tracking.
\<close>

theorem ldep_unlock_out_of_order:
  assumes "ldep_ok st" and "held_locks st = [a, b]" and "lock a \<noteq> lock b"
  shows "\<exists>st1 st2 h. ldep_unlock (lock a) n1 r1 st = Ok st1 \<and> held_locks st1 = [h] \<and> lock h = lock a
    \<and> ldep_unlock (lock b) n2 r2 st1 = Ok st2 \<and> msgs st2 = msgs st @ [NotHeld n2 r2 [h]] \<and> \<not> ldep_enabled st2"
proof -
  have n: "nr_locks st = 2" "length (lock_stack st) = 10" "ldep_enabled st"
    using held_locks_length [OF assms(1)] assms(1,2) by (simp_all add: ldep_ok_def LDEP_STACK_SIZE_def)
  then obtain rest where stack: "lock_stack st = a # b # rest"
    using assms(2) by (cases "lock_stack st"; cases "tl (lock_stack st)") (auto simp: held_locks_def numeral_2_eq_2)
  define h where "h = copy_bytes 1 b a"
  have h: "lock h = lock a" by (simp add: h_def copy_bytes_def mix_0)
  define st1 where "st1 = st\<lparr>nr_locks := 1, lock_stack := h # b # rest\<rparr>"
  have 1: "ldep_unlock (lock a) n1 r1 st = Ok st1"
    using n by (simp add: ldep_unlock_def numeral_2_eq_2 slot_def set_slot_def stack h_def st1_def)
  have 2: "held_locks st1 = [h]" by (simp add: st1_def held_locks_def)
  have "ldep_unlock (lock b) n2 r2 st1 = Ok ((say (NotHeld n2 r2 [h]) st1)\<lparr>ldep_enabled := False\<rparr>)"
    using n assms(3) h 2 by (simp add: ldep_unlock_def slot_def st1_def)
  with 1 2 h show ?thesis by (auto simp: say_def st1_def)
qed

theorem ldep_unlock_out_of_order_witness:
  "\<exists>st st1 st2. nr_locks st = 2 \<and> ldep_unlock 0x10 0 0 st = Ok st1 \<and> ldep_unlock 0x20 0 0 st1 = Ok st2 \<and> \<not> ldep_enabled st2"
proof -
  let ?a = "\<lparr>ra = 0, lock = 0x10, lockname = 0, lclass = 1\<rparr>" and ?b = "\<lparr>ra = 0, lock = 0x20, lockname = 0, lclass = 2\<rparr>"
  let ?st = "no_locks\<lparr>nr_locks := 2, lock_stack := ?a # ?b # replicate 8 ?a\<rparr>"
  have "ldep_ok ?st" "held_locks ?st = [?a, ?b]"
    by (simp_all add: ldep_ok_def no_locks_def LDEP_STACK_SIZE_def held_locks_def)
  from ldep_unlock_out_of_order [OF this, of 0 0 0 0] obtain st1 st2 where
    "ldep_unlock 0x10 0 0 ?st = Ok st1" "ldep_unlock 0x20 0 0 st1 = Ok st2" "\<not> ldep_enabled st2" by auto
  then show ?thesis by (intro exI [of _ ?st] exI [of _ st1] exI [of _ st2]) simp
qed

end
