(* ===== verification/Dat.thy ===== *)
theory Dat
  imports Buddy
begin

text \<open>
  Guest address spaces: \<^verbatim>\<open>src/cp/mm/dat.c\<close>, \<^verbatim>\<open>src/cp/include/dat.h\<close>, and the
  set-up of guest storage in \<^verbatim>\<open>src/cp/guest/init.c\<close>.  Storage holding tables is a
  function from the addresses of doublewords to their contents; an entry is a doubleword with
  its bit fields.  The translation done by the hardware (\<^verbatim>\<open>lrag\<close>) is a parameter.
\<close>

section \<open>Bit fields\<close>

text \<open>The field of \<open>n\<close> bits whose lowest is bit \<open>k\<close> (counted from the right).\<close>

definition get_field :: "nat \<Rightarrow> nat \<Rightarrow> u64 \<Rightarrow> u64" where
  "get_field k n w = take_bit n (drop_bit k w)"

definition set_field :: "nat \<Rightarrow> nat \<Rightarrow> u64 \<Rightarrow> u64 \<Rightarrow> u64" where
  "set_field k n v w = (w AND NOT (push_bit k (mask n))) OR push_bit k (take_bit n v)"

record address_space =
  region_table :: "u64 option"
  segment_table :: "u64 option"

record dat =
  dwords :: "u64 \<Rightarrow> u64"
  frame_pool :: buddy

definition set_word :: "u64 \<Rightarrow> u64 \<Rightarrow> dat \<Rightarrow> dat" where
  "set_word a v d = d\<lparr>dwords := (dwords d)(a := v)\<rparr>"

definition ADDR_TO_RTE_ORIGIN :: "u64 \<Rightarrow> u64" where "ADDR_TO_RTE_ORIGIN a = drop_bit 12 a"
definition RTE_ORIGIN_TO_ADDR :: "u64 \<Rightarrow> u64" where "RTE_ORIGIN_TO_ADDR o' = push_bit 12 o'"
definition ADDR_TO_STE_ORIGIN :: "u64 \<Rightarrow> u64" where "ADDR_TO_STE_ORIGIN a = drop_bit 11 a"
definition STE_ORIGIN_TO_ADDR :: "u64 \<Rightarrow> u64" where "STE_ORIGIN_TO_ADDR o' = push_bit 11 o'"

definition DAT_RX :: "u64 \<Rightarrow> u64" where "DAT_RX a = drop_bit 31 a"
definition DAT_SX :: "u64 \<Rightarrow> u64" where "DAT_SX a = drop_bit 20 a AND 0x7ff"
definition DAT_PX :: "u64 \<Rightarrow> u64" where "DAT_PX a = drop_bit 12 a AND 0xff"
definition DAT_BX :: "u64 \<Rightarrow> u64" where "DAT_BX a = a AND 0xfff"

text \<open>The fields of the three kinds of entry that the code uses.\<close>

definition rte_origin :: "u64 \<Rightarrow> u64" where "rte_origin e = get_field 12 52 e"
definition ste_origin :: "u64 \<Rightarrow> u64" where "ste_origin e = get_field 11 53 e"
definition pte_pfra :: "u64 \<Rightarrow> u64" where "pte_pfra e = get_field 12 52 e"
definition pte_i :: "u64 \<Rightarrow> u64" where "pte_i e = get_field 10 1 e"

definition DAT_RTE_TT_RTT :: u64 where "DAT_RTE_TT_RTT = 1"
definition DAT_STE_TT_ST :: u64 where "DAT_STE_TT_ST = 0"

text \<open>The assignments to the fields of an entry, in the order of the code.\<close>

definition region_entry :: "u64 \<Rightarrow> u64 \<Rightarrow> u64" where
  "region_entry ptr e =
     (let e = set_field 12 52 (ADDR_TO_RTE_ORIGIN ptr) e;
          e = set_field 6 2 0 e;
          e = set_field 5 1 0 e;
          e = set_field 2 2 DAT_RTE_TT_RTT e;
          e = set_field 0 2 3 e;
          e = set_field 8 4 0 e
      in set_field 4 1 0 e)"

definition segment_entry :: "u64 \<Rightarrow> u64 \<Rightarrow> u64" where
  "segment_entry ptr e =
     (let e = set_field 11 53 (ADDR_TO_STE_ORIGIN ptr) e;
          e = set_field 9 1 0 e;
          e = set_field 5 1 0 e;
          e = set_field 4 1 0 e;
          e = set_field 2 2 DAT_STE_TT_ST e;
          e = set_field 10 1 0 e;
          e = set_field 6 3 0 e
      in set_field 0 2 0 e)"

definition page_entry :: "u64 \<Rightarrow> u64 \<Rightarrow> u64" where
  "page_entry phy e =
     (let e = set_field 12 52 (drop_bit PAGE_SHIFT phy) e;
          e = set_field 10 1 0 e;
          e = set_field 9 1 0 e;
          e = set_field 11 1 0 e;
          e = set_field 8 1 0 e
      in set_field 0 8 0 e)"

section \<open>Inserting a page\<close>

text \<open>\<^verbatim>\<open>memset\<close> with 0xff: every doubleword of the area becomes all ones.\<close>

definition fill_ones :: "u64 \<Rightarrow> nat \<Rightarrow> (u64 \<Rightarrow> u64) \<Rightarrow> u64 \<Rightarrow> u64" where
  "fill_ones a n m = (\<lambda>x. if unat (x - a) < n then - 1 else m x)"

definition alloc_table :: "nat \<Rightarrow> dat \<Rightarrow> (u64 \<times> dat) result" where
  "alloc_table order d =
     bindR (alloc_pages order ZONE_NORMAL (frame_pool d)) (\<lambda>(p, b). case p of
         None \<Rightarrow> Stop Bug
       | Some p \<Rightarrow>
           let a = page_to_addr (page_num_to_ptr p)
           in Ok (a, \<lparr>dwords = fill_ones a (4096 * 2 ^ order) (dwords d), frame_pool = b\<rparr>))"

text \<open>The segment table: the one of the address space, or the one its region table points to.\<close>

definition find_segment_table :: "address_space \<Rightarrow> u64 \<Rightarrow> dat \<Rightarrow> (address_space \<times> u64 \<times> dat) result" where
  "find_segment_table as virt d =
     (case region_table as of
        None \<Rightarrow>
          (case segment_table as of
             None \<Rightarrow> bindR (alloc_table 2 d) (\<lambda>(t, d). Ok (as\<lparr>segment_table := Some t\<rparr>, t, d))
           | Some t \<Rightarrow> Ok (as, t, d))
      | Some region \<Rightarrow>
          if DAT_RX virt \<noteq> 0 then Stop Bug
          else
            bindR (if rte_origin (dwords d region) = 0xfffffffffffff
                   then bindR (alloc_table 2 d) (\<lambda>(ptr, d). Ok (set_word region (region_entry ptr (dwords d region)) d))
                   else Ok d)
              (\<lambda>d. Ok (as, RTE_ORIGIN_TO_ADDR (rte_origin (dwords d region)), d)))"

definition find_page_table :: "u64 \<Rightarrow> dat \<Rightarrow> (u64 \<times> dat) result" where
  "find_page_table segment d =
     bindR (if ste_origin (dwords d segment) = 0x1fffffffffffff
            then bindR (alloc_table 0 d) (\<lambda>(ptr, d). Ok (set_word segment (segment_entry ptr (dwords d segment)) d))
            else Ok d)
       (\<lambda>d. Ok (STE_ORIGIN_TO_ADDR (ste_origin (dwords d segment)), d))"

definition dat_insert_page :: "address_space \<Rightarrow> u64 \<Rightarrow> u64 \<Rightarrow> dat \<Rightarrow> (address_space \<times> dat) result" where
  "dat_insert_page as phy virt d =
     bindR (find_segment_table as virt d) (\<lambda>(as, segment, d).
     bindR (find_page_table (segment + 8 * DAT_SX virt) d) (\<lambda>(page, d).
       let page = page + 8 * DAT_PX virt
       in Ok (as, set_word page (page_entry phy (dwords d page)) d)))"

text \<open>The address-space control element loaded for an address space.\<close>

definition load_as :: "address_space \<Rightarrow> u64 result" where
  "load_as as = (case segment_table as of
     None \<Rightarrow> Stop Bug
   | Some t \<Rightarrow> Ok (set_field 0 2 3 (set_field 2 2 0 (set_field 12 52 (drop_bit 12 t) 0))))"

text \<open>
  Guest storage: \<open>n\<close> pages are still to be allocated, and go to the front of the list.
\<close>

fun alloc_guest_storage :: "nat \<Rightarrow> address_space \<Rightarrow> u64 list \<Rightarrow> dat \<Rightarrow> (errno option \<times> address_space \<times> u64 list \<times> dat) result" where
  "alloc_guest_storage 0 as guest_pages d = Ok (None, as, guest_pages, d)"
| "alloc_guest_storage (Suc n) as guest_pages d =
     bindR (alloc_pages 0 ZONE_NORMAL (frame_pool d)) (\<lambda>(p, b). case p of
         None \<Rightarrow> Ok (Some ENOMEM, as, guest_pages, d\<lparr>frame_pool := b\<rparr>)
       | Some p \<Rightarrow>
           bindR (dat_insert_page as (page_to_addr (page_num_to_ptr p)) (push_bit PAGE_SHIFT (of_nat n)) (d\<lparr>frame_pool := b\<rparr>))
             (\<lambda>(as, d). alloc_guest_storage n as (p # guest_pages) d))"

section \<open>Copying to and from the guest\<close>

text \<open>
  Host storage is a function to bytes.  \<open>virt2phy\<close> translates an address, or fails; every round
  copies at least one byte, so \<open>len\<close> rounds are enough.  The result: the return value, the bytes
  copied and host storage.
\<close>

definition read_bytes :: "(u64 \<Rightarrow> u8) \<Rightarrow> u64 \<Rightarrow> nat \<Rightarrow> u8 list" where
  "read_bytes m a n = map (\<lambda>i. m (a + of_nat i)) [0..<n]"

fun write_bytes :: "u64 \<Rightarrow> u8 list \<Rightarrow> (u64 \<Rightarrow> u8) \<Rightarrow> (u64 \<Rightarrow> u8)" where
  "write_bytes a [] m = m"
| "write_bytes a (b # bs) m = write_bytes (a + 1) bs (m(a := b))"

fun copy_from_guest :: "nat \<Rightarrow> (u64 \<Rightarrow> u64 option) \<Rightarrow> u64 \<Rightarrow> (u64 \<Rightarrow> u8) \<Rightarrow> nat \<Rightarrow> u8 list \<Rightarrow> errno option \<times> u8 list" where
  "copy_from_guest 0 virt2phy guest_addr m len data = (None, data)"
| "copy_from_guest (Suc k) virt2phy guest_addr m len data =
     (if len = 0 then (None, data)
      else case virt2phy guest_addr of
        None \<Rightarrow> (Some EFAULT, data)
      | Some host_addr \<Rightarrow>
          let n = min (4096 - unat (host_addr AND PAGE_MASK)) len
          in copy_from_guest k virt2phy guest_addr m (len - n) (data @ read_bytes m host_addr n))"

fun copy_to_guest :: "nat \<Rightarrow> (u64 \<Rightarrow> u64 option) \<Rightarrow> u64 \<Rightarrow> u8 list \<Rightarrow> nat \<Rightarrow> (u64 \<Rightarrow> u8) \<Rightarrow> errno option \<times> nat \<times> (u64 \<Rightarrow> u8)" where
  "copy_to_guest 0 virt2phy guest_addr data copied m = (None, copied, m)"
| "copy_to_guest (Suc k) virt2phy guest_addr data copied m =
     (if copied = length data then (None, copied, m)
      else case virt2phy guest_addr of
        None \<Rightarrow> (Some EFAULT, copied, m)
      | Some host_addr \<Rightarrow>
          let n = min (4096 - unat (host_addr AND PAGE_MASK)) (length data - copied)
          in copy_to_guest k virt2phy guest_addr data (copied + n)
               (write_bytes host_addr (take n (drop copied data)) m))"

definition memcpy_from_guest :: "(u64 \<Rightarrow> u64 option) \<Rightarrow> u64 \<Rightarrow> nat \<Rightarrow> (u64 \<Rightarrow> u8) \<Rightarrow> errno option \<times> u8 list" where
  "memcpy_from_guest virt2phy guest_addr len m = copy_from_guest len virt2phy guest_addr m len []"

definition memcpy_to_guest :: "(u64 \<Rightarrow> u64 option) \<Rightarrow> u64 \<Rightarrow> u8 list \<Rightarrow> (u64 \<Rightarrow> u8) \<Rightarrow> errno option \<times> nat \<times> (u64 \<Rightarrow> u8)" where
  "memcpy_to_guest virt2phy guest_addr data m = copy_to_guest (length data) virt2phy guest_addr data 0 m"

section \<open>Entries\<close>

lemma bit_set_field:
  "i < 64 \<Longrightarrow> bit (set_field k n v w) i \<longleftrightarrow> (if k \<le> i \<and> i < k + n then bit v (i - k) else bit w i)"
  by (auto simp: set_field_def bit_simps)

lemma page_entry_eq: "page_entry phy e = push_bit 12 (drop_bit 12 phy)"
proof (rule bit_word_eqI)
  fix i assume "i < LENGTH(64)"
  then have i: "i < 64" by simp
  then consider "i < 8" | "i = 8" | "i = 9" | "i = 10" | "i = 11" | "12 \<le> i" by linarith
  then show "bit (page_entry phy e) i = bit (push_bit 12 (drop_bit 12 phy)) i"
    using i by cases (simp_all add: page_entry_def Let_def bit_set_field bit_simps)
qed

lemma segment_entry_eq: "segment_entry ptr e = push_bit 11 (drop_bit 11 ptr)"
proof (rule bit_word_eqI)
  fix i assume "i < LENGTH(64)"
  then have i: "i < 64" by simp
  then consider "i < 2" | "i = 2 \<or> i = 3" | "i = 4" | "i = 5" | "6 \<le> i \<and> i < 9" | "i = 9" | "i = 10" | "11 \<le> i" by linarith
  then show "bit (segment_entry ptr e) i = bit (push_bit 11 (drop_bit 11 ptr)) i"
    using i by cases (auto simp: segment_entry_def Let_def bit_set_field DAT_STE_TT_ST_def ADDR_TO_STE_ORIGIN_def bit_simps)
qed

lemma page_entry_fields: "pte_i (page_entry phy e) = 0" "push_bit 12 (pte_pfra (page_entry phy e)) = phy AND NOT PAGE_MASK"
proof -
  have "\<not> bit (pte_i (page_entry phy e)) n" for n
    by (cases "n = 0") (simp_all add: page_entry_eq pte_i_def get_field_def bit_take_bit_iff bit_drop_bit_eq bit_push_bit_iff bit_0 [symmetric] del: bit_0)
  then show "pte_i (page_entry phy e) = 0" by (intro bit_word_eqI) simp
  have "push_bit 12 (pte_pfra (page_entry phy e)) = push_bit 12 (drop_bit 12 phy)"
    by (rule bit_word_eqI) (auto simp: page_entry_eq pte_pfra_def get_field_def bit_simps)
  then show "push_bit 12 (pte_pfra (page_entry phy e)) = phy AND NOT PAGE_MASK" by (simp only: push_drop_12)
qed

lemma ones_fields: "pte_i (- 1) = 1" "ste_origin (- 1) = 0x1fffffffffffff"
proof -
  show "pte_i (- 1) = 1" by (rule bit_word_eqI) (auto simp: pte_i_def get_field_def bit_simps)
  have "(0x1fffffffffffff :: u64) = mask 53" by (simp add: mask_eq_exp_minus_1)
  then show "ste_origin (- 1) = 0x1fffffffffffff"
    by (simp only:) (rule bit_word_eqI, auto simp: ste_origin_def get_field_def bit_simps)
qed

lemma table_entry_fields:
  "ste_origin (segment_entry (push_bit 12 q) e) \<noteq> 0x1fffffffffffff"
  "STE_ORIGIN_TO_ADDR (ste_origin (push_bit 12 q)) = push_bit 12 q"
  "segment_entry (push_bit 12 q) e = push_bit 12 q"
proof -
  show e: "segment_entry (push_bit 12 q) e = push_bit 12 q"
    by (rule bit_word_eqI) (auto simp: segment_entry_eq bit_simps)
  show "STE_ORIGIN_TO_ADDR (ste_origin (push_bit 12 q)) = push_bit 12 q"
    by (rule bit_word_eqI) (auto simp: STE_ORIGIN_TO_ADDR_def ste_origin_def get_field_def bit_simps)
  have "\<not> bit (ste_origin (segment_entry (push_bit 12 q) e)) 0"
    by (simp add: e ste_origin_def get_field_def bit_simps)
  moreover have "bit (0x1fffffffffffff :: u64) 0" by simp
  ultimately show "ste_origin (segment_entry (push_bit 12 q) e) \<noteq> 0x1fffffffffffff" by metis
qed

section \<open>Addresses\<close>

text \<open>The \<open>i\<close>-th entry of a table that starts with frame \<open>p\<close>, and the frames it lies in.\<close>

definition entry_addr :: "u64 \<Rightarrow> nat \<Rightarrow> u64" where
  "entry_addr p i = push_bit 12 p + 8 * of_nat i"

lemma unat_entry_addr:
  assumes "unat p + 2 ^ n \<le> 2 ^ 31" and "i < 512 * 2 ^ n"
  shows "unat (entry_addr p i) = 4096 * unat p + 8 * i"
proof -
  have "entry_addr p i = of_nat (4096 * unat p + 8 * i)"
    by (simp add: entry_addr_def push_bit_eq_mult)
  moreover have "4096 * unat p + 8 * i < 2 ^ LENGTH(64)" using assms by simp
  ultimately show ?thesis by (simp only: unat_of_nat_small)
qed

lemma entry_frame:
  assumes "unat p + 2 ^ n \<le> 2 ^ 31" and "i < 512 * 2 ^ n"
  shows "unat (entry_addr p i) div 4096 \<in> frames p n"
  using assms by (simp add: unat_entry_addr frames_def less_mult_imp_div_less)

lemma entry_addr_inj:
  assumes "unat p + 2 ^ n \<le> 2 ^ 31" and "i < 512 * 2 ^ n" and "j < 512 * 2 ^ n"
  shows "entry_addr p i = entry_addr p j \<longleftrightarrow> i = j"
proof
  assume "entry_addr p i = entry_addr p j"
  then have "4096 * unat p + 8 * i = 4096 * unat p + 8 * j"
    by (simp only: unat_entry_addr [OF assms(1,2), symmetric] unat_entry_addr [OF assms(1,3), symmetric])
  then show "i = j" by simp
qed simp

lemma entry_addr_disjoint:
  assumes "unat p + 2 ^ n \<le> 2 ^ 31" and "i < 512 * 2 ^ n" and "unat q + 2 ^ m \<le> 2 ^ 31" and "j < 512 * 2 ^ m"
    and "frames p n \<inter> frames q m = {}"
  shows "entry_addr p i \<noteq> entry_addr q j"
  using entry_frame [OF assms(1,2)] entry_frame [OF assms(3,4)] assms(5) by auto

lemma fill_inside:
  assumes "unat p + 2 ^ n \<le> 2 ^ 31" and "i < 512 * 2 ^ n"
  shows "fill_ones (push_bit 12 p) (4096 * 2 ^ n) m (entry_addr p i) = - 1"
proof -
  have d: "entry_addr p i - push_bit 12 p = of_nat (8 * i)"
    by (simp only: entry_addr_def add_diff_cancel_left' of_nat_mult of_nat_numeral)
  have b: "8 * i < 2 ^ LENGTH(64)" using assms by simp
  have u: "unat (entry_addr p i - push_bit 12 p) = 8 * i" unfolding d by (rule unat_of_nat_small [OF b])
  have "8 * i < 4096 * 2 ^ n" using assms(2) by simp
  then show ?thesis unfolding fill_ones_def u by (rule if_P)
qed

lemma fill_outside:
  assumes p: "unat p + 2 ^ n \<le> 2 ^ 31" and x: "unat x div 4096 \<notin> frames p n"
  shows "fill_ones (push_bit 12 p) (4096 * 2 ^ n) m x = m x"
proof -
  define d where "d = x - push_bit 12 p"
  have "\<not> unat d < 4096 * 2 ^ n"
  proof
    assume lt: "unat d < 4096 * 2 ^ n"
    have u: "unat (push_bit 12 p) = 4096 * unat p"
      using unat_entry_addr [OF p, of 0] by (simp add: entry_addr_def)
    have "unat (push_bit 12 p) + unat d < 2 ^ LENGTH(64)" using u lt p by simp
    from unat_add_lem [THEN iffD1, OF this] u have "unat x = 4096 * unat p + unat d" by (simp add: d_def)
    then have "unat x div 4096 = unat p + unat d div 4096" by simp
    moreover have "unat d div 4096 < 2 ^ n" using lt by (simp add: less_mult_imp_div_less mult.commute)
    ultimately show False using x by (simp add: frames_def)
  qed
  then show ?thesis by (simp add: fill_ones_def d_def)
qed

section \<open>The tables\<close>

text \<open>
  What translation makes of the tables: the architecture's walk through the segment table and
  a page table, for an address space whose control element designates a segment table.
\<close>

definition ste_i :: "u64 \<Rightarrow> u64" where "ste_i e = get_field 5 1 e"

definition walk :: "u64 \<Rightarrow> (u64 \<Rightarrow> u64) \<Rightarrow> u64 \<Rightarrow> u64 option" where
  "walk table m v =
     (if DAT_RX v \<noteq> 0 then None
      else let ste = m (table + 8 * DAT_SX v)
           in if ste_i ste = 1 then None
              else let pte = m (STE_ORIGIN_TO_ADDR (ste_origin ste) + 8 * DAT_PX v)
                   in if pte_i pte = 1 then None else Some (push_bit 12 (pte_pfra pte) + DAT_BX v))"

definition dat_lookup :: "address_space \<Rightarrow> dat \<Rightarrow> u64 \<Rightarrow> u64 option" where
  "dat_lookup as d v = (case segment_table as of None \<Rightarrow> None | Some t \<Rightarrow> walk t (dwords d) v)"

text \<open>
  The tables are in order: the segment table is in frame \<open>p\<close> and the three after it, and
  \<open>pg i\<close> is the frame of the page table of segment \<open>i\<close>, if it has one.  No frame is used
  twice, and none is free.
\<close>

definition segment_ok :: "dat \<Rightarrow> u64 \<Rightarrow> nat \<Rightarrow> u64 option \<Rightarrow> bool" where
  "segment_ok d p i pt = (case pt of
        None \<Rightarrow> dwords d (entry_addr p i) = - 1
      | Some q \<Rightarrow> dwords d (entry_addr p i) = push_bit 12 q \<and> unat q + 2 ^ 0 \<le> 2 ^ 31
          \<and> frames q 0 \<inter> (frames p 2 \<union> set_mset (free_frames (frame_pool d))) = {})"

definition tables_ok :: "dat \<Rightarrow> u64 \<Rightarrow> (nat \<Rightarrow> u64 option) \<Rightarrow> bool" where
  "tables_ok d p pg \<longleftrightarrow> unat p + 2 ^ 2 \<le> 2 ^ 31 \<and> frames p 2 \<inter> set_mset (free_frames (frame_pool d)) = {} \<and>
     (\<forall>i < 2048. segment_ok d p i (pg i)) \<and>
     (\<forall>i < 2048. \<forall>j < 2048. \<forall>q. pg i = Some q \<and> pg j = Some q \<longrightarrow> i = j)"

definition dat_ok :: "address_space \<Rightarrow> dat \<Rightarrow> bool" where
  "dat_ok as d \<longleftrightarrow> buddy_wf (frame_pool d) \<and> no_overlap (frame_pool d) \<and> region_table as = None \<and>
     (\<forall>t. segment_table as = Some t \<longrightarrow> (\<exists>p pg. t = push_bit 12 p \<and> tables_ok d p pg))"

lemma segment_ok_simps:
  "segment_ok d p i None \<longleftrightarrow> dwords d (entry_addr p i) = - 1"
  "segment_ok d p i (Some q) \<longleftrightarrow> dwords d (entry_addr p i) = push_bit 12 q \<and> unat q + 2 ^ 0 \<le> 2 ^ 31
     \<and> frames q 0 \<inter> (frames p 2 \<union> set_mset (free_frames (frame_pool d))) = {}"
  by (simp_all add: segment_ok_def)

lemma tables_ok_at: "tables_ok d p pg \<Longrightarrow> i < 2048 \<Longrightarrow> pg i = pt \<Longrightarrow> segment_ok d p i pt"
  by (auto simp: tables_ok_def)

lemmas tables_ok_None = tables_ok_at [where pt = None, unfolded segment_ok_simps]
lemmas tables_ok_Some = tables_ok_at [where pt = "Some q", unfolded segment_ok_simps, THEN conjunct1]
  tables_ok_at [where pt = "Some q", unfolded segment_ok_simps, THEN conjunct2, THEN conjunct1]
  tables_ok_at [where pt = "Some q", unfolded segment_ok_simps, THEN conjunct2, THEN conjunct2] for q

lemma ste_i_fields: "ste_i (push_bit 12 q) = 0" "ste_i (- 1) = 1"
proof -
  have "\<not> bit (ste_i (push_bit 12 q)) n" for n
    by (cases "n = 0") (simp_all add: ste_i_def get_field_def bit_take_bit_iff bit_drop_bit_eq bit_push_bit_iff bit_0 [symmetric] del: bit_0)
  then show "ste_i (push_bit 12 q) = 0" by (intro bit_word_eqI) simp
  show "ste_i (- 1) = 1" by (rule bit_word_eqI) (auto simp: ste_i_def get_field_def bit_simps)
qed

text \<open>The indices in an address, as numbers.\<close>

definition sx :: "u64 \<Rightarrow> nat" where "sx v = unat (DAT_SX v)"
definition px :: "u64 \<Rightarrow> nat" where "px v = unat (DAT_PX v)"

lemma index_values: "sx v = unat v div 2 ^ 20 mod 2048" "px v = unat v div 2 ^ 12 mod 256"
proof -
  have m: "(0x7ff :: u64) = mask 11" "(0xff :: u64) = mask 8" by (simp_all add: mask_eq_exp_minus_1)
  show "sx v = unat v div 2 ^ 20 mod 2048" "px v = unat v div 2 ^ 12 mod 256"
    by (simp_all only: sx_def px_def DAT_SX_def DAT_PX_def m take_bit_eq_mask [symmetric] unsigned_take_bit_eq unat_drop_bit_eq)
      (simp_all add: drop_bit_eq_div take_bit_eq_mod)
qed

lemma index_bounds: "sx v < 2048" "px v < 256"
  by (simp_all add: index_values)

lemma index_addr: "push_bit 12 p + 8 * DAT_SX v = entry_addr p (sx v)" "push_bit 12 p + 8 * DAT_PX v = entry_addr p (px v)"
  by (simp_all add: entry_addr_def sx_def px_def)

lemma rx_small: "DAT_RX v = 0 \<longleftrightarrow> unat v < 2 ^ 31"
proof -
  have "unat (DAT_RX v) = unat v div 2 ^ 31" by (simp only: DAT_RX_def unat_drop_bit_eq) (simp add: drop_bit_eq_div)
  moreover have "DAT_RX v = 0 \<longleftrightarrow> unat (DAT_RX v) = 0" by (simp only: unat_eq_0)
  ultimately show ?thesis by (simp add: div_eq_0_iff)
qed

lemma same_page:
  assumes "unat v < 2 ^ 31" and "unat w < 2 ^ 31"
  shows "drop_bit 12 v = drop_bit 12 w \<longleftrightarrow> sx v = sx w \<and> px v = px w"
proof -
  have "unat v div 4096 = 256 * sx v + px v" if "unat v < 2 ^ 31" for v :: u64
  proof -
    have "unat v div 4096 = 256 * (unat v div 4096 div 256) + unat v div 4096 mod 256" by simp
    moreover have "unat v div 4096 div 256 = sx v" using that by (simp add: index_values div_mult2_eq [symmetric])
    moreover have "unat v div 4096 mod 256 = px v" by (simp add: index_values)
    ultimately show ?thesis by (simp only:)
  qed
  note n = this [OF assms(1)] this [OF assms(2)]
  have "drop_bit 12 v = drop_bit 12 w \<longleftrightarrow> 256 * sx v + px v = 256 * sx w + px w"
    by (simp only: word_unat_eq_iff unat_drop_bit_12 n)
  moreover have "256 * a + b = 256 * c + d \<longleftrightarrow> a = c \<and> b = d" if "b < 256" "d < 256" for a b c d :: nat
  proof
    assume e: "256 * a + b = 256 * c + d"
    have "(256 * a + b) div 256 = a" "(256 * c + d) div 256 = c" "(256 * a + b) mod 256 = b" "(256 * c + d) mod 256 = d"
      using that by simp_all
    with e show "a = c \<and> b = d" by simp
  qed simp
  ultimately show ?thesis using index_bounds [of v] index_bounds [of w] by blast
qed

lemma walk_tables:
  assumes "tables_ok d p pg"
  shows "walk (push_bit 12 p) (dwords d) v =
    (if DAT_RX v \<noteq> 0 then None else case pg (sx v) of None \<Rightarrow> None | Some q \<Rightarrow>
       (let pte = dwords d (entry_addr q (px v)) in if pte_i pte = 1 then None else Some (push_bit 12 (pte_pfra pte) + DAT_BX v)))"
  using tables_ok_None [OF assms index_bounds(1)] tables_ok_Some(1) [OF assms index_bounds(1)]
  by (auto simp: walk_def index_addr ste_i_fields table_entry_fields(2) Let_def split: option.splits)

section \<open>New tables\<close>

lemma alloc_search_normal:
  assumes "buddy_wf b" and "sorted gs" and "\<forall>g \<in> set gs. n \<le> g \<and> g < 52"
  shows "(\<exists>q b'. alloc_search gs n ZONE_NORMAL b = Ok (q, b'))
    \<or> alloc_search gs n ZONE_NORMAL b = Stop OutOfBounds \<and> (\<forall>g \<in> set gs. g < 19 \<longrightarrow> none_at g ZONE_NORMAL b)"
  using assms
proof (induction gs)
  case (Cons g gs)
  show ?case
  proof (cases "alloc_pages_exact g ZONE_NORMAL b")
    case (Inl e)
    with Cons.prems alloc_exact_Stop_iff [of b g ZONE_NORMAL e] have "e = OutOfBounds" "19 \<le> g" by simp_all
    with Inl Cons.prems(2) show ?thesis by auto
  next
    case (Inr r)
    obtain q b1 where r: "r = (q, b1)" by (cases r)
    show ?thesis
    proof (cases q)
      case None
      with Inr r alloc_exact_None [of g ZONE_NORMAL b b1] have "b1 = b" "none_at g ZONE_NORMAL b" by simp_all
      with Cons Inr r None show ?thesis by auto
    next
      case (Some page)
      with Inr r alloc_exact_Some [OF Cons.prems(1)] obtain low where
        s1: "buddy_wf b1" "zone_block low page g" by blast
      have "n \<le> g" using Cons.prems(3) by simp
      then obtain b2 where "chip_loop low page g n b1 = Ok b2" by (rule chip_loop_spec [OF s1])
      with Inr r Some s1 show ?thesis by (simp add: chip_pages_def zone_block_low_page [OF s1(2)])
    qed
  qed
qed simp

lemma alloc_normal_cases:
  assumes "buddy_wf b" and "n < 19"
  obtains (some) p b' where "alloc_pages n ZONE_NORMAL b = Ok (Some p, b')"
  | (stop) "alloc_pages n ZONE_NORMAL b = Stop OutOfBounds" "\<forall>g \<in> {n..<19}. none_at g ZONE_NORMAL b"
proof (cases "alloc_pages n ZONE_NORMAL b")
  case (Inr r)
  then obtain q b' where a: "alloc_pages n ZONE_NORMAL b = Ok (q, b')" by (cases r) auto
  then obtain p where "q = Some p" using alloc_pages_normal_not_None [OF assms(1)] by (cases q) auto
  with a show ?thesis using some by blast
next
  case (Inl e)
  have "alloc_pages_exact n ZONE_NORMAL b \<noteq> Stop e" for e
    using alloc_exact_Stop_iff [OF assms(1), of n ZONE_NORMAL e] assms(2) by simp
  then obtain q b1 where x: "alloc_pages_exact n ZONE_NORMAL b = Ok (q, b1)"
    by (cases "alloc_pages_exact n ZONE_NORMAL b") auto
  with Inl have q: "q = None" by (cases q) (auto simp: alloc_pages_def)
  with x alloc_exact_None [of n ZONE_NORMAL b b1] have "b1 = b" "none_at n ZONE_NORMAL b" by simp_all
  moreover have "alloc_pages n ZONE_NORMAL b = alloc_search [Suc n..<52] n ZONE_NORMAL b"
    using x q \<open>b1 = b\<close> by (simp add: alloc_pages_def)
  moreover have "(\<exists>q b'. alloc_search [Suc n..<52] n ZONE_NORMAL b = Ok (q, b'))
    \<or> alloc_search [Suc n..<52] n ZONE_NORMAL b = Stop OutOfBounds
      \<and> (\<forall>g \<in> set [Suc n..<52]. g < 19 \<longrightarrow> none_at g ZONE_NORMAL b)"
    by (rule alloc_search_normal [OF assms(1)]) auto
  moreover have "{n..<19} = insert n {Suc n..<19}" using assms(2) by auto
  ultimately show ?thesis using Inl by (intro stop) auto
qed

text \<open>The pool after \<open>n\<close> more frames are taken.\<close>

definition takes :: "nat set \<Rightarrow> buddy \<Rightarrow> buddy \<Rightarrow> bool" where
  "takes fs b b' \<longleftrightarrow> buddy_wf b' \<and> no_overlap b' \<and> finite fs \<and> free_frames b = free_frames b' + mset_set fs
     \<and> fs \<inter> set_mset (free_frames b') = {}"

lemma takes_subset: "takes fs b b' \<Longrightarrow> set_mset (free_frames b) = set_mset (free_frames b') \<union> fs"
  by (auto simp: takes_def)

lemma alloc_takes:
  assumes "buddy_wf b" and "no_overlap b" and "alloc_pages n ZONE_NORMAL b = Ok (Some p, b')"
  shows "takes (frames p n) b b'" "unat p + 2 ^ n \<le> 2 ^ 31" "page_to_addr (page_num_to_ptr p) = push_bit 12 p"
proof -
  have 1: "buddy_wf b'" "free_frames b = free_frames b' + mset_set (frames p n)" "buddy_block p n"
    using buddy.alloc_takes [OF assms(1,3)] by blast+
  have 2: "no_overlap b'" "\<forall>f \<in> frames p n. f \<notin># free_frames b'"
    using buddy.alloc_disjoint [OF assms(1) _ assms(3)] assms(2) by (auto simp: no_overlap_disjoint)
  show "takes (frames p n) b b'" using 1 2 by (auto simp: takes_def)
  from 1(3) obtain low where "zone_block low p n" by (auto simp: buddy_block_def)
  then have "unat p + 2 ^ n \<le> 2 ^ 19 \<or> unat p + 2 ^ n \<le> 2 ^ 31" by (cases low) (simp_all add: zone_block_def)
  then show le: "unat p + 2 ^ n \<le> 2 ^ 31" 
  proof
    assume "unat p + 2 ^ n \<le> 2 ^ 19"
    then show ?thesis by (rule le_trans) simp
  qed
  have "unat p < 2 ^ 52" using add_leD1 [OF le] by simp
  then show "page_to_addr (page_num_to_ptr p) = push_bit 12 p" by (rule page_to_addr_num)
qed

lemma alloc_table_cases:
  assumes "buddy_wf (frame_pool d)" and "no_overlap (frame_pool d)" and "n < 19"
  obtains (ok) p d' where "alloc_table n d = Ok (push_bit 12 p, d')" "takes (frames p n) (frame_pool d) (frame_pool d')"
      "unat p + 2 ^ n \<le> 2 ^ 31" "dwords d' = fill_ones (push_bit 12 p) (4096 * 2 ^ n) (dwords d)"
  | (stop) "alloc_table n d = Stop OutOfBounds" "\<forall>g \<in> {n..<19}. none_at g ZONE_NORMAL (frame_pool d)"
proof (cases rule: alloc_normal_cases [OF assms(1,3)])
  case (1 p b')
  note t = alloc_takes [OF assms(1,2) 1]
  show ?thesis
    by (rule ok [OF _ _ t(2), where d' = "\<lparr>dwords = fill_ones (push_bit 12 p) (4096 * 2 ^ n) (dwords d), frame_pool = b'\<rparr>"])
      (simp_all add: alloc_table_def 1 t(1,3) Let_def)
next
  case 2
  then show ?thesis by (intro stop) (simp_all add: alloc_table_def)
qed

lemma new_segment_table:
  assumes "takes (frames p 2) b (frame_pool d)" and "unat p + 2 ^ 2 \<le> 2 ^ 31"
    and "dwords d = fill_ones (push_bit 12 p) (4096 * 2 ^ 2) m"
  shows "tables_ok d p (\<lambda>_. None)"
proof -
  have "dwords d (entry_addr p i) = - 1" if "i < 2048" for i
  proof -
    have "i < 512 * 2 ^ 2" using that by simp
    from fill_inside [OF assms(2) this] show ?thesis unfolding assms(3) .
  qed
  moreover have "frames p 2 \<inter> set_mset (free_frames (frame_pool d)) = {}" using assms(1) by (simp add: takes_def)
  ultimately show ?thesis unfolding tables_ok_def segment_ok_simps using assms(2) by (intro conjI) simp_all
qed

text \<open>Tables stay in order while frames that belong to none of them are taken and written.\<close>

lemma tables_ok_frame:
  assumes ok: "tables_ok d p pg" and sub: "set_mset (free_frames (frame_pool d')) \<subseteq> set_mset (free_frames (frame_pool d))"
    and same: "\<And>x. unat x div 4096 \<in> frames p 2 \<Longrightarrow> dwords d' x = dwords d x"
  shows "tables_ok d' p pg"
proof -
  have p: "unat p + 2 ^ 2 \<le> 2 ^ 31" using ok unfolding tables_ok_def by blast
  have "segment_ok d' p i (pg i)" if i: "i < 2048" for i
  proof -
    have "i < 512 * 2 ^ 2" using i by simp
    then have "dwords d' (entry_addr p i) = dwords d (entry_addr p i)" by (intro same entry_frame [OF p])
    with tables_ok_at [OF ok i refl] sub show ?thesis by (cases "pg i") (simp only: segment_ok_simps, blast?)+
  qed
  with ok sub show ?thesis unfolding tables_ok_def by blast
qed

text \<open>The page table of segment \<open>i\<close> is found, or made.\<close>

lemma set_word_simps [simp]:
  "dwords (set_word a v d) = (dwords d)(a := v)" "frame_pool (set_word a v d) = frame_pool d"
  by (simp_all add: set_word_def)

lemma tables_ok_disjoint:
  assumes "tables_ok d p pg" and "i < 2048" "j < 2048" and "pg i = Some q" "pg j = Some r" and "i \<noteq> j"
  shows "frames q 0 \<inter> frames r 0 = {}"
proof -
  have "q \<noteq> r" using assms unfolding tables_ok_def by blast
  then have "unat q \<noteq> unat r" by (simp only: word_unat_eq_iff not_False_eq_True)
  then show ?thesis by (simp add: frames_def)
qed

lemma tables_ok_new:
  assumes ok: "tables_ok d p pg" and i: "i < 2048" and none: "pg i = None"
    and takes: "takes (frames q 0) (frame_pool d) (frame_pool d')" and q: "unat q + 2 ^ 0 \<le> 2 ^ 31"
    and new: "dwords d' = (fill_ones (push_bit 12 q) (4096 * 2 ^ 0) (dwords d))(entry_addr p i := push_bit 12 q)"
  shows "tables_ok d' p (pg(i := Some q))"
    and "j < 2048 \<Longrightarrow> pg j = Some r \<Longrightarrow> k < 512 \<Longrightarrow> dwords d' (entry_addr r k) = dwords d (entry_addr r k)"
    and "k < 512 \<Longrightarrow> dwords d' (entry_addr q k) = - 1"
proof -
  have p: "unat p + 2 ^ 2 \<le> 2 ^ 31" using ok unfolding tables_ok_def by blast
  have idx: "n < 512 * 2 ^ 2" if "n < 2048" for n :: nat using that by simp
  have idx0: "n < 512 * 2 ^ 0" if "n < 512" for n :: nat using that by simp
  have free: "set_mset (free_frames (frame_pool d)) = set_mset (free_frames (frame_pool d')) \<union> frames q 0"
    by (rule takes_subset [OF takes])
  have qfree: "frames q 0 \<inter> set_mset (free_frames (frame_pool d')) = {}" using takes by (simp add: takes_def)
  have pf: "frames p 2 \<inter> set_mset (free_frames (frame_pool d)) = {}" using ok unfolding tables_ok_def by blast
  have pq: "frames p 2 \<inter> frames q 0 = {}" using pf free by blast
  have seg: "dwords d' (entry_addr p j) = (if j = i then push_bit 12 q else dwords d (entry_addr p j))" if j: "j < 2048" for j
  proof (cases "j = i")
    case False
    have "entry_addr p j \<noteq> entry_addr p i" using False entry_addr_inj [OF p idx [OF j] idx [OF i]] by blast
    moreover have "unat (entry_addr p j) div 4096 \<notin> frames q 0" using entry_frame [OF p idx [OF j]] pq by blast
    ultimately show ?thesis using False by (simp only: new fun_upd_other fill_outside [OF q] if_False not_False_eq_True)
  qed (simp add: new)
  have old: "pg j = Some r \<Longrightarrow> r \<noteq> q" if "j < 2048" for j r
    using tables_ok_Some(3) [OF ok that, of r] free by (auto simp: frames_def)
  show keep: "dwords d' (entry_addr r k) = dwords d (entry_addr r k)" if r: "j < 2048" "pg j = Some r" and k: "k < 512" for j r k
  proof -
    note R = tables_ok_Some [OF ok r]
    have "unat (entry_addr r k) div 4096 \<in> frames r 0" by (rule entry_frame [OF R(2) idx0 [OF k]])
    then have "unat (entry_addr r k) div 4096 \<notin> frames q 0" using R(3) free by blast
    moreover have "entry_addr r k \<noteq> entry_addr p i"
      using entry_addr_disjoint [OF R(2) idx0 [OF k] p idx [OF i]] R(3) by blast
    ultimately show ?thesis by (simp only: new fun_upd_other fill_outside [OF q] not_False_eq_True)
  qed
  show "dwords d' (entry_addr q k) = - 1" if k: "k < 512"
  proof -
    have "entry_addr q k \<noteq> entry_addr p i"
      using entry_addr_disjoint [OF q idx0 [OF k] p idx [OF i]] pq by blast
    then show ?thesis by (simp only: new fun_upd_other fill_inside [OF q idx0 [OF k]] not_False_eq_True)
  qed
  have "segment_ok d' p j ((pg(i := Some q)) j)" if j: "j < 2048" for j
  proof (cases "j = i")
    case True
    have "dwords d' (entry_addr p i) = push_bit 12 q" using seg [OF i] by simp
    moreover have "frames q 0 \<inter> (frames p 2 \<union> set_mset (free_frames (frame_pool d'))) = {}" using pq qfree by blast
    ultimately show ?thesis using q True by (simp only: fun_upd_same segment_ok_simps)
  next
    case False
    have "dwords d' (entry_addr p j) = dwords d (entry_addr p j)" using seg [OF j] False by simp
    moreover have "(pg(i := Some q)) j = pg j" using False by simp
    ultimately show ?thesis using tables_ok_at [OF ok j refl] free
      by (cases "pg j") (simp_all only: segment_ok_simps, blast)
  qed
  moreover have "\<forall>j < 2048. \<forall>k < 2048. \<forall>r. (pg(i := Some q)) j = Some r \<and> (pg(i := Some q)) k = Some r \<longrightarrow> j = k"
  proof (intro allI impI)
    fix j k r assume jk: "j < 2048" "k < 2048" "(pg(i := Some q)) j = Some r \<and> (pg(i := Some q)) k = Some r"
    have inj: "pg j = Some r \<Longrightarrow> pg k = Some r \<Longrightarrow> j = k" using ok jk(1,2) unfolding tables_ok_def by blast
    show "j = k" using jk(3) old [OF jk(1), of r] old [OF jk(2), of r] inj by (auto split: if_splits)
  qed
  ultimately show "tables_ok d' p (pg(i := Some q))" using p pf free unfolding tables_ok_def by blast
qed

lemma find_page_table_cases:
  assumes ok: "tables_ok d p pg" and i: "i < 2048" and wf: "buddy_wf (frame_pool d)" "no_overlap (frame_pool d)"
  obtains (old) q where "pg i = Some q" "find_page_table (entry_addr p i) d = Ok (push_bit 12 q, d)"
  | (new) q d' where "pg i = None" "find_page_table (entry_addr p i) d = Ok (push_bit 12 q, d')"
      "takes (frames q 0) (frame_pool d) (frame_pool d')" "unat q + 2 ^ 0 \<le> 2 ^ 31"
      "dwords d' = (fill_ones (push_bit 12 q) (4096 * 2 ^ 0) (dwords d))(entry_addr p i := push_bit 12 q)"
  | (stop) "pg i = None" "find_page_table (entry_addr p i) d = Stop OutOfBounds"
      "\<forall>g \<in> {0..<19}. none_at g ZONE_NORMAL (frame_pool d)"
proof (cases "pg i")
  case (Some q)
  have "dwords d (entry_addr p i) = push_bit 12 q" by (rule tables_ok_Some(1) [OF ok i Some])
  moreover have "ste_origin (push_bit 12 q) \<noteq> 0x1fffffffffffff" using table_entry_fields(1) [of q 0] by (simp only: table_entry_fields(3)) simp
  ultimately have "find_page_table (entry_addr p i) d = Ok (push_bit 12 q, d)"
    by (simp add: find_page_table_def table_entry_fields)
  with Some show ?thesis by (rule old)
next
  case None
  have inv: "ste_origin (dwords d (entry_addr p i)) = 0x1fffffffffffff"
    by (simp only: tables_ok_None [OF ok i None] ones_fields)
  have "(0 :: nat) < 19" by simp
  from wf this show ?thesis
  proof (cases rule: alloc_table_cases)
    case (ok q d1)
    let ?d = "set_word (entry_addr p i) (push_bit 12 q) d1"
    have "find_page_table (entry_addr p i) d = Ok (push_bit 12 q, ?d)"
      by (simp add: find_page_table_def inv ok(1) table_entry_fields)
    moreover have "takes (frames q 0) (frame_pool d) (frame_pool ?d)" using ok(2) by simp
    moreover have "dwords ?d = (fill_ones (push_bit 12 q) (4096 * 2 ^ 0) (dwords d))(entry_addr p i := push_bit 12 q)"
      using ok(4) by simp
    ultimately show ?thesis using new [OF None _ _ ok(3)] by blast
  next
    case stop
    then show ?thesis using that(3) [OF None] by (simp add: find_page_table_def inv)
  qed
qed

text \<open>Storing the entry of a page.\<close>

lemma tables_ok_store:
  assumes ok: "tables_ok d p pg" and i: "i < 2048" and q: "pg i = Some q" and k: "k < 512"
  shows "tables_ok (set_word (entry_addr q k) v d) p pg"
    and "j < 2048 \<Longrightarrow> pg j = Some r \<Longrightarrow> n < 512 \<Longrightarrow>
      dwords (set_word (entry_addr q k) v d) (entry_addr r n) = (if j = i \<and> n = k then v else dwords d (entry_addr r n))"
proof -
  have idx0: "n < 512 * 2 ^ 0" if "n < 512" for n :: nat using that by simp
  note Q = tables_ok_Some [OF ok i q]
  show "tables_ok (set_word (entry_addr q k) v d) p pg"
  proof (rule tables_ok_frame [OF ok])
    fix x :: u64 assume "unat x div 4096 \<in> frames p 2"
    then have "x \<noteq> entry_addr q k" using entry_frame [OF Q(2) idx0 [OF k]] Q(3) by blast
    then show "dwords (set_word (entry_addr q k) v d) x = dwords d x" by simp
  qed simp
  assume r: "j < 2048" "pg j = Some r" and n: "n < 512"
  note R = tables_ok_Some [OF ok r]
  have "entry_addr r n = entry_addr q k \<longleftrightarrow> j = i \<and> n = k"
  proof (cases "j = i")
    case True
    with q r(2) have "r = q" by simp
    with True entry_addr_inj [OF Q(2) idx0 [OF n] idx0 [OF k]] show ?thesis by blast
  next
    case False
    from entry_addr_disjoint [OF R(2) idx0 [OF n] Q(2) idx0 [OF k] tables_ok_disjoint [OF ok r(1) i r(2) q False]] False
    show ?thesis by blast
  qed
  then show "dwords (set_word (entry_addr q k) v d) (entry_addr r n) = (if j = i \<and> n = k then v else dwords d (entry_addr r n))"
    by simp
qed

text \<open>The frames the tables lie in.\<close>

definition table_frames :: "address_space \<Rightarrow> dat \<Rightarrow> nat set" where
  "table_frames as d = (case segment_table as of
     None \<Rightarrow> {}
   | Some t \<Rightarrow> frames (drop_bit 12 t) 2 \<union>
       (\<Union>i \<in> {..<2048}. let e = dwords d (t + 8 * of_nat i) in
          if ste_i e = 1 then {} else frames (drop_bit 12 (STE_ORIGIN_TO_ADDR (ste_origin e))) 0))"

lemma drop_push_12:
  assumes "unat (p :: u64) + 2 ^ n \<le> 2 ^ 31"
  shows "drop_bit 12 (push_bit 12 p) = p"
proof (rule word_unat_eq_iff [THEN iffD2])
  have "unat p < 2 ^ 52" using add_leD1 [OF assms] by simp
  then have "unat (push_bit 12 p) = 4096 * unat p" by (simp add: push_bit_eq_mult unat_word_ariths)
  then show "unat (drop_bit 12 (push_bit 12 p)) = unat p" by (simp add: unat_drop_bit_12)
qed

lemma table_frames_tables:
  assumes ok: "tables_ok d p pg" and t: "segment_table as = Some (push_bit 12 p)"
  shows "table_frames as d = frames p 2 \<union> (\<Union>i \<in> {..<2048}. case pg i of None \<Rightarrow> {} | Some q \<Rightarrow> frames q 0)"
proof -
  have p: "unat p + 2 ^ 2 \<le> 2 ^ 31" using ok unfolding tables_ok_def by blast
  have "(let e = dwords d (push_bit 12 p + 8 * of_nat i) in
          if ste_i e = 1 then {} else frames (drop_bit 12 (STE_ORIGIN_TO_ADDR (ste_origin e))) 0)
      = (case pg i of None \<Rightarrow> {} | Some q \<Rightarrow> frames q 0)" if i: "i < 2048" for i
  proof (cases "pg i")
    case None
    from tables_ok_None [OF ok i this] None show ?thesis by (simp add: entry_addr_def ste_i_fields)
  next
    case (Some q)
    note Q = tables_ok_Some [OF ok i Some]
    from Q(1) Some show ?thesis
      by (simp add: entry_addr_def ste_i_fields table_entry_fields drop_push_12 [OF Q(2)])
  qed
  then show ?thesis by (simp add: table_frames_def t drop_push_12 [OF p])
qed

lemma table_frames_not_free:
  assumes "dat_ok as d"
  shows "table_frames as d \<inter> set_mset (free_frames (frame_pool d)) = {}"
proof (cases "segment_table as")
  case None
  then show ?thesis by (simp add: table_frames_def)
next
  case (Some t)
  with assms obtain p pg where t: "t = push_bit 12 p" and ok: "tables_ok d p pg" by (auto simp: dat_ok_def)
  have "frames p 2 \<inter> set_mset (free_frames (frame_pool d)) = {}" using ok unfolding tables_ok_def by blast
  moreover have "(case pg i of None \<Rightarrow> {} | Some q \<Rightarrow> frames q 0) \<inter> set_mset (free_frames (frame_pool d)) = {}"
    if "i < 2048" for i
    using tables_ok_Some(3) [OF ok that] by (cases "pg i") (simp, simp, blast)
  ultimately show ?thesis by (auto simp: table_frames_tables [OF ok] Some t)
qed

section \<open>What inserting a page does\<close>

text \<open>Storage for a table has run out: before, or after the segment table was made.\<close>

definition pool_short :: "dat \<Rightarrow> bool" where
  "pool_short d \<longleftrightarrow> (\<forall>g \<in> {2..<19}. none_at g ZONE_NORMAL (frame_pool d))
     \<or> (\<exists>p b. alloc_pages 2 ZONE_NORMAL (frame_pool d) = Ok (Some p, b) \<and> (\<forall>g \<in> {0..<19}. none_at g ZONE_NORMAL b))"

text \<open>The page table entry of a page; a page table that is missing counts as all ones.\<close>

definition pte :: "dat \<Rightarrow> (nat \<Rightarrow> u64 option) \<Rightarrow> nat \<Rightarrow> nat \<Rightarrow> u64" where
  "pte d pg j n = (case pg j of None \<Rightarrow> - 1 | Some q \<Rightarrow> dwords d (entry_addr q n))"

lemma walk_pte:
  assumes "tables_ok d p pg"
  shows "walk (push_bit 12 p) (dwords d) v =
    (if DAT_RX v \<noteq> 0 \<or> pte_i (pte d pg (sx v) (px v)) = 1 then None
     else Some (push_bit 12 (pte_pfra (pte d pg (sx v) (px v))) + DAT_BX v))"
  by (simp add: walk_tables [OF assms] pte_def ones_fields Let_def split: option.splits)

lemma pte_store:
  assumes "tables_ok d p pg" and "i < 2048" and "pg i = Some q" and "k < 512" and "j < 2048" and "n < 512"
  shows "pte (set_word (entry_addr q k) v d) pg j n = (if j = i \<and> n = k then v else pte d pg j n)"
  using tables_ok_store(2) [OF assms(1-5) _ assms(6), where v = v] assms(3) by (cases "pg j") (auto simp: pte_def)

lemma pte_new:
  assumes "tables_ok d p pg" and "i < 2048" and "pg i = None"
    and "takes (frames q 0) (frame_pool d) (frame_pool d')" and "unat q + 2 ^ 0 \<le> 2 ^ 31"
    and "dwords d' = (fill_ones (push_bit 12 q) (4096 * 2 ^ 0) (dwords d))(entry_addr p i := push_bit 12 q)"
    and j: "j < 2048" and n: "n < 512"
  shows "pte d' (pg(i := Some q)) j n = pte d pg j n"
proof (cases "j = i")
  case True
  then show ?thesis using tables_ok_new(3) [OF assms(1-6) n] assms(3) by (simp add: pte_def)
next
  case False
  then show ?thesis using tables_ok_new(2) [OF assms(1-6) j _ n] by (simp add: pte_def split: option.splits)
qed

text \<open>Finding the page table of a segment keeps the entries of all pages.\<close>

lemma find_page_table_spec:
  assumes ok: "tables_ok d p pg" and i: "i < 2048" and wf: "buddy_wf (frame_pool d)" "no_overlap (frame_pool d)"
  obtains (found) q fs d' where "find_page_table (entry_addr p i) d = Ok (push_bit 12 q, d')"
      "tables_ok d' p (pg(i := Some q))" "takes fs (frame_pool d) (frame_pool d')" "pg i = Some q \<or> frames q 0 = fs"
      "\<forall>j < 2048. \<forall>n < 512. pte d' (pg(i := Some q)) j n = pte d pg j n"
  | (stop) "find_page_table (entry_addr p i) d = Stop OutOfBounds" "\<forall>g \<in> {0..<19}. none_at g ZONE_NORMAL (frame_pool d)"
proof (cases rule: find_page_table_cases [OF ok i wf])
  case (1 q)
  have "pg(i := Some q) = pg" using 1(1) by auto
  moreover have "takes {} (frame_pool d) (frame_pool d)" using wf by (simp add: takes_def)
  ultimately show ?thesis using found [OF 1(2)] 1(1) ok by metis
next
  case (2 q d')
  show ?thesis
    by (rule found [OF 2(2) tables_ok_new(1) [OF ok i 2(1,3,4,5)] 2(3)])
      (simp, use pte_new [OF ok i 2(1,3,4,5)] in blast)
next
  case 3
  show ?thesis by (rule stop [OF 3(2,3)])
qed

lemma same_page_high:
  assumes "drop_bit 12 w = drop_bit 12 v" and "unat v < 2 ^ 31"
  shows "DAT_RX w = 0"
proof -
  have "unat w div 4096 = unat v div 4096" using assms(1) by (simp only: unat_drop_bit_12 [symmetric])
  moreover have "unat v div 4096 < 2 ^ 19" using assms(2) by (simp add: less_mult_imp_div_less)
  ultimately have "unat w div 4096 < 2 ^ 19" by simp
  then have "unat w < 2 ^ 31" by (simp add: div_less_iff_less_mult)
  then show ?thesis by (simp only: rx_small)
qed

text \<open>One changed entry changes the translation of one page.\<close>

lemma walk_changed:
  assumes ok: "tables_ok d p pg" "tables_ok d' p pg'" and v: "unat virt < 2 ^ 31"
    and pte: "\<forall>j < 2048. \<forall>n < 512. pte d' pg' j n = (if j = sx virt \<and> n = px virt then page_entry phy e else pte d pg j n)"
  shows "walk (push_bit 12 p) (dwords d') w = (if drop_bit 12 w = drop_bit 12 virt
         then Some ((phy AND NOT PAGE_MASK) + DAT_BX w) else walk (push_bit 12 p) (dwords d) w)"
proof (cases "DAT_RX w = 0")
  case False
  then have "drop_bit 12 w \<noteq> drop_bit 12 virt" using same_page_high [OF _ v] by blast
  with False show ?thesis by (simp add: walk_pte [OF ok(1)] walk_pte [OF ok(2)])
next
  case True
  then have w: "unat w < 2 ^ 31" by (simp only: rx_small)
  have "pte d' pg' (sx w) (px w) = (if sx w = sx virt \<and> px w = px virt then page_entry phy e else pte d pg (sx w) (px w))"
    using pte index_bounds [of w] by simp
  then have "pte d' pg' (sx w) (px w) = (if drop_bit 12 w = drop_bit 12 virt then page_entry phy e else pte d pg (sx w) (px w))"
    by (simp only: same_page [OF w v])
  with True show ?thesis by (simp add: walk_pte [OF ok(1)] walk_pte [OF ok(2)] page_entry_fields)
qed

text \<open>What a call that returns has done.\<close>

definition inserted :: "u64 \<Rightarrow> u64 \<Rightarrow> address_space \<Rightarrow> dat \<Rightarrow> address_space \<Rightarrow> dat \<Rightarrow> bool" where
  "inserted phy virt as d as' d' \<longleftrightarrow> dat_ok as' d'
     \<and> dat_lookup as' d' = (\<lambda>v. if drop_bit 12 v = drop_bit 12 virt then Some ((phy AND NOT PAGE_MASK) + DAT_BX v) else dat_lookup as d v)
     \<and> set_mset (free_frames (frame_pool d')) \<subseteq> set_mset (free_frames (frame_pool d))
     \<and> table_frames as' d' \<subseteq> table_frames as d \<union> set_mset (free_frames (frame_pool d))"

lemma insert_with_table:
  assumes ok: "dat_ok as d" and seg: "segment_table as \<noteq> None" and v: "unat virt < 2 ^ 31"
  shows "(\<exists>as' d'. dat_insert_page as phy virt d = Ok (as', d') \<and> inserted phy virt as d as' d')
    \<or> dat_insert_page as phy virt d = Stop OutOfBounds \<and> (\<forall>g \<in> {0..<19}. none_at g ZONE_NORMAL (frame_pool d))"
proof -
  have wf: "buddy_wf (frame_pool d)" "no_overlap (frame_pool d)" and region: "region_table as = None"
    using ok unfolding dat_ok_def by blast+
  obtain p pg where t: "segment_table as = Some (push_bit 12 p)" and T: "tables_ok d p pg"
    using ok seg unfolding dat_ok_def by blast
  have run: "dat_insert_page as phy virt d = bindR (find_page_table (entry_addr p (sx virt)) d)
      (\<lambda>(page, d). let page = page + 8 * DAT_PX virt in Ok (as, set_word page (page_entry phy (dwords d page)) d))"
    by (simp add: dat_insert_page_def find_segment_table_def region t index_addr)
  show ?thesis
  proof (cases rule: find_page_table_spec [OF T index_bounds(1) wf, of virt])
    case (1 q fs d1)
    let ?pg = "pg(sx virt := Some q)" and ?a = "entry_addr q (px virt)"
    let ?d = "set_word ?a (page_entry phy (dwords d1 ?a)) d1"
    have k: "px virt < 512" using index_bounds(2) [of virt] by simp
    have eq: "dat_insert_page as phy virt d = Ok (as, ?d)"
      by (simp add: run 1(1) index_addr Let_def)
    have T2: "tables_ok ?d p ?pg" by (rule tables_ok_store(1) [OF 1(2) index_bounds(1) [of virt] _ k]) simp
    have pte: "\<forall>j < 2048. \<forall>n < 512. pte ?d ?pg j n = (if j = sx virt \<and> n = px virt then page_entry phy (dwords d1 ?a) else pte d pg j n)"
    proof (intro allI impI)
      fix j n :: nat assume jn: "j < 2048" "n < 512"
      from pte_store [OF 1(2) index_bounds(1) [of virt] _ k jn, where q = q] 1(5) jn
      show "pte ?d ?pg j n = (if j = sx virt \<and> n = px virt then page_entry phy (dwords d1 ?a) else pte d pg j n)"
        by simp
    qed
    have free: "set_mset (free_frames (frame_pool d)) = set_mset (free_frames (frame_pool d1)) \<union> fs"
      by (rule takes_subset [OF 1(3)])
    have "dat_ok as ?d" using 1(3) T2 region t unfolding dat_ok_def takes_def by auto
    moreover have "dat_lookup as ?d = (\<lambda>v. if drop_bit 12 v = drop_bit 12 virt then Some ((phy AND NOT PAGE_MASK) + DAT_BX v) else dat_lookup as d v)"
      using walk_changed [OF T T2 v pte] by (auto simp: dat_lookup_def t)
    moreover have "table_frames as ?d \<subseteq> table_frames as d \<union> set_mset (free_frames (frame_pool d))"
      unfolding table_frames_tables [OF T t] table_frames_tables [OF T2 t]
      using 1(4) free index_bounds(1) [of virt] by (auto split: if_splits option.splits)
    ultimately have "inserted phy virt as d as ?d" using free by (simp add: inserted_def)
    with eq show ?thesis by blast
  next
    case 2
    then show ?thesis by (simp add: run)
  qed
qed

lemma insert_first:
  assumes "segment_table as = None" and "region_table as = None" and "alloc_table 2 d = Ok (t, d1)"
  shows "dat_insert_page as phy virt d = dat_insert_page (as\<lparr>segment_table := Some t\<rparr>) phy virt d1"
  using assms by (simp add: dat_insert_page_def find_segment_table_def)

lemma insert_cases:
  assumes ok: "dat_ok as d" and v: "unat virt < 2 ^ 31"
  shows "(\<exists>as' d'. dat_insert_page as phy virt d = Ok (as', d') \<and> inserted phy virt as d as' d')
    \<or> dat_insert_page as phy virt d = Stop OutOfBounds \<and> pool_short d"
proof (cases "segment_table as")
  case (Some t)
  with insert_with_table [OF ok _ v, of phy] show ?thesis by (auto simp: pool_short_def)
next
  case None
  have wf: "buddy_wf (frame_pool d)" "no_overlap (frame_pool d)" and region: "region_table as = None"
    using ok unfolding dat_ok_def by blast+
  show ?thesis
  proof (cases rule: alloc_table_cases [OF wf, of 2])
    case 1 show ?case by simp
  next
    case (2 p d1)
    let ?as = "as\<lparr>segment_table := Some (push_bit 12 p)\<rparr>"
    have T: "tables_ok d1 p (\<lambda>_. None)" by (rule new_segment_table [OF 2(2,3,4)])
    have ok1: "dat_ok ?as d1" using 2(2) T region unfolding dat_ok_def takes_def by auto
    have free: "set_mset (free_frames (frame_pool d)) = set_mset (free_frames (frame_pool d1)) \<union> frames p 2"
      by (rule takes_subset [OF 2(2)])
    have same: "dat_lookup ?as d1 = dat_lookup as d"
      by (rule ext) (simp add: dat_lookup_def None walk_tables [OF T])
    have tf: "table_frames ?as d1 = frames p 2" by (subst table_frames_tables [OF T]) simp_all
    have eq: "dat_insert_page as phy virt d = dat_insert_page ?as phy virt d1" by (rule insert_first [OF None region 2(1)])
    have "inserted phy virt ?as d1 as' d' \<Longrightarrow> inserted phy virt as d as' d'" for as' d'
      using free tf unfolding inserted_def same by auto
    moreover have "\<exists>q. alloc_pages 2 ZONE_NORMAL (frame_pool d) = Ok (Some q, frame_pool d1)"
      using 2(1) by (auto simp: alloc_table_def bindR_eq_Ok Let_def split: option.splits)
    moreover have "segment_table ?as \<noteq> None" by simp
    ultimately show ?thesis using insert_with_table [OF ok1 _ v, of phy]
      unfolding eq pool_short_def by blast
  next
    case 3
    then show ?thesis by (auto simp: dat_insert_page_def find_segment_table_def region None pool_short_def)
  qed
qed

section \<open>Guest storage\<close>

text \<open>
  The pages of a guest so far: the pages \<open>k, k + 1, ...\<close> are mapped to the frames listed, no
  frame is listed twice, and none is free or holds a table.
\<close>

definition guest_ok :: "nat \<Rightarrow> nat \<Rightarrow> address_space \<Rightarrow> u64 list \<Rightarrow> dat \<Rightarrow> bool" where
  "guest_ok n k as pages d \<longleftrightarrow> dat_ok as d \<and> distinct pages \<and> length pages = n - k \<and> k \<le> n
     \<and> unat ` set pages \<inter> (set_mset (free_frames (frame_pool d)) \<union> table_frames as d) = {}
     \<and> (\<forall>v. k * 4096 \<le> unat v \<and> unat v < n * 4096 \<longrightarrow>
          dat_lookup as d v = Some (push_bit 12 (pages ! (unat v div 4096 - k)) + DAT_BX v))"

lemma dat_ok_frame:
  assumes ok: "dat_ok as d" and b: "buddy_wf b" "no_overlap b" and sub: "set_mset (free_frames b) \<subseteq> set_mset (free_frames (frame_pool d))"
  shows "dat_ok as (d\<lparr>frame_pool := b\<rparr>)"
proof -
  have "tables_ok (d\<lparr>frame_pool := b\<rparr>) p pg" if "tables_ok d p pg" for p pg
    by (rule tables_ok_frame [OF that]) (simp_all add: sub)
  with ok b show ?thesis unfolding dat_ok_def by (simp, blast)
qed

lemma frames_0: "frames p 0 = {unat p}"
  by (auto simp: frames_def)

lemma guest_ok_step:
  assumes G: "guest_ok n (Suc k) as pages d" and T: "takes (frames p 0) (frame_pool d) b" and p: "unat p + 2 ^ 0 \<le> 2 ^ 31"
    and v: "unat (push_bit 12 (of_nat k) :: u64) = k * 4096"
    and I: "inserted (push_bit 12 p) (push_bit 12 (of_nat k)) as (d\<lparr>frame_pool := b\<rparr>) as' d'"
  shows "guest_ok n k as' (p # pages) d'"
proof -
  let ?v = "push_bit 12 (of_nat k) :: u64" and ?F = "\<lambda>d. set_mset (free_frames (frame_pool d))"
  have dok: "dat_ok as d" and dist: "distinct pages" and len: "length pages = n - Suc k" and kn: "Suc k \<le> n"
    and iso: "unat ` set pages \<inter> (?F d \<union> table_frames as d) = {}"
    and map: "Suc k * 4096 \<le> unat v \<Longrightarrow> unat v < n * 4096 \<Longrightarrow>
      dat_lookup as d v = Some (push_bit 12 (pages ! (unat v div 4096 - Suc k)) + DAT_BX v)" for v
    using G unfolding guest_ok_def by blast+
  have free: "?F d = set_mset (free_frames b) \<union> {unat p}" using takes_subset [OF T] by (simp add: frames_0)
  have pb: "unat p \<notin> set_mset (free_frames b)" using T by (simp add: takes_def frames_0)
  have pt: "unat p \<notin> table_frames as d" using table_frames_not_free [OF dok] free by blast
  have lf: "dat_lookup as (d\<lparr>frame_pool := b\<rparr>) = dat_lookup as d"
    by (rule ext) (cases "segment_table as", simp_all add: dat_lookup_def)
  have tf: "table_frames as (d\<lparr>frame_pool := b\<rparr>) = table_frames as d"
    by (cases "segment_table as") (simp_all add: table_frames_def)
  have I1: "dat_ok as' d'" and I2: "?F d' \<subseteq> set_mset (free_frames b)"
    and I3: "table_frames as' d' \<subseteq> table_frames as d \<union> set_mset (free_frames b)"
    and I4: "dat_lookup as' d' = (\<lambda>w. if drop_bit 12 w = drop_bit 12 ?v
      then Some ((push_bit 12 p AND NOT PAGE_MASK) + DAT_BX w) else dat_lookup as (d\<lparr>frame_pool := b\<rparr>) w)"
    using I by (simp_all add: inserted_def tf)
  have new: "push_bit 12 p AND NOT PAGE_MASK = push_bit 12 p"
    by (simp only: push_drop_12 [symmetric] drop_push_12 [OF p])
  have "dat_lookup as' d' w = Some (push_bit 12 ((p # pages) ! (unat w div 4096 - k)) + DAT_BX w)"
    if w: "k * 4096 \<le> unat w" "unat w < n * 4096" for w
  proof -
    have eq: "drop_bit 12 w = drop_bit 12 ?v \<longleftrightarrow> unat w div 4096 = k"
      by (simp only: word_unat_eq_iff unat_drop_bit_12 v) simp
    show ?thesis
    proof (cases "unat w div 4096 = k")
      case True
      then show ?thesis using eq by (simp only: I4 if_True new) simp
    next
      case False
      have "k \<le> unat w div 4096" using w(1) by (simp add: less_eq_div_iff_mult_less_eq)
      with False have j: "Suc k \<le> unat w div 4096" by simp
      then have "Suc k * 4096 \<le> unat w" by (simp add: less_eq_div_iff_mult_less_eq)
      from map [OF this w(2)] have "dat_lookup as (d\<lparr>frame_pool := b\<rparr>) w = Some (push_bit 12 (pages ! (unat w div 4096 - Suc k)) + DAT_BX w)"
        unfolding lf .
      moreover have "(p # pages) ! (unat w div 4096 - k) = pages ! (unat w div 4096 - Suc k)"
        using j by (simp add: nth_Cons')
      ultimately show ?thesis using eq False by (simp only: I4 if_False)
    qed
  qed
  moreover have "distinct (p # pages)" "length (p # pages) = n - k" "k \<le> n" using dist len kn iso free by auto
  moreover have "unat ` set (p # pages) \<inter> (?F d' \<union> table_frames as' d') = {}" using I2 I3 iso free pb pt by auto
  ultimately show ?thesis using I1 unfolding guest_ok_def by blast
qed

lemma alloc_guest_storage_spec:
  assumes "guest_ok n k as pages d" and "n \<le> 2 ^ 19"
  shows "(\<exists>as' pages' d'. alloc_guest_storage k as pages d = Ok (None, as', pages', d') \<and> guest_ok n 0 as' pages' d')
    \<or> alloc_guest_storage k as pages d = Stop OutOfBounds"
  using assms(1)
proof (induction k arbitrary: as pages d)
  case 0
  then show ?case by simp
next
  case (Suc k)
  note G = Suc.prems
  have dok: "dat_ok as d" and wf: "buddy_wf (frame_pool d)" "no_overlap (frame_pool d)" and kn: "k < n"
    using G unfolding guest_ok_def dat_ok_def by simp_all
  show ?case
  proof (cases rule: alloc_normal_cases [OF wf(1), of 0])
    case 1 show ?case by simp
  next
    case (2 p b)
    let ?d = "d\<lparr>frame_pool := b\<rparr>" and ?v = "push_bit 12 (of_nat k) :: u64"
    note A = alloc_takes [OF wf 2]
    have "k < 2 ^ 19" using kn assms(2) by linarith
    then have v: "unat ?v = k * 4096" by (simp add: push_bit_eq_mult unat_word_ariths unat_of_nat)
    have free: "set_mset (free_frames (frame_pool d)) = set_mset (free_frames b) \<union> frames p 0"
      by (rule takes_subset [OF A(1)])
    have dok1: "dat_ok as ?d" using dok A(1) free by (intro dat_ok_frame) (auto simp: takes_def)
    have run: "alloc_guest_storage (Suc k) as pages d =
        bindR (dat_insert_page as (push_bit 12 p) ?v ?d) (\<lambda>(as, d). alloc_guest_storage k as (p # pages) d)"
      by (simp add: 2 A(3))
    have "unat ?v < 2 ^ 31" using v \<open>k < 2 ^ 19\<close> by simp
    from insert_cases [OF dok1 this, of "push_bit 12 p"] show ?thesis
    proof
      assume "\<exists>as' d'. dat_insert_page as (push_bit 12 p) ?v ?d = Ok (as', d') \<and> inserted (push_bit 12 p) ?v as ?d as' d'"
      then obtain as' d' where ins: "dat_insert_page as (push_bit 12 p) ?v ?d = Ok (as', d')"
        and I: "inserted (push_bit 12 p) ?v as ?d as' d'" by blast
      have "guest_ok n k as' (p # pages) d'"
        by (rule guest_ok_step [OF G A(1,2) v I])
      from Suc.IH [OF this] ins show ?thesis by (simp only: run bindR_simps case_prod_conv)
    qed (simp add: run del: alloc_guest_storage.simps)
  next
    case 3
    then show ?thesis by simp
  qed
qed

section \<open>Copying\<close>

lemma copy_from_guest_round:
  assumes "virt2phy a = Some h" and "0 < len" and "n = min (4096 - unat (h AND PAGE_MASK)) len"
  shows "copy_from_guest (Suc k) virt2phy a m len data = copy_from_guest k virt2phy a m (len - n) (data @ read_bytes m h n)"
  using assms by (simp add: Let_def)

lemma page_offset: "unat (h AND PAGE_MASK) < 4096"
proof -
  have m: "PAGE_MASK = mask 12" by (simp add: PAGE_MASK_def mask_eq_exp_minus_1)
  have "unat (h AND PAGE_MASK) = unat h mod 4096"
    by (simp only: m take_bit_eq_mask [symmetric] unsigned_take_bit_eq) (simp add: take_bit_eq_mod)
  then show ?thesis by simp
qed

text \<open>More than \<open>len\<close> rounds are never needed.\<close>

lemma copy_from_guest_fuel:
  "len \<le> k \<Longrightarrow> copy_from_guest (k + j) virt2phy a m len data = copy_from_guest k virt2phy a m len data"
proof (induction k arbitrary: len data)
  case 0
  then show ?case by (cases j) simp_all
next
  case (Suc k)
  have "len - min (4096 - unat (h AND PAGE_MASK)) len \<le> k" for h
    using Suc.prems page_offset [of h] by linarith
  then show ?case using Suc.IH by (simp add: Let_def split: option.splits)
qed

lemma copy_from_guest_0: "copy_from_guest k virt2phy a m 0 data = (None, data)"
  by (cases k) simp_all

section \<open>Properties\<close>

text \<open>An empty address space over the frames 1 to 8.\<close>

definition fresh :: dat where
  "fresh = \<lparr>dwords = (\<lambda>_. 0), frame_pool = small_storage\<rparr>"

definition no_tables :: address_space where
  "no_tables = \<lparr>region_table = None, segment_table = None\<rparr>"

lemma small_not_short: "frame_pool d = small_storage \<Longrightarrow> \<not> pool_short d"
proof -
  assume d: "frame_pool d = small_storage"
  let ?b = "small_storage\<lparr>orders_low := [[], [], [5]] @ replicate 16 []\<rparr>"
  have "alloc_pages 2 ZONE_NORMAL small_storage = Ok (Some 1, ?b)" by code_simp
  moreover have "\<not> none_at 3 ZONE_NORMAL small_storage" "\<not> none_at 2 ZONE_NORMAL ?b"
    by (simp_all add: none_at_def small_storage_lists)
  ultimately show ?thesis using d by (auto simp: pool_short_def)
qed

lemma chipped_not_short: "frame_pool d = small_storage\<lparr>orders_low := [[2], [3], [5]] @ replicate 16 []\<rparr> \<Longrightarrow> \<not> pool_short d"
proof -
  let ?s = "small_storage\<lparr>orders_low := [[2], [3], [5]] @ replicate 16 []\<rparr>"
  let ?b = "small_storage\<lparr>orders_low := [[2], [3], []] @ replicate 16 []\<rparr>"
  assume d: "frame_pool d = ?s"
  have "alloc_pages 2 ZONE_NORMAL ?s = Ok (Some 5, ?b)" by code_simp
  moreover have "\<not> none_at 2 ZONE_NORMAL ?s" "\<not> none_at 1 ZONE_NORMAL ?b"
    by (simp_all add: none_at_def)
  ultimately show ?thesis using d by (auto simp: pool_short_def)
qed

lemma fresh_ok: "dat_ok no_tables fresh"
  using small_storage_ok by (simp add: dat_ok_def fresh_def no_tables_def)

text \<open>
  (C11) Inserting a page changes the translation of the addresses of that page, to the frame
  given, and of no other address, and keeps the tables in order; the tables it makes come from
  free frames.  It stops only if storage for a table has run out.
\<close>

theorem dat_insert_page_correct:
  assumes "dat_ok as d" and "unat virt < 2 ^ 31"
  shows "(\<exists>as' d'. dat_insert_page as phy virt d = Ok (as', d') \<and> dat_ok as' d'
      \<and> dat_lookup as' d' = (\<lambda>v. if drop_bit 12 v = drop_bit 12 virt
          then Some ((phy AND NOT PAGE_MASK) + DAT_BX v) else dat_lookup as d v)
      \<and> table_frames as' d' \<subseteq> table_frames as d \<union> set_mset (free_frames (frame_pool d)))
    \<or> dat_insert_page as phy virt d = Stop OutOfBounds \<and> pool_short d"
  using insert_cases [OF assms, of phy] unfolding inserted_def by blast

theorem dat_insert_page_correct_witness:
  "\<exists>as d. dat_insert_page no_tables 0x7000 0x123456 fresh = Ok (as, d) \<and> dat_lookup as d 0x123abc = Some 0x7abc
    \<and> dat_lookup as d 0x124000 = None"
proof -
  note ins = dat_insert_page_correct [OF fresh_ok, of "0x123456" "0x7000"]
  have "\<not> pool_short fresh" by (rule small_not_short) (simp add: fresh_def)
  with ins obtain as d where r: "dat_insert_page no_tables 0x7000 0x123456 fresh = Ok (as, d)" by auto
  from ins r have l: "dat_lookup as d = (\<lambda>v. if drop_bit 12 v = drop_bit 12 (0x123456 :: u64)
          then Some ((0x7000 AND NOT PAGE_MASK) + DAT_BX v) else dat_lookup no_tables fresh v)" by simp
  have "drop_bit 12 (0x123abc :: u64) = drop_bit 12 0x123456" "drop_bit 12 (0x124000 :: u64) \<noteq> drop_bit 12 0x123456"
    "(0x7000 AND NOT PAGE_MASK) + DAT_BX 0x123abc = 0x7abc" by code_simp+
  then have "dat_lookup as d 0x123abc = Some 0x7abc \<and> dat_lookup as d 0x124000 = None"
    by (simp only: l if_True if_False) (simp add: dat_lookup_def no_tables_def)
  with r show ?thesis by blast
qed

text \<open>
  (C16) Setting up the storage of a guest of up to 2 GB either stops because storage has run out,
  it never reports \<^verbatim>\<open>-ENOMEM\<close>, or gives every guest page a frame of its own, mapped at its address, that is
  neither free nor part of the guest's translation tables.
\<close>

theorem alloc_guest_storage_isolated:
  assumes "dat_ok as d" and "segment_table as = None" and "n \<le> 2 ^ 19"
  shows "(\<exists>as' pages d'. alloc_guest_storage n as [] d = Ok (None, as', pages, d')
      \<and> length pages = n \<and> distinct pages
      \<and> unat ` set pages \<inter> (set_mset (free_frames (frame_pool d')) \<union> table_frames as' d') = {}
      \<and> (\<forall>v. unat v < n * 4096 \<longrightarrow> dat_lookup as' d' v = Some (push_bit 12 (pages ! (unat v div 4096)) + DAT_BX v)))
    \<or> alloc_guest_storage n as [] d = Stop OutOfBounds"
proof -
  have "guest_ok n n as [] d" using assms(1) by (auto simp: guest_ok_def)
  from alloc_guest_storage_spec [OF this assms(3)] show ?thesis unfolding guest_ok_def by fastforce
qed

theorem alloc_guest_storage_isolated_witness:
  "\<exists>as page d. alloc_guest_storage 1 no_tables [] fresh = Ok (None, as, [page], d)
    \<and> dat_lookup as d 8 = Some (push_bit 12 page + 8) \<and> unat page \<notin> table_frames as d"
proof -
  let ?b = "small_storage\<lparr>orders_low := [[2], [3], [5]] @ replicate 16 []\<rparr>"
  have alloc: "alloc_pages 0 ZONE_NORMAL small_storage = Ok (Some 1, ?b)" by code_simp
  have "dat_ok no_tables (fresh\<lparr>frame_pool := ?b\<rparr>)"
    using alloc_takes [OF small_storage_ok(1,3) alloc] takes_subset [of _ small_storage ?b]
    by (intro dat_ok_frame [OF fresh_ok]) (auto simp: takes_def fresh_def)
  moreover have "\<not> pool_short (fresh\<lparr>frame_pool := ?b\<rparr>)"
    by (rule chipped_not_short) simp
  ultimately obtain as d where "dat_insert_page no_tables (push_bit 12 1) (push_bit 12 0) (fresh\<lparr>frame_pool := ?b\<rparr>) = Ok (as, d)"
    using insert_cases [of no_tables "fresh\<lparr>frame_pool := ?b\<rparr>" "push_bit 12 0" "push_bit 12 1"] by auto
  moreover have "page_to_addr (page_num_to_ptr 1) = push_bit 12 1" by code_simp
  ultimately have "alloc_guest_storage 1 no_tables [] fresh = Ok (None, as, [1], d)"
    using alloc by (simp add: One_nat_def fresh_def del: One_nat_def [symmetric])
  moreover from alloc_guest_storage_isolated [OF fresh_ok, of 1] this
  have "dat_lookup as d 8 = Some (push_bit 12 1 + DAT_BX 8)" "unat (1 :: u64) \<notin> table_frames as d"
    by (simp_all add: no_tables_def)
  moreover have "DAT_BX 8 = 8" by code_simp
  ultimately show ?thesis by auto
qed

text \<open>
  Without a region table an address above 2 GB is not refused: it is taken for the address
  below 2 GB that has the same indices, whose page is mapped anew.
\<close>

theorem dat_insert_page_above_2GB:
  assumes "dat_ok as d" and "unat virt < 2 ^ 31"
  shows "dat_insert_page as phy (virt + push_bit 31 n) d = dat_insert_page as phy virt d"
proof -
  have "2 ^ 31 dvd (unat n * 2 ^ 31) mod 2 ^ 64" by (intro dvd_mod le_imp_power_dvd) simp_all
  then obtain k where k: "unat (push_bit 31 n) = 2 ^ 31 * k"
    by (auto simp: push_bit_eq_mult unat_word_ariths)
  have "2 ^ 31 * k < 2 ^ 64" using unsigned_less [of "push_bit 31 n", where ?'a = nat] by (simp add: k)
  then have "k < 2 ^ 33" by simp
  then have u: "unat (virt + push_bit 31 n) = unat virt + 2 ^ 31 * k"
    using assms(2) by (simp add: unat_word_ariths k)
  have "sx (virt + push_bit 31 n) = sx virt" "px (virt + push_bit 31 n) = px virt"
  proof -
    have a: "(x + 2 ^ 31 * k) div 2 ^ 20 = x div 2 ^ 20 + 2048 * k" "(x + 2 ^ 31 * k) div 2 ^ 12 = x div 2 ^ 12 + 256 * (2048 * k)" for x :: nat
      using div_mult_self2 [of "2 ^ 20" x "2048 * k"] div_mult_self2 [of "2 ^ 12" x "524288 * k"] by simp_all
    show "sx (virt + push_bit 31 n) = sx virt" "px (virt + push_bit 31 n) = px virt"
      unfolding index_values u a by (rule mod_mult_self2)+
  qed
  then have "DAT_SX (virt + push_bit 31 n) = DAT_SX virt" "DAT_PX (virt + push_bit 31 n) = DAT_PX virt"
    by (simp_all only: sx_def px_def word_unat_eq_iff)
  moreover have "region_table as = None" using assms(1) by (simp add: dat_ok_def)
  ultimately show ?thesis by (simp add: dat_insert_page_def find_segment_table_def)
qed

theorem dat_insert_page_above_2GB_witness:
  "dat_insert_page no_tables 0x7000 0x180123000 fresh = dat_insert_page no_tables 0x7000 0x123000 fresh"
proof -
  have "(0x123000 :: u64) + push_bit 31 3 = 0x180123000" by code_simp
  with dat_insert_page_above_2GB [OF fresh_ok, of "0x123000" "0x7000" 3] show ?thesis by simp
qed

text \<open>
  (C36) A copy from the guest that crosses the end of a page does not go on to the next page: the
  guest address is never advanced, so the rest is read from the start of the area again.
\<close>

theorem memcpy_from_guest_rereads:
  assumes "virt2phy a = Some h" and "n = 4096 - unat (h AND PAGE_MASK)" and "0 < len" and "len \<le> 2 * n"
  shows "memcpy_from_guest virt2phy a len m
    = (None, if len \<le> n then read_bytes m h len else read_bytes m h n @ read_bytes m h (len - n))"
proof -
  have n: "0 < n" using page_offset [of h] assms(2) by simp
  obtain k where k: "len = Suc k" using assms(3) by (cases len) auto
  show ?thesis
  proof (cases "len \<le> n")
    case True
    then show ?thesis using copy_from_guest_round [of virt2phy a h, OF assms(1) assms(3), of len k m "[]"] assms(2)
      by (simp only: memcpy_from_guest_def k) (simp add: copy_from_guest_0)
  next
    case False
    then have "0 < len - n" "0 < k" using k n by simp_all
    then obtain j where j: "k = Suc j" by (cases k) auto
    have "copy_from_guest (Suc k) virt2phy a m len [] = copy_from_guest k virt2phy a m (len - n) (read_bytes m h n)"
      using copy_from_guest_round [of virt2phy a h, OF assms(1,3), of n k m "[]"] False assms(2) by simp
    also have "\<dots> = copy_from_guest j virt2phy a m 0 (read_bytes m h n @ read_bytes m h (len - n))"
      unfolding j using copy_from_guest_round [of virt2phy a h, OF assms(1) \<open>0 < len - n\<close>, of "len - n" j m "read_bytes m h n"] assms(2,4) by simp
    finally show ?thesis using False by (simp add: memcpy_from_guest_def k copy_from_guest_0)
  qed
qed

theorem memcpy_from_guest_rereads_witness:
  "memcpy_from_guest (\<lambda>v. Some (v + 0x5000)) 0xffe 4 (\<lambda>a. ucast a) = (None, [0xfe, 0xff, 0xfe, 0xff])"
proof -
  have "unat (0x5ffe AND PAGE_MASK) = 4094" by code_simp
  then have n: "2 = 4096 - unat (0x5ffe AND PAGE_MASK)" by simp
  have "read_bytes (\<lambda>a. ucast a) 0x5ffe 2 = [0xfe, 0xff :: u8]" by code_simp
  then show ?thesis using memcpy_from_guest_rereads [of "\<lambda>v. Some (v + 0x5000)" "0xffe" "0x5ffe" 2 4 "\<lambda>a. ucast a", OF _ n]
    by simp
qed

end
