(* ===== verification/Sched.thy ===== *)
theory Sched
  imports Slab Cstring Dat
begin

text \<open>
  Tasks and the scheduler: \<^verbatim>\<open>src/cp/nucleus/sched.c\<close>, \<^verbatim>\<open>src/cp/include/sched.h\<close>,
  \<^verbatim>\<open>src/cp/nucleus/svc.c\<close> and the timer of \<^verbatim>\<open>src/cp/nucleus/ext.c\<close>.  A task is
  named by the address of its \<^verbatim>\<open>struct task\<close>; the two lists are the sequences of their
  tasks (\<open>Linked_List\<close> relates them to the pointers).  Linking a task into the run queue that
  is linked already would corrupt the list and is a stop.  The registers of the processor are
  part of the state: a context switch stores them in one task and loads them from another.
\<close>

definition TASK_RUNNING :: nat where "TASK_RUNNING = 0"
definition TASK_SLEEPING :: nat where "TASK_SLEEPING = 1"
definition TASK_LOCKED :: nat where "TASK_LOCKED = 2"
definition TASK_ZOMBIE :: nat where "TASK_ZOMBIE = 3"

definition STACK_FRAME_SIZE :: nat where "STACK_FRAME_SIZE = 160"
definition SCHED_SLICE_MS :: nat where "SCHED_SLICE_MS = 30"
definition HZ :: nat where "HZ = 100"
definition SCHED_TICKS_PER_SLICE :: nat where "SCHED_TICKS_PER_SLICE = HZ div SCHED_SLICE_MS"
definition TASK_NAME_LEN :: nat where "TASK_NAME_LEN = 16"

text \<open>The first doubleword of a PSW with its mask bits, and the instruction address.\<close>

record psw =
  psw_word :: u64
  psw_ptr :: u64

record regs =
  psw_of :: psw
  gpr :: "u64 list"
  cr1 :: u64

record task =
  regs_of :: regs
  slice_end_time :: u64
  tstate :: nat
  stack :: u64
  tname :: "u8 list"

text \<open>\<^verbatim>\<open>sizeof(struct task)\<close>: registers 152, three list nodes 48, time 8, state 8, stack 8, name and lock count 24, lock stack 320.\<close>

definition sizeof_task :: int where "sizeof_task = 568"

record sched =
  task_at :: "u64 \<Rightarrow> task option"
  idle_task :: u64
  runnable :: "u64 list"
  processes :: "u64 list"
  current :: u64
  ticks :: u64
  cpu :: regs
  storage :: mem

definition get_task :: "u64 \<Rightarrow> sched \<Rightarrow> task result" where
  "get_task t st = (case task_at st t of None \<Rightarrow> Stop BadPointer | Some k \<Rightarrow> Ok k)"

definition put_task :: "u64 \<Rightarrow> task \<Rightarrow> sched \<Rightarrow> sched" where
  "put_task t k st = st\<lparr>task_at := (task_at st)(t := Some k)\<rparr>"

definition enqueue :: "u64 \<Rightarrow> sched \<Rightarrow> sched result" where
  "enqueue t st = (if t \<in> set (runnable st) then Stop BadPointer else Ok (st\<lparr>runnable := runnable st @ [t]\<rparr>))"

section \<open>Creating tasks\<close>

text \<open>\<open>start\<close> is the address of \<^verbatim>\<open>start_task\<close>.\<close>

definition init_task :: "u64 \<Rightarrow> u64 \<Rightarrow> u64 \<Rightarrow> u64 \<Rightarrow> task" where
  "init_task start f data stk =
     (let w = set_field 57 1 1 0; w = set_field 56 1 1 w; w = set_field 50 1 1 w;
          w = set_field 32 1 1 w; w = set_field 31 1 1 w;
          g = (replicate 16 0)[2 := f, 3 := data, 15 := stk + of_nat PAGE_SIZE - of_nat STACK_FRAME_SIZE]
      in \<lparr>regs_of = \<lparr>psw_of = \<lparr>psw_word = w, psw_ptr = start\<rparr>, gpr = g, cr1 = 0\<rparr>,
          slice_end_time = 0, tstate = TASK_SLEEPING, stack = stk, tname = replicate (TASK_NAME_LEN + 1) 0\<rparr>)"

text \<open>The idle task takes over the stack of the initial thread, in which \<open>sp\<close> is an address.\<close>

definition init_idle_task :: "u64 \<Rightarrow> u64 \<Rightarrow> sched \<Rightarrow> sched" where
  "init_idle_task start sp st =
     (let stk = sp AND NOT (of_nat PAGE_SIZE - 1)
      in (put_task (idle_task st) (init_task start 0 0 stk) st)\<lparr>current := idle_task st\<rparr>)"

definition init_sched :: "u64 \<Rightarrow> u64 \<Rightarrow> sched \<Rightarrow> sched" where
  "init_sched start sp st = init_idle_task start sp (st\<lparr>runnable := [], processes := []\<rparr>)"

definition create_task :: "u64 \<Rightarrow> u8 list \<Rightarrow> u64 \<Rightarrow> u64 \<Rightarrow> sched \<Rightarrow> ((errno + u64) \<times> sched) result" where
  "create_task start name f data st =
     bindR (alloc_pages 0 ZONE_NORMAL (mm (storage st))) (\<lambda>(page, b).
     bindR (malloc sizeof_task ZONE_NORMAL ((storage st)\<lparr>mm := b\<rparr>)) (\<lambda>(task, m).
       case (page, task) of
         (Some p, Some t) \<Rightarrow>
           let k = init_task start f data (page_to_addr (page_num_to_ptr p))
           in bindR (strncpy (tname k) name TASK_NAME_LEN) (\<lambda>nm.
              let st = put_task t (k\<lparr>tname := nm\<rparr>) (st\<lparr>storage := m\<rparr>);
                  st = st\<lparr>processes := processes st @ [t]\<rparr>
              in bindR (enqueue t st) (\<lambda>st. Ok (Inr t, st)))
       | _ \<Rightarrow>
           bindR (Slab.free task m) (\<lambda>m.
           let ptr = (case page of None \<Rightarrow> page_to_addr 0 | Some p \<Rightarrow> page_to_addr (page_num_to_ptr p))
           in bindR (free_pages ptr 0 (mm m)) (\<lambda>b.
              Ok (Inl ENOMEM, st\<lparr>storage := m\<lparr>mm := b\<rparr>\<rparr>)))))"

section \<open>Switching\<close>

text \<open>\<^verbatim>\<open>load_pasce\<close> leaves control register 1 alone when there is nothing to load.\<close>

definition load_regs :: "regs \<Rightarrow> regs \<Rightarrow> regs" where
  "load_regs r c = r\<lparr>cr1 := (if cr1 r = 0 then cr1 c else cr1 r)\<rparr>"

text \<open>The \<^verbatim>\<open>int\<close> parameter is sign extended when it becomes the end of the slice.\<close>

definition sched :: "u32 \<Rightarrow> sched \<Rightarrow> sched result" where
  "sched force_idle st =
     bindR (if force_idle \<noteq> 0 \<or> runnable st = [] then Ok (idle_task st, st)
            else let nxt = hd (runnable st)
                 in bindR (get_task nxt st) (\<lambda>k.
                      Ok (nxt, put_task nxt (k\<lparr>tstate := TASK_RUNNING\<rparr>) (st\<lparr>runnable := tl (runnable st)\<rparr>))))
       (\<lambda>(nxt, st).
          bindR (get_task nxt st) (\<lambda>k.
            let k = k\<lparr>slice_end_time :=
                  (if force_idle \<noteq> 0 then scast force_idle else ticks st + of_nat SCHED_TICKS_PER_SLICE)\<rparr>
            in Ok ((put_task nxt k st)\<lparr>current := nxt, cpu := load_regs (regs_of k) (cpu st)\<rparr>)))"

text \<open>What becomes of the task that was running, by its new state.\<close>

definition leave_task :: "u64 \<Rightarrow> task \<Rightarrow> nat \<Rightarrow> sched \<Rightarrow> sched result" where
  "leave_task prev k newstate st =
     (if newstate = TASK_ZOMBIE then
        (if prev \<in> set (processes st)
         then bindR (free_pages (stack k) 0 (mm (storage st))) (\<lambda>b.
              bindR (Slab.free (Some prev) ((storage st)\<lparr>mm := b\<rparr>)) (\<lambda>m.
                Ok (st\<lparr>processes := remove1 prev (processes st), storage := m,
                      task_at := (task_at st)(prev := None)\<rparr>)))
         else Stop BadPointer)
      else if newstate = TASK_LOCKED then Ok st
      else enqueue prev st)"

text \<open>\<open>gprs\<close> and \<open>old_psw\<close> are what the interrupt stub has saved.\<close>

definition schedule :: "psw \<Rightarrow> u64 list \<Rightarrow> nat \<Rightarrow> sched \<Rightarrow> sched result" where
  "schedule old_psw gprs newstate st =
     (let prev = current st in
      bindR (get_task prev st) (\<lambda>k.
        let k = k\<lparr>regs_of := (regs_of k)\<lparr>gpr := gprs, psw_of := old_psw\<rparr>\<rparr>
        in if prev = idle_task st then sched 0 (put_task prev k st)
           else
             let k = k\<lparr>regs_of := (regs_of k)\<lparr>cr1 := cr1 (cpu st)\<rparr>, tstate := newstate\<rparr>;
                 force_idle = (if ticks st + of_nat SCHED_TICKS_PER_SLICE \<le> slice_end_time k
                               then ucast (slice_end_time k) else 0)
             in bindR (leave_task prev k newstate (put_task prev k st)) (sched force_idle)))"

text \<open>The supervisor calls, and the handler of external interruptions.\<close>

definition svc_table :: "nat list" where
  "svc_table = [TASK_SLEEPING, TASK_LOCKED, TASK_ZOMBIE]"

definition svc_handler :: "nat \<Rightarrow> psw \<Rightarrow> u64 list \<Rightarrow> sched \<Rightarrow> sched result" where
  "svc_handler n old_psw gprs st = schedule old_psw gprs (svc_table ! n) st"

definition ext_int_handler :: "u16 \<Rightarrow> psw \<Rightarrow> u64 list \<Rightarrow> sched \<Rightarrow> sched result" where
  "ext_int_handler code old_psw gprs st =
     (if code = 0x1005
      then let st = st\<lparr>ticks := ticks st + 1\<rparr>
           in if ticks st mod of_nat SCHED_TICKS_PER_SLICE = 0 then schedule old_psw gprs TASK_SLEEPING st
              else Ok st
      else Ok st)"

definition make_runnable :: "u64 \<Rightarrow> sched \<Rightarrow> sched result" where
  "make_runnable t st =
     bindR (get_task t st) (\<lambda>k. enqueue t (put_task t (k\<lparr>tstate := TASK_SLEEPING\<rparr>) st))"

definition list_tasks :: "(task \<Rightarrow> 'a) \<Rightarrow> sched \<Rightarrow> 'a option list" where
  "list_tasks f st = map (\<lambda>t. map_option f (task_at st t)) (processes st)"

section \<open>Pages in use\<close>

text \<open>A frame that belongs to somebody else than the allocators.\<close>

definition owned :: "nat \<Rightarrow> mem \<Rightarrow> bool" where
  "owned f m \<longleftrightarrow> f \<notin># free_frames (mm m) \<and> (\<forall>a. slabs m a \<noteq> None \<longrightarrow> unat a div 4096 \<noteq> f)"

lemma owned_mono:
  assumes "owned f m" and "set_mset (free_frames (mm m')) \<subseteq> set_mset (free_frames (mm m))"
    and "\<And>a. slabs m' a \<noteq> None \<Longrightarrow> slabs m a \<noteq> None \<or> unat a div 4096 \<in># free_frames (mm m)"
  shows "owned f m'"
  unfolding owned_def
proof (intro conjI allI impI)
  show "f \<notin># free_frames (mm m')" using assms(1,2) by (auto simp: owned_def)
  fix a assume "slabs m' a \<noteq> None"
  from assms(3) [OF this] assms(1) show "unat a div 4096 \<noteq> f" unfolding owned_def by metis
qed

lemma alloc_in_page_owned:
  assumes "alloc_in_page a s m = (p, m')" and "slabs m a \<noteq> None" and "owned f m"
  shows "owned f m'"
  by (rule owned_mono [OF assms(3)])
    (use assms(1,2) in \<open>auto simp: alloc_in_page_def Let_def split: option.splits if_splits\<close>)

lemma newpage_owned:
  assumes mem: "mem_ok m" and h: "slabs m h \<noteq> None" and new: "newpage h s type m = Ok (Some a, m')" and o: "owned f m"
  shows "owned f m' \<and> slabs m' a \<noteq> None"
proof -
  from new obtain p b where alloc: "alloc_pages 0 type (mm m) = Ok (Some p, b)"
    and a: "a = page_to_addr (page_num_to_ptr p)"
    by (auto simp: newpage_def bindR_eq_Ok Let_def split: option.splits)
  have wf: "buddy_wf (mm m)" "buddy.disjoint_free (mm m)"
    using mem by (auto simp: mem_ok_def no_overlap_disjoint)
  note t = buddy.alloc_takes [OF wf(1) alloc] and d = buddy.alloc_disjoint [OF wf alloc]
  have pa: "unat a div 4096 = unat p" using page_addr_facts [of p] t by (auto simp: a)
  have pf: "unat p \<in># free_frames (mm m)" using d by (auto simp: frames_zero)
  have sub: "set_mset (free_frames b) \<subseteq> set_mset (free_frames (mm m))" using t by auto
  from new alloc a have n: "mm m' = b" "\<And>c. slabs m' c \<noteq> None \<Longrightarrow> slabs m c \<noteq> None \<or> c = a" "slabs m' a \<noteq> None"
    using h by (auto simp: newpage_def Let_def split: if_splits)
  have "owned f m'"
  proof (rule owned_mono [OF o])
    fix c assume "slabs m' c \<noteq> None"
    from n(2) [OF this] pa pf show "slabs m c \<noteq> None \<or> unat c div 4096 \<in># free_frames (mm m)" by auto
  qed (use sub n(1) in simp)
  with n(3) show ?thesis by blast
qed

lemma malloc_owned:
  assumes heap: "heap_ok m" and alloc: "malloc sz type m = Ok (Some p, m')" and o: "owned f m"
  shows "owned f m'"
proof -
  have mem: "mem_ok m" using heap by (simp add: heap_ok_def)
  from alloc obtain k where k: "alloc_slab_obj (generic m ! k) type m = Ok (Some p, m')"
    by (auto simp: malloc_def split: option.splits)
  then obtain h s where h: "slabs m h = Some s" and r:
    "(if has_room h type s then Ok (alloc_in_page h s m)
      else bindR (find_room (slab_pages s) type m) (\<lambda>found. case found of
              Some (a, sa) \<Rightarrow> Ok (alloc_in_page a sa m)
            | None \<Rightarrow> bindR (newpage h s type m) (\<lambda>(page, st). case page of
                  None \<Rightarrow> Ok (None, st)
                | Some a \<Rightarrow> bindR (get_slab a st) (\<lambda>sa. Ok (alloc_in_page a sa st))))) = Ok (Some p, m')"
    by (auto simp: alloc_slab_obj_def get_slab_def bindR_eq_Ok split: option.splits)
  show ?thesis
  proof (cases "has_room h type s")
    case True
    with r h alloc_in_page_owned [of h s m "Some p" m' f] o show ?thesis by simp
  next
    case False
    with r obtain found where fr: "find_room (slab_pages s) type m = Ok found" by (auto simp: bindR_eq_Ok)
    show ?thesis
    proof (cases found)
      case (Some x)
      obtain a sa where x: "x = (a, sa)" by (cases x)
      with fr Some find_room_Some have "slabs m a = Some sa" by blast
      moreover have "alloc_in_page a sa m = (Some p, m')" using r False fr Some x by simp
      ultimately show ?thesis using alloc_in_page_owned [of a sa m "Some p" m' f] o by simp
    next
      case None
      with r False fr obtain a m1 where n: "newpage h s type m = Ok (Some a, m1)"
        and rest: "bindR (get_slab a m1) (\<lambda>sa. Ok (alloc_in_page a sa m1)) = Ok (Some p, m')"
        by (auto simp: bindR_eq_Ok split: option.splits)
      have o1: "owned f m1" "slabs m1 a \<noteq> None" using newpage_owned [OF mem _ n o] h by auto
      from rest o1(2) obtain sa where "slabs m1 a = Some sa" "alloc_in_page a sa m1 = (Some p, m')"
        by (auto simp: get_slab_def split: option.splits)
      with alloc_in_page_owned [of a sa m1 "Some p" m' f] o1 show ?thesis by simp
    qed
  qed
qed

lemma free_owned:
  assumes "Slab.free (Some p) m = Ok m'" and "owned f m"
  shows "owned f m'" "mm m' = mm m"
proof -
  have m': "mm m' = mm m" "\<And>a. slabs m' a \<noteq> None \<Longrightarrow> slabs m a \<noteq> None"
    using assms(1) by (auto simp: Slab.free_def free_slab_obj_def get_slab_def Let_def split: option.splits if_splits)
  then show "owned f m'" by (intro owned_mono [OF assms(2)]) simp_all
  show "mm m' = mm m" by (rule m'(1))
qed

lemma drop_push_drop_12: "drop_bit 12 (push_bit 12 (drop_bit 12 (p :: u64))) = drop_bit 12 p"
  by (rule bit_word_eqI) (auto simp: bit_simps dest: bit_imp_le_length)

lemma live_not_owned:
  assumes "mem_ok m" and "p \<in> live m" and "owned (unat q div 4096) m"
  shows "p \<noteq> q"
proof
  assume eq: "p = q"
  from assms(2) obtain a s i where s: "slabs m a = Some s" "i \<in> used_objs s" and p: "p = obj_addr a s i"
    by (auto simp: live_def page_live_def split: option.splits)
  have ok: "slab_ok a s" using assms(1) s by (simp add: mem_ok_def)
  have "i < unat (nobj s)" using s(2) by (simp add: used_objs_def)
  from slab_base_obj(1) [OF ok this] have "slab_base p = a" by (simp only: p)
  moreover have "slab_base p = push_bit 12 (drop_bit 12 p)"
    by (simp only: slab_base_def push_drop_12 PAGE_MASK_def)
  ultimately have "drop_bit 12 a = drop_bit 12 p"
    by (metis drop_push_drop_12)
  then have "unat a div 4096 = unat p div 4096" by (simp only: unat_drop_bit_12 [symmetric])
  with assms(3) s eq show False by (auto simp: owned_def)
qed

text \<open>Giving back a page that is owned.\<close>

lemma release_page:
  assumes heap: "heap_ok m" and p: "buddy_block p 0" and o: "owned (unat p) m"
  shows "\<exists>b. free_pages (page_to_addr (page_num_to_ptr p)) 0 (mm m) = Ok b \<and> heap_ok (m\<lparr>mm := b\<rparr>)
    \<and> free_frames b = free_frames (mm m) + {#unat p#} \<and> live (m\<lparr>mm := b\<rparr>) = live m
    \<and> (\<forall>f. owned f m \<and> f \<noteq> unat p \<longrightarrow> owned f (m\<lparr>mm := b\<rparr>))"
proof -
  have mem: "mem_ok m" using heap by (simp add: heap_ok_def)
  then have wf: "buddy_wf (mm m)" by (simp add: mem_ok_def)
  from buddy.release_gives [OF wf p] obtain b where b: "page_release p 0 (mm m) = Ok b" "buddy_wf b"
    "free_frames b = free_frames (mm m) + mset_set (frames p 0)" by blast
  have f: "free_frames b = free_frames (mm m) + {#unat p#}" using b(3) by (simp add: frames_zero)
  have "mem_ok (m\<lparr>mm := b\<rparr>)" using mem b(2) f o
    by (auto simp: mem_ok_def no_overlap_def owned_def not_in_iff)
  then have "heap_ok (m\<lparr>mm := b\<rparr>)"
    by (rule heap_ok_mono [OF heap]) (auto simp: same_sizes_def cache_ok_def)
  moreover have "live (m\<lparr>mm := b\<rparr>) = live m" by (simp add: live_def page_live_def)
  ultimately show ?thesis using b(1) f by (intro exI [of _ b]) (auto simp: page_release_def owned_def)
qed

lemma malloc_normal_not_None:
  assumes heap: "heap_ok m" and sz: "sz \<noteq> 0" "sz \<le> 1024"
  shows "malloc sz ZONE_NORMAL m \<noteq> Ok (None, m')"
proof
  assume alloc: "malloc sz ZONE_NORMAL m = Ok (None, m')"
  have mem: "mem_ok m" using heap by (simp add: heap_ok_def)
  have "size_class sz \<noteq> None" using sz by (simp add: size_class_def)
  then obtain k where k: "size_class sz = Some k" by blast
  from heap size_class_fits(1) [OF k] obtain h s where h: "generic m ! k = Some h" "cache_ok m h" "slabs m h = Some s"
    by (auto simp: heap_ok_def)
  then have magic: "magic s = SLAB_MAGIC" by (auto simp: cache_ok_def)
  have room: "fst (alloc_in_page a sa m1) \<noteq> None" if "mem_ok m1" "slabs m1 a = Some sa" "used sa < nobj sa" for a sa m1
    by (rule alloc_in_page_gives [OF that]) simp
  have a: "alloc_slab_obj (Some h) ZONE_NORMAL m = Ok (None, m')" using alloc by (simp add: malloc_def k h(1))
  show False
  proof (cases "has_room h ZONE_NORMAL s")
    case True
    with a h(3) magic room [OF mem h(3)] show False
      by (simp add: alloc_slab_obj_def get_slab_def has_room_def)
  next
    case False
    with a h(3) magic obtain r where r: "find_room (slab_pages s) ZONE_NORMAL m = Ok r"
      by (auto simp: alloc_slab_obj_def get_slab_def bindR_eq_Ok)
    show False
    proof (cases r)
      case (Some x)
      obtain c sc where x: "x = (c, sc)" by (cases x)
      with r Some find_room_Some have "slabs m c = Some sc" "has_room c ZONE_NORMAL sc" by blast+
      with room [OF mem, of c sc] have "fst (alloc_in_page c sc m) \<noteq> None" by (simp add: has_room_def)
      moreover have "alloc_in_page c sc m = (None, m')"
        using a h(3) magic False r Some x by (simp add: alloc_slab_obj_def get_slab_def)
      ultimately show False by simp
    next
      case None
      with a h(3) magic False r obtain q m1 where n: "newpage h s ZONE_NORMAL m = Ok (q, m1)"
        and rest: "(case q of None \<Rightarrow> Ok (None, m1)
            | Some c \<Rightarrow> bindR (get_slab c m1) (\<lambda>sc. Ok (alloc_in_page c sc m1))) = Ok (None, m')"
        by (auto simp: alloc_slab_obj_def get_slab_def bindR_eq_Ok)
      have "q \<noteq> None"
      proof
        assume "q = None"
        with n obtain b where "alloc_pages 0 ZONE_NORMAL (mm m) = Ok (None, b)"
          by (auto simp: newpage_def bindR_eq_Ok Let_def split: option.splits)
        with alloc_pages_normal_not_None mem show False by (auto simp: mem_ok_def)
      qed
      then obtain c where c: "q = Some c" by blast
      obtain sc where "slabs m1 c = Some sc" "used sc < nobj sc" "mem_ok m1"
        by (rule newpage_gives [OF mem h(3) n [unfolded c]])
      with room [of m1 c sc] rest c show False by (simp add: get_slab_def)
    qed
  qed
qed

section \<open>The invariant\<close>

text \<open>
  Every task but those of \<open>R\<close>, which are running, is either on the run queue, and marked as
  sleeping, or locked; none is on a list twice.
\<close>

definition accounted :: "u64 set \<Rightarrow> sched \<Rightarrow> bool" where
  "accounted R st \<longleftrightarrow> idle_task st \<notin> set (processes st) \<and> task_at st (idle_task st) \<noteq> None
     \<and> distinct (processes st) \<and> distinct (runnable st) \<and> R \<subseteq> set (processes st)
     \<and> set (runnable st) \<subseteq> set (processes st) - R
     \<and> (\<forall>t \<in> set (processes st). \<exists>k. task_at st t = Some k \<and>
          tstate k = (if t \<in> R then TASK_RUNNING else if t \<in> set (runnable st) then TASK_SLEEPING else TASK_LOCKED))"

definition sched_ok :: "sched \<Rightarrow> bool" where
  "sched_ok st \<longleftrightarrow> accounted ({current st} - {idle_task st}) st"

text \<open>
  The storage of the tasks: each \<^verbatim>\<open>struct task\<close> is an object in use, each stack is a page
  of its own, and neither the heap nor another task uses it.
\<close>

definition stacks_ok :: "(u64 \<Rightarrow> u64) \<Rightarrow> sched \<Rightarrow> bool" where
  "stacks_ok page st \<longleftrightarrow> inj_on page (set (processes st)) \<and> (\<forall>t \<in> set (processes st).
     buddy_block (page t) 0 \<and> owned (unat (page t)) (storage st) \<and> unat (page t) \<noteq> unat (idle_task st) div 4096
     \<and> map_option stack (task_at st t) = Some (page_to_addr (page_num_to_ptr (page t))))"

definition memory_ok :: "sched \<Rightarrow> bool" where
  "memory_ok st \<longleftrightarrow> heap_ok (storage st) \<and> set (processes st) \<subseteq> live (storage st)
     \<and> owned (unat (idle_task st) div 4096) (storage st) \<and> (\<exists>page. stacks_ok page st)"

lemma memory_ok_cong:
  assumes "memory_ok st" and "processes st' = processes st" "idle_task st' = idle_task st" "storage st' = storage st"
    and "\<forall>t. map_option stack (task_at st' t) = map_option stack (task_at st t)"
  shows "memory_ok st'"
  using assms unfolding memory_ok_def stacks_ok_def by simp

lemma put_task_simps [simp]:
  "task_at (put_task t k st) = (task_at st)(t := Some k)" "idle_task (put_task t k st) = idle_task st"
  "runnable (put_task t k st) = runnable st" "processes (put_task t k st) = processes st"
  "current (put_task t k st) = current st" "ticks (put_task t k st) = ticks st"
  "cpu (put_task t k st) = cpu st" "storage (put_task t k st) = storage st"
  by (simp_all add: put_task_def)

lemmas task_states = TASK_RUNNING_def TASK_SLEEPING_def TASK_LOCKED_def TASK_ZOMBIE_def

text \<open>Picking the next task.\<close>

lemma sched_idle:
  assumes acc: "accounted {} st" and idle: "fi \<noteq> 0 \<or> runnable st = []"
  shows "\<exists>st'. sched fi st = Ok st' \<and> sched_ok st' \<and> current st' = idle_task st \<and> runnable st' = runnable st
    \<and> (memory_ok st \<longrightarrow> memory_ok st') \<and> processes st' = processes st \<and> ticks st' = ticks st \<and> idle_task st' = idle_task st"
proof -
  obtain k where k: "task_at st (idle_task st) = Some k" using acc by (auto simp: accounted_def)
  obtain e where "sched fi st = Ok ((put_task (idle_task st) (k\<lparr>slice_end_time := e\<rparr>) st)\<lparr>current := idle_task st,
      cpu := load_regs (regs_of k) (cpu st)\<rparr>)" (is "_ = Ok ?st")
    using idle k by (auto simp: sched_def get_task_def Let_def)
  moreover have "sched_ok ?st" using acc by (auto simp: sched_ok_def accounted_def)
  moreover have "memory_ok st \<Longrightarrow> memory_ok ?st" by (rule memory_ok_cong [of st]) (simp_all add: k)
  ultimately show ?thesis by (intro exI [of _ ?st]) simp
qed

lemma sched_next:
  assumes acc: "accounted {} st" and nxt: "runnable st = t # q"
  shows "\<exists>st'. sched 0 st = Ok st' \<and> sched_ok st' \<and> current st' = t \<and> runnable st' = q
    \<and> (memory_ok st \<longrightarrow> memory_ok st') \<and> processes st' = processes st \<and> ticks st' = ticks st \<and> idle_task st' = idle_task st"
proof -
  have t: "t \<in> set (processes st)" "t \<noteq> idle_task st" "t \<notin> set q" using acc nxt by (auto simp: accounted_def)
  then obtain k where k: "task_at st t = Some k" using acc by (auto simp: accounted_def)
  obtain e where "sched 0 st = Ok ((put_task t (k\<lparr>tstate := TASK_RUNNING, slice_end_time := e\<rparr>) (st\<lparr>runnable := q\<rparr>))
      \<lparr>current := t, cpu := load_regs (regs_of k) (cpu st)\<rparr>)" (is "_ = Ok ?st")
    using nxt k by (auto simp: sched_def get_task_def put_task_def Let_def)
  moreover have "sched_ok ?st" using acc nxt t by (auto simp: sched_ok_def accounted_def)
  moreover have "memory_ok st \<Longrightarrow> memory_ok ?st" by (rule memory_ok_cong [of st]) (simp_all add: k)
  ultimately show ?thesis by (intro exI [of _ ?st]) simp
qed

text \<open>What becomes of the task that was running.\<close>

lemma leave_sleeping:
  assumes acc: "accounted {c} st" and k: "task_at st c = Some k0" and st1: "st1 = put_task c k st"
    and same: "stack k = stack k0" "tstate k = TASK_SLEEPING"
  shows "\<exists>st'. leave_task c k TASK_SLEEPING st1 = Ok st' \<and> accounted {} st' \<and> (memory_ok st \<longrightarrow> memory_ok st')
    \<and> runnable st' = runnable st @ [c] \<and> processes st' = processes st \<and> ticks st' = ticks st \<and> idle_task st' = idle_task st"
proof -
  let ?st = "st1\<lparr>runnable := runnable st @ [c]\<rparr>"
  have "leave_task c k TASK_SLEEPING st1 = Ok ?st"
    using acc by (auto simp: leave_task_def enqueue_def accounted_def st1 task_states)
  moreover have "accounted {} ?st" using acc same(2) by (auto simp: accounted_def st1)
  moreover have "memory_ok st \<Longrightarrow> memory_ok ?st" by (rule memory_ok_cong [of st]) (simp_all add: st1 k same)
  ultimately show ?thesis by (intro exI [of _ ?st]) (simp add: st1)
qed

lemma leave_locked:
  assumes acc: "accounted {c} st" and k: "task_at st c = Some k0" and st1: "st1 = put_task c k st"
    and same: "stack k = stack k0" "tstate k = TASK_LOCKED"
  shows "\<exists>st'. leave_task c k TASK_LOCKED st1 = Ok st' \<and> accounted {} st' \<and> (memory_ok st \<longrightarrow> memory_ok st')
    \<and> runnable st' = runnable st \<and> processes st' = processes st \<and> ticks st' = ticks st \<and> idle_task st' = idle_task st"
proof -
  have "leave_task c k TASK_LOCKED st1 = Ok st1" by (simp add: leave_task_def task_states)
  moreover have "accounted {} st1" using acc same(2) by (auto simp: accounted_def st1)
  moreover have "memory_ok st \<Longrightarrow> memory_ok st1" by (rule memory_ok_cong [of st]) (simp_all add: st1 k same)
  ultimately show ?thesis by (intro exI [of _ st1]) (simp add: st1)
qed

lemma leave_zombie:
  assumes acc: "accounted {c} st" and mem: "memory_ok st" and k: "task_at st c = Some k0" and st1: "st1 = put_task c k st"
    and same: "stack k = stack k0"
  shows "\<exists>st'. leave_task c k TASK_ZOMBIE st1 = Ok st' \<and> accounted {} st' \<and> memory_ok st'
    \<and> runnable st' = runnable st \<and> processes st' = remove1 c (processes st) \<and> ticks st' = ticks st \<and> idle_task st' = idle_task st"
proof -
  have c: "c \<in> set (processes st)" "c \<noteq> idle_task st" "c \<notin> set (runnable st)" "distinct (processes st)"
    using acc by (auto simp: accounted_def)
  from mem obtain page where heap: "heap_ok (storage st)" and live: "set (processes st) \<subseteq> live (storage st)"
    and io: "owned (unat (idle_task st) div 4096) (storage st)" and S: "stacks_ok page st" by (auto simp: memory_ok_def)
  have pc: "buddy_block (page c) 0" "owned (unat (page c)) (storage st)" "stack k = page_to_addr (page_num_to_ptr (page c))"
    using S c k same by (auto simp: stacks_ok_def)
  from release_page [OF heap pc(1,2)] obtain b where b: "free_pages (stack k) 0 (mm (storage st)) = Ok b"
    "heap_ok ((storage st)\<lparr>mm := b\<rparr>)" "live ((storage st)\<lparr>mm := b\<rparr>) = live (storage st)"
    "\<And>f. owned f (storage st) \<Longrightarrow> f \<noteq> unat (page c) \<Longrightarrow> owned f ((storage st)\<lparr>mm := b\<rparr>)" by (auto simp: pc(3))
  have "c \<in> live ((storage st)\<lparr>mm := b\<rparr>)" using live c b(3) by auto
  from heap.dealloc_takes [OF b(2) this] obtain m where m: "Slab.free (Some c) ((storage st)\<lparr>mm := b\<rparr>) = Ok m"
    "heap_ok m" "live m = live (storage st) - {c}" using b(3) by auto
  let ?st = "st1\<lparr>processes := remove1 c (processes st), storage := m, task_at := (task_at st1)(c := None)\<rparr>"
  have keep: "owned f m" if "owned f (storage st)" "f \<noteq> unat (page c)" for f
    using free_owned(1) [OF m(1) b(4)] that by blast
  have "leave_task c k TASK_ZOMBIE st1 = Ok ?st"
    using c b(1) m(1) by (simp add: leave_task_def st1)
  moreover have "accounted {} ?st" using acc c by (auto simp: accounted_def st1)
  moreover have "memory_ok ?st"
    unfolding memory_ok_def
  proof (intro conjI exI [of _ page])
    show "heap_ok (storage ?st)" "set (processes ?st) \<subseteq> live (storage ?st)" using m live c by auto
    show "owned (unat (idle_task ?st) div 4096) (storage ?st)" using keep [OF io] S c(1) by (auto simp: stacks_ok_def st1)
    have "unat (page t) \<noteq> unat (page c)" if "t \<in> set (processes st)" "t \<noteq> c" for t
    proof -
      have "page t \<noteq> page c" using S c(1) that by (auto simp: stacks_ok_def inj_on_def)
      then show ?thesis by (simp only: word_unat_eq_iff not_False_eq_True)
    qed
    then show "stacks_ok page ?st" using S c keep by (auto simp: stacks_ok_def st1 inj_on_def)
  qed
  ultimately show ?thesis by (intro exI [of _ ?st]) (simp add: st1)
qed

text \<open>A context switch: what is run next, and what is kept.\<close>

definition switched :: "bool \<Rightarrow> u64 list \<Rightarrow> sched \<Rightarrow> sched \<Rightarrow> bool" where
  "switched forced q st st' \<longleftrightarrow> sched_ok st' \<and> memory_ok st' \<and> ticks st' = ticks st \<and> idle_task st' = idle_task st
     \<and> (if forced \<or> q = [] then current st' = idle_task st \<and> runnable st' = q else current st' = hd q \<and> runnable st' = tl q)"

lemma sched_switches:
  assumes "accounted {} st1" and "memory_ok st1" and "ticks st1 = ticks st" "idle_task st1 = idle_task st"
  shows "\<exists>st'. sched fi st1 = Ok st' \<and> switched (fi \<noteq> 0) (runnable st1) st st' \<and> processes st' = processes st1"
proof (cases "fi \<noteq> 0 \<or> runnable st1 = []")
  case True
  from sched_idle [OF assms(1) this] assms(2-4) True show ?thesis by (auto simp: switched_def)
next
  case False
  then obtain t q where "runnable st1 = t # q" by (cases "runnable st1") auto
  from sched_next [OF assms(1) this] assms(2-4) this False show ?thesis by (auto simp: switched_def)
qed

definition forced_idle :: "sched \<Rightarrow> bool" where
  "forced_idle st \<longleftrightarrow> current st \<noteq> idle_task st \<and> (\<exists>k. task_at st (current st) = Some k
     \<and> ticks st + of_nat SCHED_TICKS_PER_SLICE \<le> slice_end_time k \<and> (ucast (slice_end_time k) :: u32) \<noteq> 0)"

definition queue_after :: "nat \<Rightarrow> sched \<Rightarrow> u64 list" where
  "queue_after ns st = (if current st \<noteq> idle_task st \<and> ns = TASK_SLEEPING then runnable st @ [current st] else runnable st)"

lemma schedule_switches:
  assumes ok: "sched_ok st" and mem: "memory_ok st" and ns: "ns \<in> {TASK_SLEEPING, TASK_LOCKED, TASK_ZOMBIE}"
  shows "\<exists>st'. schedule p g ns st = Ok st' \<and> switched (forced_idle st) (queue_after ns st) st st'
    \<and> processes st' = (if ns = TASK_ZOMBIE \<and> current st \<noteq> idle_task st then remove1 (current st) (processes st) else processes st)"
proof (cases "current st = idle_task st")
  case True
  then have acc: "accounted {} st" using ok by (simp add: sched_ok_def)
  then obtain k where k: "task_at st (current st) = Some k" using True by (auto simp: accounted_def)
  let ?k = "k\<lparr>regs_of := (regs_of k)\<lparr>gpr := g, psw_of := p\<rparr>\<rparr>"
  let ?st = "put_task (current st) ?k st"
  have "schedule p g ns st = sched 0 ?st" using True k by (simp add: schedule_def get_task_def Let_def)
  moreover have "accounted {} ?st" using acc True by (auto simp: accounted_def)
  moreover have "memory_ok ?st" by (rule memory_ok_cong [OF mem]) (simp_all add: k)
  ultimately show ?thesis using sched_switches [of ?st st 0] True
    by (auto simp: forced_idle_def queue_after_def)
next
  case False
  let ?c = "current st"
  have acc: "accounted {?c} st" using ok False by (simp add: sched_ok_def)
  then obtain k where k: "task_at st ?c = Some k" by (auto simp: accounted_def)
  define k1 where "k1 = k\<lparr>regs_of := (regs_of k)\<lparr>gpr := g, psw_of := p, cr1 := cr1 (cpu st)\<rparr>, tstate := ns\<rparr>"
  define fi :: u32 where "fi = (if ticks st + of_nat SCHED_TICKS_PER_SLICE \<le> slice_end_time k then ucast (slice_end_time k) else 0)"
  have run: "schedule p g ns st = bindR (leave_task ?c k1 ns (put_task ?c k1 st)) (sched fi)"
    using False k by (simp add: schedule_def get_task_def put_task_def Let_def k1_def fi_def)
  have fi: "fi \<noteq> 0 \<longleftrightarrow> forced_idle st" using False k by (auto simp: fi_def forced_idle_def)
  have same: "stack k1 = stack k" "tstate k1 = ns" by (simp_all add: k1_def)
  have "\<exists>st1. leave_task ?c k1 ns (put_task ?c k1 st) = Ok st1 \<and> accounted {} st1 \<and> memory_ok st1 \<and> runnable st1 = queue_after ns st
      \<and> processes st1 = (if ns = TASK_ZOMBIE then remove1 ?c (processes st) else processes st) \<and> ticks st1 = ticks st \<and> idle_task st1 = idle_task st"
    using ns leave_sleeping [OF acc k refl same(1)] leave_locked [OF acc k refl same(1)] leave_zombie [OF acc mem k refl same(1)] mem same(2) False
    by (auto simp: queue_after_def task_states)
  then obtain st1 where st1: "leave_task ?c k1 ns (put_task ?c k1 st) = Ok st1" "accounted {} st1" "memory_ok st1" "runnable st1 = queue_after ns st"
      "processes st1 = (if ns = TASK_ZOMBIE then remove1 ?c (processes st) else processes st)" "ticks st1 = ticks st" "idle_task st1 = idle_task st" by blast
  from sched_switches [OF st1(2,3,6,7), of fi] st1 fi False show ?thesis by (simp add: run)
qed

text \<open>A task that is locked becomes runnable, and a new one is made.\<close>

lemma make_runnable_ok:
  assumes ok: "sched_ok st" and mem: "memory_ok st" and t: "t \<in> set (processes st)" "t \<notin> set (runnable st)" "t \<noteq> current st"
  shows "\<exists>st'. make_runnable t st = Ok st' \<and> sched_ok st' \<and> memory_ok st' \<and> runnable st' = runnable st @ [t]
    \<and> current st' = current st \<and> idle_task st' = idle_task st \<and> processes st' = processes st"
proof -
  obtain k where k: "task_at st t = Some k" using ok t by (auto simp: sched_ok_def accounted_def)
  let ?st = "(put_task t (k\<lparr>tstate := TASK_SLEEPING\<rparr>) st)\<lparr>runnable := runnable st @ [t]\<rparr>"
  have "make_runnable t st = Ok ?st" using t k by (simp add: make_runnable_def get_task_def enqueue_def)
  moreover have "sched_ok ?st" using ok t by (auto simp: sched_ok_def accounted_def)
  moreover have "memory_ok ?st" by (rule memory_ok_cong [OF mem]) (simp_all add: k)
  ultimately show ?thesis by (intro exI [of _ ?st]) simp
qed

lemma create_task_ok:
  assumes ok: "sched_ok st" and mem: "memory_ok st" and name: "terminated name \<or> TASK_NAME_LEN \<le> length name"
    and run: "create_task start name f data st = Ok (r, st')"
  shows "\<exists>t. r = Inr t \<and> t \<notin> set (processes st) \<and> sched_ok st' \<and> memory_ok st' \<and> runnable st' = runnable st @ [t]
    \<and> current st' = current st \<and> idle_task st' = idle_task st \<and> processes st' = processes st @ [t]"
proof -
  from mem obtain page where heap: "heap_ok (storage st)" and live: "set (processes st) \<subseteq> live (storage st)"
    and io: "owned (unat (idle_task st) div 4096) (storage st)" and S: "stacks_ok page st" by (auto simp: memory_ok_def)
  have mok: "mem_ok (storage st)" using heap by (simp add: heap_ok_def)
  then have wf: "buddy_wf (mm (storage st))" "no_overlap (mm (storage st))" by (simp_all add: mem_ok_def)
  from run obtain pg b where a: "alloc_pages 0 ZONE_NORMAL (mm (storage st)) = Ok (pg, b)" by (auto simp: create_task_def bindR_eq_Ok)
  then obtain p where p: "pg = Some p" using alloc_pages_normal_not_None [OF wf(1)] by (cases pg) auto
  let ?m = "(storage st)\<lparr>mm := b\<rparr>"
  note A = alloc_takes [OF wf a [unfolded p]]
  note sub = takes_subset [OF A(1)]
  have pf: "unat p \<in># free_frames (mm (storage st))" "unat p \<notin># free_frames b" "set_mset (free_frames b) \<subseteq> set_mset (free_frames (mm (storage st)))"
    using sub A(1) by (auto simp: takes_def frames_0)
  have bb: "buddy_block p 0" using buddy.alloc_takes [OF wf(1) a [unfolded p]] by blast
  have m_ok: "mem_ok ?m" by (rule fresh_page(4) [OF mok a [unfolded p]])
  have heap1: "heap_ok ?m" by (rule heap_ok_mono [OF heap m_ok]) (auto simp: same_sizes_def cache_ok_def)
  have own1: "owned g ?m" if "owned g (storage st)" for g
    by (rule owned_mono [OF that]) (use pf in auto)
  have "unat a div 4096 \<noteq> unat p" if "slabs (storage st) a \<noteq> None" for a
  proof -
    from that mok have "unat a div 4096 \<notin># free_frames (mm (storage st))" by (auto simp: mem_ok_def)
    with pf(1) show ?thesis by metis
  qed
  then have ownp: "owned (unat p) ?m" using pf(2) by (simp add: owned_def)
  from run a p obtain tk m where ma: "malloc sizeof_task ZONE_NORMAL ?m = Ok (tk, m)" by (auto simp: create_task_def bindR_eq_Ok)
  then obtain t where t: "tk = Some t" using malloc_normal_not_None [OF heap1, of sizeof_task m] by (cases tk) (auto simp: sizeof_task_def)
  from heap.alloc_gives [OF heap1 ma [unfolded t]] have M: "heap_ok m" "t \<notin> live ?m" "live m = insert t (live ?m)" by auto
  have L: "live ?m = live (storage st)" by (simp add: live_def page_live_def)
  note own = malloc_owned [OF heap1 ma [unfolded t]]
  have tnew: "t \<notin> set (processes st)" using live M(2) L by auto
  have tidle: "t \<noteq> idle_task st"
    by (rule live_not_owned [of m]) (use M own [OF own1 [OF io]] in \<open>auto simp: heap_ok_def\<close>)
  let ?k = "init_task start f data (page_to_addr (page_num_to_ptr p))"
  from run a p ma t obtain nm where st': "st' = (put_task t (?k\<lparr>tname := nm\<rparr>) (st\<lparr>storage := m\<rparr>))
      \<lparr>processes := processes st @ [t], runnable := runnable st @ [t]\<rparr>" and r: "r = Inr t"
    by (auto simp: create_task_def bindR_eq_Ok Let_def enqueue_def put_task_def split: if_splits)
  have k: "stack ?k = page_to_addr (page_num_to_ptr p)" "tstate ?k = TASK_SLEEPING" by (simp_all add: init_task_def Let_def)
  have tc: "t \<noteq> current st" using ok tnew tidle by (auto simp: sched_ok_def accounted_def)
  have "sched_ok st'" using ok tnew tidle tc k(2) by (auto simp: sched_ok_def accounted_def st')
  moreover have "stacks_ok (page(t := p)) st'"
  proof -
    have "unat (page u) \<noteq> unat p" if "u \<in> set (processes st)" for u
      using S that pf by (auto simp: stacks_ok_def owned_def)
    moreover have "unat (idle_task st) div 4096 \<noteq> unat p" using io pf by (auto simp: owned_def)
    ultimately show ?thesis using S tnew bb own [OF ownp] own [OF own1] k(1)
      by (auto simp: stacks_ok_def st' inj_on_def)
  qed
  then have "memory_ok st'" using M L live own [OF own1 [OF io]] by (auto simp: memory_ok_def st')
  ultimately show ?thesis using r tnew by (simp add: st')
qed

section \<open>Runs of the scheduler\<close>

text \<open>
  What happens to the scheduler: a supervisor call or an external interruption, with what the
  stub has saved; a task that becomes runnable, which is locked; a new task with a name that
  ends or is long enough.
\<close>

datatype event =
    Svc nat psw "u64 list"
  | Ext u16 psw "u64 list"
  | Wake u64
  | New "u8 list" u64 u64

fun valid_event :: "event \<Rightarrow> sched \<Rightarrow> bool" where
  "valid_event (Svc n p g) st = (n < 3)"
| "valid_event (Ext c p g) st = True"
| "valid_event (Wake t) st = (t \<in> set (processes st) \<and> t \<notin> set (runnable st) \<and> t \<noteq> current st)"
| "valid_event (New name f data) st = (terminated name \<or> TASK_NAME_LEN \<le> length name)"

fun run_event :: "u64 \<Rightarrow> event \<Rightarrow> sched \<Rightarrow> sched result" where
  "run_event start (Svc n p g) st = svc_handler n p g st"
| "run_event start (Ext c p g) st = ext_int_handler c p g st"
| "run_event start (Wake t) st = make_runnable t st"
| "run_event start (New name f data) st = bindR (create_task start name f data st) (\<lambda>(r, st). Ok st)"

inductive sched_steps :: "u64 \<Rightarrow> sched \<Rightarrow> event list \<Rightarrow> sched \<Rightarrow> bool" for start where
  steps_nil: "sched_steps start st [] st"
| steps_cons: "valid_event e st \<Longrightarrow> run_event start e st = Ok st1 \<Longrightarrow> sched_steps start st1 es st2 \<Longrightarrow>
    sched_steps start st (e # es) st2"

inductive_cases steps_consE: "sched_steps start st (e # es) st2"
inductive_cases steps_nilE: "sched_steps start st [] st2"

lemma svc_state: "n < 3 \<Longrightarrow> svc_table ! n \<in> {TASK_SLEEPING, TASK_LOCKED, TASK_ZOMBIE}"
  by (auto simp: svc_table_def nth_Cons' less_Suc_eq numeral_3_eq_3)

lemma ticks_ok: "sched_ok (st\<lparr>ticks := n\<rparr>) = sched_ok st" "memory_ok (st\<lparr>ticks := n\<rparr>) = memory_ok st"
  by (simp_all add: sched_ok_def accounted_def memory_ok_def stacks_ok_def)

text \<open>One event: the queue is rotated, or grows at its end.\<close>

definition queue_step :: "sched \<Rightarrow> sched \<Rightarrow> bool" where
  "queue_step st st' \<longleftrightarrow> idle_task st' = idle_task st \<and> (\<exists>new.
     current st' = current st \<and> runnable st' = runnable st @ new
     \<or> current st' = hd (runnable st @ new) \<and> runnable st @ new \<noteq> [] \<and> runnable st' = tl (runnable st @ new)
     \<or> current st' = idle_task st \<and> runnable st' = runnable st @ new)"

lemma schedule_queue_step: "switched forced (queue_after ns st) st st' \<Longrightarrow> queue_step st st'"
  by (auto simp: switched_def queue_step_def queue_after_def split: if_splits)

lemma run_event_ok:
  assumes ok: "sched_ok st" "memory_ok st" and v: "valid_event e st"
  shows "(\<exists>st'. run_event start e st = Ok st') \<or> (\<exists>n f d. e = New n f d)"
    and "run_event start e st = Ok st' \<Longrightarrow> sched_ok st' \<and> memory_ok st' \<and> queue_step st st'"
proof -
  have s: "\<exists>st'. schedule p g ns st1 = Ok st' \<and> sched_ok st' \<and> memory_ok st' \<and> queue_step st1 st'"
    if "sched_ok st1" "memory_ok st1" "ns \<in> {TASK_SLEEPING, TASK_LOCKED, TASK_ZOMBIE}" for p g ns st1
    using schedule_switches [OF that] schedule_queue_step unfolding switched_def by meson
  have "(\<exists>st'. run_event start e st = Ok st' \<and> sched_ok st' \<and> memory_ok st' \<and> queue_step st st')
    \<or> (\<exists>n f d. e = New n f d)"
  proof (cases e)
    case (Svc n p g)
    with s [OF ok svc_state [of n]] v show ?thesis by (simp add: svc_handler_def)
  next
    case (Ext c p g)
    let ?st = "st\<lparr>ticks := ticks st + 1\<rparr>"
    have q: "queue_step ?st st' = queue_step st st'" for st' by (simp add: queue_step_def)
    have r: "queue_step st st" "queue_step st ?st" by (auto simp: queue_step_def)
    show ?thesis using s [of ?st TASK_SLEEPING p g] ok r
      by (simp add: Ext ext_int_handler_def Let_def ticks_ok q)
  next
    case (Wake t)
    from make_runnable_ok [OF ok, of t] v Wake show ?thesis by (auto simp: queue_step_def)
  qed auto
  moreover have "sched_ok st' \<and> memory_ok st' \<and> queue_step st st'" if "e = New n f d" "run_event start e st = Ok st'" for n f d st'
    using create_task_ok [OF ok] that v by (fastforce simp: bindR_eq_Ok queue_step_def)
  ultimately show "(\<exists>st'. run_event start e st = Ok st') \<or> (\<exists>n f d. e = New n f d)"
    and "run_event start e st = Ok st' \<Longrightarrow> sched_ok st' \<and> memory_ok st' \<and> queue_step st st'" by (blast, force)
qed

lemma sched_steps_ok:
  "sched_steps start st es st' \<Longrightarrow> sched_ok st \<Longrightarrow> memory_ok st \<Longrightarrow> sched_ok st' \<and> memory_ok st'"
proof (induction rule: sched_steps.induct)
  case (steps_cons e st st1 es st2)
  with run_event_ok(2) [OF steps_cons.prems steps_cons.hyps(1,2)] show ?case by blast
qed simp

subsection \<open>Everybody's turn comes\<close>

fun is_svc :: "event \<Rightarrow> bool" where
  "is_svc (Svc n p g) = True"
| "is_svc _ = False"

definition rank :: "u64 list \<Rightarrow> sched \<Rightarrow> nat" where
  "rank before st = 2 * length before + (if current st = idle_task st then 0 else 1)"

lemma turn_queue_step:
  assumes "queue_step st st'" and "runnable st = as @ t # bs" and "current st' \<noteq> t"
  shows "\<exists>as' bs'. runnable st' = as' @ t # bs' \<and> rank as' st' \<le> rank as st"
proof -
  from assms(1) obtain new where "idle_task st' = idle_task st" and
    "current st' = current st \<and> runnable st' = runnable st @ new
     \<or> current st' = hd (runnable st @ new) \<and> runnable st @ new \<noteq> [] \<and> runnable st' = tl (runnable st @ new)
     \<or> current st' = idle_task st \<and> runnable st' = runnable st @ new" by (auto simp: queue_step_def)
  then consider (stay) "current st' = current st" "runnable st' = as @ t # bs @ new"
    | (pop) "current st' = hd (as @ t # bs @ new)" "runnable st' = tl (as @ t # bs @ new)"
    | (idle) "current st' = idle_task st" "runnable st' = as @ t # bs @ new" using assms(2) by auto
  then show ?thesis
  proof cases
    case stay
    with \<open>idle_task st' = idle_task st\<close> show ?thesis by (intro exI [of _ as] exI [of _ "bs @ new"]) (simp add: rank_def)
  next
    case pop
    with assms(3) obtain a as' where "as = a # as'" by (cases as) auto
    with pop show ?thesis by (intro exI [of _ as'] exI [of _ "bs @ new"]) (simp add: rank_def)
  next
    case idle
    with \<open>idle_task st' = idle_task st\<close> show ?thesis by (intro exI [of _ as] exI [of _ "bs @ new"]) (simp add: rank_def)
  qed
qed

lemma turn_svc:
  assumes "sched_ok st" "memory_ok st" and "n < 3" and "run_event start (Svc n p g) st = Ok st'"
    and "runnable st = as @ t # bs" and "current st' \<noteq> t"
  shows "\<exists>as' bs'. runnable st' = as' @ t # bs' \<and> rank as' st' < rank as st"
proof -
  from schedule_switches [OF assms(1,2) svc_state [OF assms(3)], of p g] assms(4)
  have sw: "switched (forced_idle st) (queue_after (svc_table ! n) st) st st'" by (auto simp: svc_handler_def)
  have "\<exists>new. queue_after (svc_table ! n) st = as @ t # bs @ new"
    by (cases "current st \<noteq> idle_task st \<and> svc_table ! n = TASK_SLEEPING") (simp_all add: queue_after_def assms(5))
  then obtain new where q: "queue_after (svc_table ! n) st = as @ t # bs @ new" ..
  show ?thesis
  proof (cases "forced_idle st")
    case True
    then have "current st \<noteq> idle_task st" by (simp add: forced_idle_def)
    with True sw q show ?thesis by (auto simp: switched_def rank_def)
  next
    case False
    with sw q assms(6) show ?thesis by (cases as) (auto simp: switched_def rank_def)
  qed
qed

lemma turn_comes:
  "sched_steps start st es st' \<Longrightarrow> sched_ok st \<Longrightarrow> memory_ok st \<Longrightarrow> runnable st = as @ t # bs \<Longrightarrow>
   rank as st < length (filter is_svc es) \<Longrightarrow> \<exists>es1 es2 st1. es = es1 @ es2 \<and> sched_steps start st es1 st1 \<and> current st1 = t"
proof (induction arbitrary: as bs rule: sched_steps.induct)
  case (steps_cons e st st1 es st2)
  note E = run_event_ok(2) [OF steps_cons.prems(1,2) steps_cons.hyps(1,2)]
  show ?case
  proof (cases "current st1 = t")
    case True
    have "sched_steps start st [e] st1" by (rule sched_steps.intros(2) [OF steps_cons.hyps(1,2)]) (rule steps_nil)
    with True show ?thesis by (intro exI [of _ "[e]"] exI [of _ es] exI [of _ st1]) simp
  next
    case False
    have "\<exists>as' bs'. runnable st1 = as' @ t # bs' \<and> rank as' st1 < length (filter is_svc es)"
    proof (cases "is_svc e")
      case True
      then obtain n p g where e: "e = Svc n p g" by (cases e) auto
      then have "n < 3" using steps_cons.hyps(1) by simp
      from turn_svc [OF steps_cons.prems(1,2) this steps_cons.hyps(2) [unfolded e] steps_cons.prems(3) False]
      show ?thesis using steps_cons.prems(4) e by fastforce
    next
      case not: False
      from turn_queue_step [OF _ steps_cons.prems(3) False] E show ?thesis using steps_cons.prems(4) not by fastforce
    qed
    then obtain as' bs' where n: "runnable st1 = as' @ t # bs'" "rank as' st1 < length (filter is_svc es)" by blast
    from steps_cons.IH [OF _ _ n] E obtain es1 es2 st3 where "es = es1 @ es2" "sched_steps start st1 es1 st3" "current st3 = t" by blast
    with sched_steps.intros(2) [OF steps_cons.hyps(1,2)] show ?thesis by (intro exI [of _ "e # es1"] exI [of _ es2] exI [of _ st3]) simp
  qed
qed simp

subsection \<open>The registers of a task\<close>

definition saved :: "u64 \<Rightarrow> sched \<Rightarrow> regs option" where
  "saved t st = map_option regs_of (task_at st t)"

lemma sched_saved:
  assumes "sched fi st = Ok st'"
  shows "saved t st' = saved t st" "current st' = t \<Longrightarrow> saved t st = Some r \<Longrightarrow> cpu st' = load_regs r (cpu st)"
  using assms by (auto simp: sched_def bindR_eq_Ok get_task_def saved_def Let_def put_task_def split: option.splits if_splits)

lemma leave_saved:
  assumes "leave_task c k ns st = Ok st'"
  shows "t \<noteq> c \<Longrightarrow> saved t st' = saved t st" "ns \<noteq> TASK_ZOMBIE \<Longrightarrow> saved t st' = saved t st" "cpu st' = cpu st"
  using assms by (auto simp: leave_task_def enqueue_def bindR_eq_Ok saved_def split: if_splits)

lemma schedule_saved:
  assumes "schedule p g ns st = Ok st'" and "t \<noteq> current st" and "saved t st = Some r"
  shows "saved t st' = Some r" "current st' = t \<Longrightarrow> cpu st' = load_regs r (cpu st)"
proof -
  from assms(1) obtain x where x: "get_task (current st) st = Ok x" by (auto simp: schedule_def bindR_eq_Ok Let_def)
  have "\<exists>k fi st1. (st1 = put_task (current st) k st \<or> leave_task (current st) k ns (put_task (current st) k st) = Ok st1) \<and> sched fi st1 = Ok st'"
  proof (cases "current st = idle_task st")
    case True
    with assms(1) x show ?thesis by (auto simp: schedule_def Let_def)
  next
    case False
    with assms(1) x show ?thesis by (auto simp: schedule_def bindR_eq_Ok Let_def)
  qed
  then obtain k k1 fi st1 where "k1 = put_task (current st) k st" "st1 = k1 \<or> leave_task (current st) k ns k1 = Ok st1"
    and r: "sched fi st1 = Ok st'" by blast
  then have "saved t st1 = saved t st" "cpu st1 = cpu st" using leave_saved(1,3) [of "current st" k ns k1 st1] assms(2)
    by (auto simp: saved_def)
  with sched_saved [OF r] assms(3) show "saved t st' = Some r" "current st' = t \<Longrightarrow> cpu st' = load_regs r (cpu st)" by auto
qed

lemma event_saved:
  assumes ok: "sched_ok st" "memory_ok st" and v: "valid_event e st" and run: "run_event start e st = Ok st'"
    and t: "t \<in> set (processes st)" "t \<noteq> current st" "saved t st = Some r"
  shows "saved t st' = Some r \<and> t \<in> set (processes st') \<and> (current st' = t \<longrightarrow> cpu st' = load_regs r (cpu st))"
proof (cases e)
  case (Svc n p g)
  with v run have s: "schedule p g (svc_table ! n) st = Ok st'" and n: "n < 3" by (simp_all add: svc_handler_def)
  from schedule_switches [OF ok svc_state [OF n], of p g] s have "t \<in> set (processes st')" using t ok
    by (auto simp: sched_ok_def accounted_def)
  with schedule_saved [OF s t(2,3)] show ?thesis by blast
next
  case (Ext c p g)
  show ?thesis
  proof (cases "schedule p g TASK_SLEEPING (st\<lparr>ticks := ticks st + 1\<rparr>) = Ok st'")
    case True
    have "t \<in> set (processes st')"
      using schedule_switches [of "st\<lparr>ticks := ticks st + 1\<rparr>" TASK_SLEEPING p g] True ok t by (auto simp: ticks_ok task_states)
    with schedule_saved [OF True, of t r] t show ?thesis by (simp add: saved_def)
  next
    case False
    with run Ext t show ?thesis by (auto simp: ext_int_handler_def saved_def Let_def split: if_splits)
  qed
next
  case (Wake u)
  with run t show ?thesis
    by (auto simp: make_runnable_def bindR_eq_Ok get_task_def enqueue_def saved_def split: option.splits if_splits)
next
  case (New n f d)
  then obtain x where c: "create_task start n f d st = Ok (x, st')" using run by (auto simp: bindR_eq_Ok)
  from create_task_ok [OF ok _ c] v New obtain u where u: "x = Inr u" "u \<notin> set (processes st)" "processes st' = processes st @ [u]" "current st' = current st" by auto
  from c u(1) have "task_at st' = (task_at st)(u := task_at st' u)"
    by (auto simp: create_task_def bindR_eq_Ok enqueue_def put_task_def Let_def split: option.splits if_splits)
  then have "task_at st' t = task_at st t" using u(2) t(1) by (metis fun_upd_other)
  then show ?thesis using u t by (simp add: saved_def)
qed

text \<open>A run in which the task \<open>c\<close> is not running before the end.\<close>

inductive away :: "u64 \<Rightarrow> u64 \<Rightarrow> sched \<Rightarrow> event list \<Rightarrow> sched \<Rightarrow> bool" for start c where
  away_last: "current st \<noteq> c \<Longrightarrow> valid_event e st \<Longrightarrow> run_event start e st = Ok st' \<Longrightarrow> away start c st [e] st'"
| away_more: "current st \<noteq> c \<Longrightarrow> valid_event e st \<Longrightarrow> run_event start e st = Ok st1 \<Longrightarrow> away start c st1 es st' \<Longrightarrow>
    away start c st (e # es) st'"

lemma away_saved:
  "away start c st es st' \<Longrightarrow> sched_ok st \<Longrightarrow> memory_ok st \<Longrightarrow> c \<in> set (processes st) \<Longrightarrow> saved c st = Some r \<Longrightarrow>
   current st' = c \<Longrightarrow> \<exists>old. cpu st' = load_regs r old"
proof (induction rule: away.induct)
  case (away_last st e st')
  then show ?case using event_saved [of st e start st' c r] by metis
next
  case (away_more st e st1 es st')
  then show ?case using event_saved [of st e start st1 c r] run_event_ok(2) [of st e start st1] by metis
qed

section \<open>Properties\<close>

text \<open>Two tasks on a small heap, the first one running.\<close>

definition example_task :: "u64 \<Rightarrow> nat \<Rightarrow> task" where
  "example_task stk s = (init_task 0x400 0 0 stk)\<lparr>tstate := s\<rparr>"

definition two_tasks :: sched where
  "two_tasks = \<lparr>task_at = [0x800 \<mapsto> example_task 0 TASK_SLEEPING, 0xb02c \<mapsto> example_task 0x1000 TASK_RUNNING,
       0xb0ac \<mapsto> example_task 0x2000 TASK_SLEEPING],
     idle_task = 0x800, runnable = [0xb0ac], processes = [0xb02c, 0xb0ac], current = 0xb02c, ticks = 5,
     cpu = \<lparr>psw_of = \<lparr>psw_word = 0, psw_ptr = 0x500\<rparr>, gpr = replicate 16 0, cr1 = 0x7003\<rparr>,
     storage = example_heap 2 0xc0\<rparr>"

lemma two_tasks_ok: "sched_ok two_tasks" "memory_ok two_tasks"
proof -
  show "sched_ok two_tasks"
    by (simp add: sched_ok_def accounted_def two_tasks_def example_task_def)
  have h1: "heap_ok (example_heap 1 0x80)" "live (example_heap 1 0x80) = {0xb02c}"
    using heap.alloc_gives [OF small_heap_ok(1) example_alloc] small_heap_ok(2) by auto
  have h2: "heap_ok (example_heap 2 0xc0)" "live (example_heap 2 0xc0) = {0xb0ac, 0xb02c}"
    using heap.alloc_gives [OF h1(1) example_alloc2] h1(2) by auto
  have own: "owned f (example_heap 2 0xc0)" if "f < 3" for f
  proof -
    have "free_frames (low_lists [[15], [], [], []]) = {#15#}"
      by (simp add: free_frames_def zone_frames_from low_lists_def frames_from_none frames_zero)
    then have "f \<notin># free_frames (mm (example_heap 2 0xc0))"
      using that by (simp add: example_heap_def small_heap_def)
    moreover have "unat a div 4096 \<noteq> f" if "slabs (example_heap 2 0xc0) a \<noteq> None" for a
      using that \<open>f < 3\<close> by (auto simp: example_heap_def small_heap_def split: if_splits)
    ultimately show ?thesis by (simp add: owned_def)
  qed
  have b: "buddy_block 1 0" "buddy_block 2 0"
    by (auto simp: buddy_block_def zone_block_def intro: exI [of _ True])
  have a: "page_to_addr (page_num_to_ptr 1) = 0x1000" "page_to_addr (page_num_to_ptr 2) = 0x2000" by code_simp+
  have "stacks_ok (\<lambda>t. if t = 0xb02c then 1 else 2) two_tasks"
    using own [of 1] own [of 2] b a
    by (simp add: stacks_ok_def two_tasks_def example_task_def init_task_def Let_def inj_on_def)
  then show "memory_ok two_tasks" using h2 own [of 0] by (auto simp: memory_ok_def two_tasks_def)
qed



text \<open>
  (C19) A task with \<open>k\<close> tasks before it on the run queue is run before the processor has been
  given up \<open>2 k + 2\<close> times, whatever else happens: the scheduler gives the idle task at most every
  other turn, and new arrivals go behind.
\<close>

theorem sched_round_robin:
  assumes "sched_steps start st es st'" and "sched_ok st" and "memory_ok st" and "runnable st = as @ t # bs"
    and "2 * length as + 2 \<le> length (filter is_svc es)"
  shows "\<exists>es1 es2 st1. es = es1 @ es2 \<and> sched_steps start st es1 st1 \<and> current st1 = t"
  by (rule turn_comes [OF assms(1-4)]) (use assms(5) in \<open>simp add: rank_def\<close>)

theorem sched_round_robin_witness:
  "\<exists>es st'. sched_steps 0x400 two_tasks es st' \<and> current st' = 0xb0ac"
proof -
  let ?e = "Svc 0 \<lparr>psw_word = 0, psw_ptr = 0\<rparr> []"
  have v: "valid_event ?e st" for st by simp
  obtain st1 where s1: "run_event 0x400 ?e two_tasks = Ok st1" "sched_ok st1" "memory_ok st1"
    using run_event_ok(1) [OF two_tasks_ok v] run_event_ok(2) [OF two_tasks_ok v] by blast
  then obtain st2 where s2: "run_event 0x400 ?e st1 = Ok st2"
    using run_event_ok(1) [OF s1(2,3) v] by blast
  have steps: "sched_steps 0x400 two_tasks [?e, ?e] st2"
    using s1(1) s2 v by (blast intro: sched_steps.intros)
  have "runnable two_tasks = [] @ 0xb0ac # []" by (simp add: two_tasks_def)
  from sched_round_robin [OF steps two_tasks_ok this] show ?thesis by auto
qed

text \<open>
  (C20) A task that gives up the processor finds, when it runs again, the instruction address, the
  general registers and the address space it left with, whatever runs in between.
\<close>

theorem sched_context_kept:
  assumes "sched_ok st" and "memory_ok st" and "current st \<noteq> idle_task st"
    and "schedule p g TASK_SLEEPING st = Ok st1" and "away start (current st) st1 es st2" and "current st2 = current st"
  shows "psw_of (cpu st2) = p \<and> gpr (cpu st2) = g \<and> (cr1 (cpu st) \<noteq> 0 \<longrightarrow> cr1 (cpu st2) = cr1 (cpu st))"
proof -
  let ?c = "current st" and ?r = "\<lparr>psw_of = p, gpr = g, cr1 = cr1 (cpu st)\<rparr>"
  have c: "?c \<in> set (processes st)" using assms(1,3) by (auto simp: sched_ok_def accounted_def)
  from schedule_switches [OF assms(1,2), of TASK_SLEEPING p g] assms(4)
  have ok1: "sched_ok st1" "memory_ok st1" "?c \<in> set (processes st1)"
    using c by (auto simp: switched_def task_states)
  from assms(3,4) obtain k fi st0 where l: "leave_task ?c k TASK_SLEEPING (put_task ?c k st) = Ok st0"
    "sched fi st0 = Ok st1" "regs_of k = ?r"
    by (auto simp: schedule_def bindR_eq_Ok Let_def)
  have "saved ?c st0 = Some ?r" using leave_saved(2) [OF l(1), of ?c] l(3) by (simp add: task_states saved_def)
  then have "saved ?c st1 = Some ?r" using sched_saved(1) [OF l(2)] by simp
  from away_saved [OF assms(5) ok1 this assms(6)] show ?thesis by (auto simp: load_regs_def)
qed

theorem sched_context_kept_witness:
  "\<exists>st1 es st2. schedule \<lparr>psw_word = 1, psw_ptr = 0x1234\<rparr> [7] TASK_SLEEPING two_tasks = Ok st1
    \<and> away 0x400 0xb02c st1 es st2 \<and> psw_ptr (psw_of (cpu st2)) = 0x1234 \<and> gpr (cpu st2) = [7] \<and> cr1 (cpu st2) = 0x7003"
proof -
  let ?p = "\<lparr>psw_word = 1, psw_ptr = 0x1234\<rparr>" and ?e = "Svc 0 \<lparr>psw_word = 0, psw_ptr = 0\<rparr> []"
  have c: "current two_tasks = 0xb02c" "idle_task two_tasks = 0x800" "runnable two_tasks = [0xb0ac]" "cr1 (cpu two_tasks) = 0x7003"
    by (simp_all add: two_tasks_def)
  have "\<not> forced_idle two_tasks" by (simp add: forced_idle_def two_tasks_def example_task_def init_task_def Let_def SCHED_TICKS_PER_SLICE_def HZ_def SCHED_SLICE_MS_def)
  then obtain st1 where s1: "schedule ?p [7] TASK_SLEEPING two_tasks = Ok st1" "sched_ok st1" "memory_ok st1"
    "current st1 = 0xb0ac" "runnable st1 = [0xb02c]" "idle_task st1 = 0x800"
    using schedule_switches [OF two_tasks_ok, of TASK_SLEEPING ?p "[7]"] c by (auto simp: switched_def queue_after_def)
  have svc: "run_event 0x400 ?e st = schedule \<lparr>psw_word = 0, psw_ptr = 0\<rparr> [] TASK_SLEEPING st" "valid_event ?e st" for st
    by (simp_all add: svc_handler_def svc_table_def)
  obtain st2 where s2: "run_event 0x400 ?e st1 = Ok st2" "switched (forced_idle st1) [0xb02c, 0xb0ac] st1 st2"
    unfolding svc(1) using schedule_switches [OF s1(2,3), of TASK_SLEEPING "\<lparr>psw_word = 0, psw_ptr = 0\<rparr>" "[]"] s1(4-6)
    by (auto simp: queue_after_def)
  have "\<exists>es st3. away 0x400 0xb02c st1 es st3 \<and> current st3 = 0xb02c"
  proof (cases "forced_idle st1")
    case False
    with s2 s1 svc(2) show ?thesis by (intro exI [of _ "[?e]"] exI [of _ st2] conjI away_last) (simp_all add: switched_def)
  next
    case True
    with s2(2) s1(6) have i: "current st2 = 0x800" "idle_task st2 = 0x800" "runnable st2 = [0xb02c, 0xb0ac]" "sched_ok st2" "memory_ok st2"
      by (simp_all add: switched_def)
    obtain st3 where s3: "run_event 0x400 ?e st2 = Ok st3" "current st3 = 0xb02c"
      unfolding svc(1) using schedule_switches [OF i(4,5), of TASK_SLEEPING "\<lparr>psw_word = 0, psw_ptr = 0\<rparr>" "[]"] i(1-3)
      by (auto simp: queue_after_def switched_def forced_idle_def)
    have b: "away 0x400 0xb02c st2 [?e] st3" using s3 i svc(2) by (intro away_last) simp_all
    have "away 0x400 0xb02c st1 [?e, ?e] st3" by (rule away_more [OF _ svc(2) s2(1) b]) (simp add: s1(4))
    with s3(2) show ?thesis by blast
  qed
  then obtain es st3 where a: "away 0x400 (current two_tasks) st1 es st3" "current st3 = current two_tasks" by (auto simp: c)
  from sched_context_kept [OF two_tasks_ok _ s1(1) a] c
  have "psw_of (cpu st3) = ?p \<and> gpr (cpu st3) = [7] \<and> cr1 (cpu st3) = 0x7003" by simp
  with a s1(1) c show ?thesis by (intro exI [of _ st1] exI [of _ es] exI [of _ st3]) simp
qed

end
