(* ===== verification/Atomic.thy ===== *)
theory Atomic
  imports Prelude
begin

text \<open>
  Atomic operations and spinlocks: \<^verbatim>\<open>src/cp/include/atomic.h\<close>,
  \<^verbatim>\<open>src/cp/include/spinlock.h\<close> and \<^verbatim>\<open>src/cp/nucleus/spinlock.c\<close>.  Other
  processors may store between the instructions of a loop: \<open>env\<close> lists the values its location
  holds when each of its compare-and-swap instructions executes.  A loop that has not ended when
  the list does has the value \<open>None\<close>.
\<close>

section \<open>Compare and swap\<close>

text \<open>What the instruction returns in the first register, and what it leaves in storage.\<close>

definition compare_and_swap :: "'a::len word \<Rightarrow> 'a word \<Rightarrow> 'a word \<Rightarrow> 'a word \<times> 'a word" where
  "compare_and_swap mem old new = (mem, if mem = old then new else mem)"

text \<open>\<^verbatim>\<open>__CS_LOOP\<close> with the operation \<open>f\<close>: the value stored, which is also the value returned.\<close>

fun cs_loop :: "('a::len word \<Rightarrow> 'a word) \<Rightarrow> 'a word list \<Rightarrow> 'a word \<Rightarrow> 'a word option" where
  "cs_loop f [] old = None"
| "cs_loop f (mem # env) old =
     (let new = f old; (old', mem') = compare_and_swap mem old new
      in if old' = old then Some mem' else cs_loop f env old')"

definition csg_loop :: "(u64 \<Rightarrow> u64) \<Rightarrow> u64 list \<Rightarrow> u64 \<Rightarrow> u64 option" where
  "csg_loop = cs_loop"

text \<open>The 32-bit operations; \<open>v\<close> is what the first load finds.\<close>

definition atomic_add_return :: "u32 \<Rightarrow> u32 list \<Rightarrow> u32 \<Rightarrow> u32 option" where
  "atomic_add_return i env v = cs_loop (\<lambda>x. x + i) env v"

definition atomic_inc :: "u32 list \<Rightarrow> u32 \<Rightarrow> u32 option" where
  "atomic_inc env v = atomic_add_return 1 env v"

definition atomic_inc_and_test :: "u32 list \<Rightarrow> u32 \<Rightarrow> bool option" where
  "atomic_inc_and_test env v = map_option (\<lambda>r. r = 0) (atomic_add_return 1 env v)"

definition atomic_add_negative :: "u32 \<Rightarrow> u32 list \<Rightarrow> u32 \<Rightarrow> bool option" where
  "atomic_add_negative i env v = map_option (\<lambda>r. sint r < 0) (atomic_add_return i env v)"

definition atomic_sub_return :: "u32 \<Rightarrow> u32 list \<Rightarrow> u32 \<Rightarrow> u32 option" where
  "atomic_sub_return i env v = cs_loop (\<lambda>x. x - i) env v"

definition atomic_dec :: "u32 list \<Rightarrow> u32 \<Rightarrow> u32 option" where
  "atomic_dec env v = atomic_sub_return 1 env v"

definition atomic_dec_and_test :: "u32 list \<Rightarrow> u32 \<Rightarrow> bool option" where
  "atomic_dec_and_test env v = map_option (\<lambda>r. r = 0) (atomic_sub_return 1 env v)"

definition atomic_sub_and_test :: "u32 \<Rightarrow> u32 list \<Rightarrow> u32 \<Rightarrow> bool option" where
  "atomic_sub_and_test i env v = map_option (\<lambda>r. r = 0) (atomic_sub_return i env v)"

definition atomic_clear_mask :: "u64 \<Rightarrow> u32 list \<Rightarrow> u32 \<Rightarrow> u32 option" where
  "atomic_clear_mask m env v = cs_loop (\<lambda>x. x AND ucast (NOT m)) env v"

definition atomic_set_mask :: "u64 \<Rightarrow> u32 list \<Rightarrow> u32 \<Rightarrow> u32 option" where
  "atomic_set_mask m env v = cs_loop (\<lambda>x. x OR ucast m) env v"

text \<open>The 64-bit operations.\<close>

definition atomic64_add_return :: "u64 \<Rightarrow> u64 list \<Rightarrow> u64 \<Rightarrow> u64 option" where
  "atomic64_add_return i env v = csg_loop (\<lambda>x. x + i) env v"

definition atomic64_sub_return :: "u64 \<Rightarrow> u64 list \<Rightarrow> u64 \<Rightarrow> u64 option" where
  "atomic64_sub_return i env v = csg_loop (\<lambda>x. x - i) env v"

definition atomic64_clear_mask :: "u64 \<Rightarrow> u64 list \<Rightarrow> u64 \<Rightarrow> u64 option" where
  "atomic64_clear_mask m env v = csg_loop (\<lambda>x. x AND NOT m) env v"

definition atomic64_set_mask :: "u64 \<Rightarrow> u64 list \<Rightarrow> u64 \<Rightarrow> u64 option" where
  "atomic64_set_mask m env v = csg_loop (\<lambda>x. x OR m) env v"

text \<open>
  The loop of \<^verbatim>\<open>atomic_add_unless\<close>: the value returned, and the value stored if one is.
\<close>

fun add_unless_loop :: "'a::len word list \<Rightarrow> 'a word \<Rightarrow> 'a word \<Rightarrow> 'a word \<Rightarrow> (bool \<times> 'a word option) option" where
  "add_unless_loop env c a u =
     (if c = u then Some (False, None)
      else case env of
        [] \<Rightarrow> None
      | mem # env \<Rightarrow>
          let (old, mem') = compare_and_swap mem c (c + a)
          in if old = c then Some (True, Some mem') else add_unless_loop env old a u)"

declare add_unless_loop.simps [simp del]

definition atomic_add_unless :: "u32 list \<Rightarrow> u32 \<Rightarrow> u32 \<Rightarrow> u32 \<Rightarrow> (bool \<times> u32 option) option" where
  "atomic_add_unless env v a u = add_unless_loop env v a u"

definition atomic64_add_unless :: "u64 list \<Rightarrow> u64 \<Rightarrow> u64 \<Rightarrow> u64 \<Rightarrow> (bool \<times> u64 option) option" where
  "atomic64_add_unless env v a u = add_unless_loop env v a u"

section \<open>Spinlocks\<close>

text \<open>The word stored in a held lock: the return address with its lowest bit set, cut to 32 bits.\<close>

definition lock_owner :: "u64 \<Rightarrow> u32" where
  "lock_owner ra = ucast (1 OR ra :: u64)"

definition SPIN_RETRY :: nat where "SPIN_RETRY = 1000"

fun spin_lock_wait :: "u32 list \<Rightarrow> u32 \<Rightarrow> u32 option" where
  "spin_lock_wait [] pc = None"
| "spin_lock_wait (mem # env) pc =
     (let (old, mem') = compare_and_swap mem 0 pc in if old = 0 then Some mem' else spin_lock_wait env pc)"

definition spin_lock :: "u32 list \<Rightarrow> u64 \<Rightarrow> u32 option" where
  "spin_lock env ra = (case env of
     [] \<Rightarrow> None
   | mem # env \<Rightarrow>
       let pc = lock_owner ra; (old, mem') = compare_and_swap mem 0 pc
       in if old \<noteq> 0 then spin_lock_wait env pc else Some mem')"

text \<open>The bounded retry: whether the lock was taken.  \<open>env\<close> has a value for each of the tries.\<close>

fun trylock_retry_loop :: "nat \<Rightarrow> u32 list \<Rightarrow> u32 \<Rightarrow> bool option" where
  "trylock_retry_loop 0 env pc = Some False"
| "trylock_retry_loop (Suc n) env pc = (case env of
     [] \<Rightarrow> None
   | mem # env \<Rightarrow> if fst (compare_and_swap mem 0 pc) = 0 then Some True else trylock_retry_loop n env pc)"

definition spin_trylock_retry :: "u32 list \<Rightarrow> u32 \<Rightarrow> bool option" where
  "spin_trylock_retry env pc = trylock_retry_loop SPIN_RETRY env pc"

definition spin_trylock :: "u32 list \<Rightarrow> u64 \<Rightarrow> bool option" where
  "spin_trylock env ra = (case env of
     [] \<Rightarrow> None
   | mem # env \<Rightarrow>
       let pc = lock_owner ra
       in if fst (compare_and_swap mem 0 pc) = 0 then Some True else spin_trylock_retry env pc)"

text \<open>Unlocking stores 0 if the lock still holds what was read from it just before.\<close>

definition spin_unlock :: "u32 \<Rightarrow> u32 \<Rightarrow> u32" where
  "spin_unlock seen mem = snd (compare_and_swap mem seen 0)"

text \<open>The order in which two locks are taken, and given back.\<close>

definition spin_double_lock :: "u64 \<Rightarrow> u64 \<Rightarrow> u64 list" where
  "spin_double_lock l1 l2 = (if l1 < l2 then [l1, l2] else [l2, l1])"

definition spin_double_unlock :: "u64 \<Rightarrow> u64 \<Rightarrow> u64 list" where
  "spin_double_unlock l1 l2 = (if l1 < l2 then [l2, l1] else [l1, l2])"

section \<open>Atomicity\<close>

lemma cs_loop_step: "cs_loop f (mem # env) v = (if mem = v then Some (f mem) else cs_loop f env mem)"
  by (simp add: compare_and_swap_def)

lemma cs_loop_atomic: "cs_loop f env v = Some r \<Longrightarrow> \<exists>pre mem rest. env = pre @ mem # rest \<and> r = f mem"
proof (induction env arbitrary: v)
  case (Cons mem env)
  show ?case
  proof (cases "mem = v")
    case True
    with Cons.prems have "mem # env = [] @ mem # env \<and> r = f mem" by (simp only: cs_loop_step) simp
    then show ?thesis by blast
  next
    case False
    with Cons.prems have "cs_loop f env mem = Some r" by (simp only: cs_loop_step if_False)
    from Cons.IH [OF this] obtain pre m rest where "mem # env = (mem # pre) @ m # rest \<and> r = f m" by auto
    then show ?thesis by blast
  qed
qed simp

lemma cs_loop_quiet: "cs_loop f (pre @ mem # mem # rest) v \<noteq> None"
  by (induction pre arbitrary: v) (simp_all add: cs_loop_step del: cs_loop.simps)

lemma add_unless_step:
  "c = u \<Longrightarrow> add_unless_loop env c a u = Some (False, None)"
  "c \<noteq> u \<Longrightarrow> add_unless_loop (mem # env) c a u
    = (if mem = c then Some (True, Some (c + a)) else add_unless_loop env mem a u)"
  "c \<noteq> u \<Longrightarrow> add_unless_loop [] c a u = None"
  by (simp add: add_unless_loop.simps) (simp_all add: add_unless_loop.simps [of _ c] compare_and_swap_def)

lemma add_unless_atomic: "add_unless_loop env v a u = Some (b, s) \<Longrightarrow>
    b \<and> (\<exists>pre mem rest. env = pre @ mem # rest \<and> mem \<noteq> u \<and> s = Some (mem + a))
    \<or> \<not> b \<and> s = None \<and> u \<in> set (v # env)"
proof (induction env arbitrary: v)
  case Nil
  then show ?case by (cases "v = u") (simp_all add: add_unless_step)
next
  case (Cons mem env)
  consider "v = u" | "v \<noteq> u" "mem = v" | "v \<noteq> u" "mem \<noteq> v" by blast
  then show ?case
  proof cases
    case 1
    with Cons.prems show ?thesis by (simp add: add_unless_step)
  next
    case 2
    with Cons.prems have "b \<and> mem # env = [] @ mem # env \<and> mem \<noteq> u \<and> s = Some (mem + a)"
      by (simp add: add_unless_step)
    then show ?thesis by blast
  next
    case 3
    with Cons.prems have "add_unless_loop env mem a u = Some (b, s)" by (simp add: add_unless_step)
    from Cons.IH [OF this] show ?thesis
    proof
      assume "b \<and> (\<exists>pre m rest. env = pre @ m # rest \<and> m \<noteq> u \<and> s = Some (m + a))"
      then obtain pre m rest where "b \<and> mem # env = (mem # pre) @ m # rest \<and> m \<noteq> u \<and> s = Some (m + a)" by auto
      then show ?thesis by blast
    qed simp
  qed
qed

lemma add_unless_quiet: "add_unless_loop (pre @ mem # mem # rest) v a u \<noteq> None"
proof (induction pre arbitrary: v)
  case Nil
  then show ?case by (cases "v = u"; cases "mem = u") (auto simp: add_unless_step)
next
  case (Cons x pre)
  then show ?case by (cases "v = u") (auto simp: add_unless_step)
qed

lemma spin_wait: "spin_lock_wait env pc = (if 0 \<in> set env then Some pc else None)"
  by (induction env pc rule: spin_lock_wait.induct) (auto simp: compare_and_swap_def)

lemma lock_owner_nonzero: "lock_owner ra \<noteq> 0"
proof -
  have "bit (lock_owner ra) 0" by (simp add: lock_owner_def bit_simps)
  then show ?thesis by auto
qed

lemma retry_loop: "n \<le> length env \<Longrightarrow> trylock_retry_loop n env pc = Some (0 \<in> set (take n env))"
proof (induction n arbitrary: env)
  case (Suc n)
  then show ?case by (cases env) (auto simp: compare_and_swap_def)
qed simp

section \<open>Properties\<close>

text \<open>
  (C26) \<^verbatim>\<open>atomic_add_unless\<close> is atomic whatever the other processors store meanwhile:
  there is an instant at which the counter holds \<open>u\<close> and the call returns 0 and stores nothing,
  or it holds another value and that value plus \<open>a\<close> is stored in its place.
\<close>

theorem atomic_add_unless_atomic:
  assumes "atomic_add_unless env v a u = Some (b, s)"
  shows "b \<and> (\<exists>pre mem rest. env = pre @ mem # rest \<and> mem \<noteq> u \<and> s = Some (mem + a))
    \<or> \<not> b \<and> s = None \<and> u \<in> set (v # env)"
  using add_unless_atomic assms by (simp add: atomic_add_unless_def)

theorem atomic_add_unless_atomic_witness:
  "\<exists>pre mem rest. [7, 7, 3 :: u32] = pre @ mem # rest \<and> mem \<noteq> 0 \<and> Some 6 = Some (mem + (- 1))"
proof -
  have "atomic_add_unless [7, 7, 3] 5 (- 1) 0 = Some (True, Some 6)"
    by (simp add: atomic_add_unless_def add_unless_loop.simps compare_and_swap_def)
  from atomic_add_unless_atomic [OF this] show ?thesis by simp
qed

text \<open>
  (C27) \<^verbatim>\<open>atomic_add_unless\<close> returns as soon as nobody else stores to the counter between
  two of its compare-and-swap instructions.
\<close>

theorem atomic_add_unless_returns:
  "\<exists>b s. atomic_add_unless (pre @ mem # mem # rest) v a u = Some (b, s)"
  using add_unless_quiet [of pre mem rest v a u] by (simp add: atomic_add_unless_def)

text \<open>
  (C28) \<^verbatim>\<open>spin_lock\<close> returns exactly if the lock is found free at some try, and it then
  leaves a non-zero word in it; \<^verbatim>\<open>spin_trylock\<close> always returns, after at most 1001 tries,
  and tells whether one of them found the lock free.
\<close>

theorem spin_lock_correct:
  assumes "1001 \<le> length env"
  shows "spin_lock env ra = (if 0 \<in> set env then Some (lock_owner ra) else None) \<and> lock_owner ra \<noteq> 0
    \<and> spin_trylock env ra = Some (0 \<in> set (take 1001 env))"
proof -
  obtain mem env' where env: "env = mem # env'" "1000 \<le> length env'" using assms by (cases env) auto
  have "spin_lock env ra = (if 0 \<in> set env then Some (lock_owner ra) else None)"
    by (auto simp: env(1) spin_lock_def spin_wait compare_and_swap_def Let_def)
  moreover have "spin_trylock env ra = Some (0 \<in> set (take 1001 env))"
    using retry_loop [OF env(2)]
    by (simp add: env(1) spin_trylock_def spin_trylock_retry_def SPIN_RETRY_def compare_and_swap_def Let_def)
  ultimately show ?thesis using lock_owner_nonzero by blast
qed

theorem spin_lock_correct_witness:
  "spin_trylock (replicate 1001 7) 0x1234 = Some False \<and> spin_lock (replicate 1001 7) 0x1234 = None"
  using spin_lock_correct [of "replicate 1001 7" "0x1234"] by simp

end
