(* ===== verification/Mutex.thy ===== *)
theory Mutex
  imports Atomic
begin

text \<open>
  Mutexes: \<^verbatim>\<open>src/cp/nucleus/mutex.c\<close> and \<^verbatim>\<open>src/cp/include/mutex.h\<close>, with the tasks that
  use one.  The program counter of a task says what it does next; each step is one operation on
  shared data, and the processor may be given to another task between any two of them.  The run
  queue and the task that is running are part of the state, since waking and blocking change
  them.  The holder of \<^verbatim>\<open>queue_lock\<close> stands for the word in it (\<open>Atomic\<close>).
\<close>

datatype pc =
    Outside                 \<comment> \<open>about to try \<^verbatim>\<open>atomic_add_unless\<close> in \<^verbatim>\<open>__mutex_lock\<close>\<close>
  | Slow                    \<comment> \<open>\<^verbatim>\<open>__mutex_lock_slow\<close>: \<^verbatim>\<open>spin_lock\<close>\<close>
  | TryAgain                \<comment> \<open>\<^verbatim>\<open>atomic_add_unless\<close>\<close>
  | GotIt                   \<comment> \<open>\<^verbatim>\<open>spin_unlock\<close>, then return\<close>
  | Enqueue                 \<comment> \<open>\<^verbatim>\<open>list_add_tail\<close>\<close>
  | Queued                  \<comment> \<open>\<^verbatim>\<open>spin_unlock\<close>\<close>
  | Block                   \<comment> \<open>\<^verbatim>\<open>schedule_blocked\<close>\<close>
  | Blocked                 \<comment> \<open>in it, returns when the task is run again\<close>
  | Inside                  \<comment> \<open>has the mutex; \<^verbatim>\<open>__mutex_unlock\<close>: \<^verbatim>\<open>spin_lock\<close>\<close>
  | TestQueue               \<comment> \<open>\<^verbatim>\<open>list_empty\<close>\<close>
  | Release                 \<comment> \<open>\<^verbatim>\<open>atomic_inc\<close>\<close>
  | Leave                   \<comment> \<open>\<^verbatim>\<open>spin_unlock\<close>, then return\<close>
  | Dequeue                 \<comment> \<open>\<^verbatim>\<open>list_first_entry\<close>, \<^verbatim>\<open>list_del\<close>\<close>
  | Wake u64                \<comment> \<open>\<^verbatim>\<open>spin_unlock\<close>\<close>
  | MakeRunnable u64        \<comment> \<open>\<^verbatim>\<open>make_runnable\<close>, then return\<close>

record mutex =
  mstate :: u32
  queue_lock :: "u64 option"
  mqueue :: "u64 list"
  pcs :: "u64 \<Rightarrow> pc"
  running :: "u64 option"
  run_queue :: "u64 list"
  linked_twice :: bool

definition goto :: "u64 \<Rightarrow> pc \<Rightarrow> mutex \<Rightarrow> mutex" where
  "goto t p m = m\<lparr>pcs := (pcs m)(t := p)\<rparr>"

text \<open>\<^verbatim>\<open>UNLOCKED_MUTEX\<close> and \<^verbatim>\<open>mutex_init\<close>, with the tasks \<open>ts\<close> on the run queue.\<close>

definition mutex_init :: "u64 list \<Rightarrow> mutex" where
  "mutex_init ts = \<lparr>mstate = 1, queue_lock = None, mqueue = [], pcs = (\<lambda>_. Outside),
     running = None, run_queue = ts, linked_twice = False\<rparr>"

text \<open>\<^verbatim>\<open>atomic_add_unless (&lock->state, -1, 0)\<close>, which is one step by \<open>atomic_add_unless_atomic\<close>.\<close>

definition take_state :: "mutex \<Rightarrow> bool \<times> mutex" where
  "take_state m = (case atomic_add_unless [mstate m] (mstate m) (- 1) 0 of
     Some (True, Some v) \<Rightarrow> (True, m\<lparr>mstate := v\<rparr>)
   | _ \<Rightarrow> (False, m))"

definition lock_fast :: "u64 \<Rightarrow> mutex \<Rightarrow> mutex option" where
  "lock_fast t m = (let (ok, m) = take_state m in Some (goto t (if ok then Inside else Slow) m))"

text \<open>The spinlock: \<open>None\<close> while it is held by another task.\<close>

definition take_lock :: "u64 \<Rightarrow> pc \<Rightarrow> mutex \<Rightarrow> mutex option" where
  "take_lock t p m = (if queue_lock m = None then Some (goto t p (m\<lparr>queue_lock := Some t\<rparr>)) else None)"

definition drop_lock :: "u64 \<Rightarrow> pc \<Rightarrow> mutex \<Rightarrow> mutex option" where
  "drop_lock t p m = Some (goto t p (m\<lparr>queue_lock := None\<rparr>))"

text \<open>The steps of \<^verbatim>\<open>__mutex_lock_slow\<close>, and of \<^verbatim>\<open>__mutex_unlock\<close>.\<close>

fun lock_slow_step :: "pc \<Rightarrow> u64 \<Rightarrow> mutex \<Rightarrow> mutex option" where
  "lock_slow_step Slow t m = take_lock t TryAgain m"
| "lock_slow_step TryAgain t m = (let (ok, m) = take_state m in Some (goto t (if ok then GotIt else Enqueue) m))"
| "lock_slow_step GotIt t m = drop_lock t Inside m"
| "lock_slow_step Enqueue t m = Some (goto t Queued (m\<lparr>mqueue := mqueue m @ [t]\<rparr>))"
| "lock_slow_step Queued t m = drop_lock t Block m"
| "lock_slow_step Block t m = Some (goto t Blocked (m\<lparr>running := None\<rparr>))"
| "lock_slow_step Blocked t m = Some (goto t Inside m)"
| "lock_slow_step _ t m = None"

fun unlock_step :: "pc \<Rightarrow> u64 \<Rightarrow> mutex \<Rightarrow> mutex option" where
  "unlock_step Inside t m = take_lock t TestQueue m"
| "unlock_step TestQueue t m = Some (goto t (if mqueue m = [] then Release else Dequeue) m)"
| "unlock_step Release t m = map_option (\<lambda>v. goto t Leave (m\<lparr>mstate := v\<rparr>)) (atomic_inc [mstate m] (mstate m))"
| "unlock_step Leave t m = drop_lock t Outside m"
| "unlock_step Dequeue t m = (case mqueue m of [] \<Rightarrow> None | w # q \<Rightarrow> Some (goto t (Wake w) (m\<lparr>mqueue := q\<rparr>)))"
| "unlock_step (Wake w) t m = drop_lock t (MakeRunnable w) m"
| "unlock_step (MakeRunnable w) t m =
     Some (goto t Outside (if w \<in> set (run_queue m) then m\<lparr>linked_twice := True\<rparr> else m\<lparr>run_queue := run_queue m @ [w]\<rparr>))"
| "unlock_step _ t m = None"

definition task_step :: "u64 \<Rightarrow> mutex \<Rightarrow> mutex option" where
  "task_step t m = (case pcs m t of
     Outside \<Rightarrow> lock_fast t m
   | p \<Rightarrow> (case lock_slow_step p t m of Some m' \<Rightarrow> Some m' | None \<Rightarrow> unlock_step p t m))"

text \<open>
  What can happen: the running task makes a step, or is preempted, or the next task is run.  A
  run queue that a task was linked into twice is broken, and the run ends there.
\<close>

inductive mutex_step :: "mutex \<Rightarrow> mutex \<Rightarrow> bool" where
  task: "running m = Some t \<Longrightarrow> \<not> linked_twice m \<Longrightarrow> task_step t m = Some m' \<Longrightarrow> mutex_step m m'"
| preempt: "running m = Some t \<Longrightarrow> \<not> linked_twice m \<Longrightarrow> mutex_step m (m\<lparr>running := None, run_queue := run_queue m @ [t]\<rparr>)"
| dispatch: "running m = None \<Longrightarrow> \<not> linked_twice m \<Longrightarrow> run_queue m = t # q \<Longrightarrow> mutex_step m (m\<lparr>running := Some t, run_queue := q\<rparr>)"

inductive mutex_reach :: "u64 list \<Rightarrow> mutex \<Rightarrow> bool" for ts where
  reach_init: "mutex_reach ts (mutex_init ts)"
| reach_step: "mutex_reach ts m \<Longrightarrow> mutex_step m m' \<Longrightarrow> mutex_reach ts m'"

section \<open>The invariant\<close>

text \<open>The program counters of a task that holds the spinlock, and of one that has the mutex.\<close>

fun in_lock :: "pc \<Rightarrow> bool" where
  "in_lock TryAgain = True" | "in_lock GotIt = True" | "in_lock Enqueue = True" | "in_lock Queued = True"
| "in_lock TestQueue = True" | "in_lock Release = True" | "in_lock Leave = True" | "in_lock Dequeue = True"
| "in_lock (Wake w) = True" | "in_lock _ = False"

fun has_token :: "pc \<Rightarrow> bool" where
  "has_token GotIt = True" | "has_token Inside = True" | "has_token TestQueue = True"
| "has_token Release = True" | "has_token Dequeue = True" | "has_token _ = False"

fun waits :: "pc \<Rightarrow> bool" where
  "waits Queued = True" | "waits Block = True" | "waits Blocked = True" | "waits _ = False"

fun wakes :: "pc \<Rightarrow> u64 option" where
  "wakes (Wake w) = Some w" | "wakes (MakeRunnable w) = Some w" | "wakes _ = None"

text \<open>The mutex belongs to a task that is past the lock, or to one that was taken off the queue for it.\<close>

definition owner :: "mutex \<Rightarrow> u64 \<Rightarrow> bool" where
  "owner m t \<longleftrightarrow> has_token (pcs m t) \<or> waits (pcs m t) \<and> t \<notin> set (mqueue m)"

definition lock_inv :: "mutex \<Rightarrow> bool" where
  "lock_inv m \<longleftrightarrow> (\<forall>t. queue_lock m = Some t \<longleftrightarrow> in_lock (pcs m t))"

definition queue_inv :: "mutex \<Rightarrow> bool" where
  "queue_inv m \<longleftrightarrow> distinct (mqueue m) \<and> (\<forall>t \<in> set (mqueue m). waits (pcs m t))
     \<and> (\<forall>t. pcs m t = Queued \<longrightarrow> t \<in> set (mqueue m))"

definition token_inv :: "mutex \<Rightarrow> bool" where
  "token_inv m \<longleftrightarrow> mstate m = 1 \<and> (\<forall>t. \<not> owner m t) \<or> mstate m = 0 \<and> (\<exists>t. \<forall>u. owner m u \<longleftrightarrow> u = t)"

definition wake_inv :: "mutex \<Rightarrow> bool" where
  "wake_inv m \<longleftrightarrow> (\<forall>t w. wakes (pcs m t) = Some w \<longrightarrow> waits (pcs m w) \<and> w \<notin> set (mqueue m))
     \<and> (\<forall>t u. wakes (pcs m t) \<noteq> None \<and> wakes (pcs m u) \<noteq> None \<longrightarrow> t = u)"

text \<open>A blocked task that nobody has made runnable is not run.\<close>

definition blocked_inv :: "mutex \<Rightarrow> bool" where
  "blocked_inv m \<longleftrightarrow> (\<forall>t. pcs m t = Blocked \<and> (t \<in> set (mqueue m) \<or> (\<exists>u. wakes (pcs m u) = Some t)) \<longrightarrow>
      t \<notin> set (run_queue m) \<and> running m \<noteq> Some t)
     \<and> distinct (run_queue m) \<and> (\<forall>t. running m = Some t \<longrightarrow> t \<notin> set (run_queue m))"

definition mutex_inv :: "mutex \<Rightarrow> bool" where
  "mutex_inv m \<longleftrightarrow> lock_inv m \<and> queue_inv m \<and> token_inv m \<and> wake_inv m \<and> blocked_inv m"

lemma goto_simps [simp]:
  "pcs (goto t p m) = (pcs m)(t := p)" "mstate (goto t p m) = mstate m" "queue_lock (goto t p m) = queue_lock m"
  "mqueue (goto t p m) = mqueue m" "running (goto t p m) = running m" "run_queue (goto t p m) = run_queue m"
  "linked_twice (goto t p m) = linked_twice m"
  by (simp_all add: goto_def)

lemma take_state_eq: "take_state m = (if mstate m = 0 then (False, m) else (True, m\<lparr>mstate := mstate m - 1\<rparr>))"
  by (simp add: take_state_def atomic_add_unless_def add_unless_step)

lemma atomic_inc_eq: "atomic_inc [v] v = Some (v + 1)"
  by (simp add: atomic_inc_def atomic_add_return_def compare_and_swap_def)

lemma init_inv: "distinct ts \<Longrightarrow> mutex_inv (mutex_init ts)"
  by (simp add: mutex_inv_def mutex_init_def lock_inv_def queue_inv_def token_inv_def wake_inv_def blocked_inv_def owner_def)

lemma preempt_inv:
  assumes "mutex_inv m" and "running m = Some t"
  shows "mutex_inv (m\<lparr>running := None, run_queue := run_queue m @ [t]\<rparr>)"
  using assms by (auto simp: mutex_inv_def lock_inv_def queue_inv_def token_inv_def wake_inv_def blocked_inv_def owner_def)

lemma dispatch_inv:
  assumes "mutex_inv m" and "running m = None" and "run_queue m = t # q"
  shows "mutex_inv (m\<lparr>running := Some t, run_queue := q\<rparr>)"
  using assms by (auto simp: mutex_inv_def lock_inv_def queue_inv_def token_inv_def wake_inv_def blocked_inv_def owner_def)

text \<open>A step of the running task.\<close>

lemma task_step_cases:
  assumes "task_step t m = Some m'"
  obtains
    (fast) "pcs m t = Outside" "mstate m \<noteq> 0" "m' = goto t Inside (m\<lparr>mstate := mstate m - 1\<rparr>)"
  | (slow) "pcs m t = Outside" "mstate m = 0" "m' = goto t Slow m"
  | (lock) p where "pcs m t = Slow \<and> p = TryAgain \<or> pcs m t = Inside \<and> p = TestQueue" "queue_lock m = None"
      "m' = goto t p (m\<lparr>queue_lock := Some t\<rparr>)"
  | (again) "pcs m t = TryAgain" "mstate m \<noteq> 0" "m' = goto t GotIt (m\<lparr>mstate := mstate m - 1\<rparr>)"
  | (again_not) "pcs m t = TryAgain" "mstate m = 0" "m' = goto t Enqueue m"
  | (unlock) p where "(pcs m t, p) \<in> {(GotIt, Inside), (Queued, Block), (Leave, Outside)} \<or> (\<exists>w. pcs m t = Wake w \<and> p = MakeRunnable w)"
      "m' = goto t p (m\<lparr>queue_lock := None\<rparr>)"
  | (queue) "pcs m t = Enqueue" "m' = goto t Queued (m\<lparr>mqueue := mqueue m @ [t]\<rparr>)"
  | (block) "pcs m t = Block" "m' = goto t Blocked (m\<lparr>running := None\<rparr>)"
  | (resume) "pcs m t = Blocked" "m' = goto t Inside m"
  | (test) p where "pcs m t = TestQueue" "p \<in> {Release, Dequeue}" "m' = goto t p m"
  | (release) "pcs m t = Release" "m' = goto t Leave (m\<lparr>mstate := mstate m + 1\<rparr>)"
  | (dequeue) w q where "pcs m t = Dequeue" "mqueue m = w # q" "m' = goto t (Wake w) (m\<lparr>mqueue := q\<rparr>)"
  | (twice) w where "pcs m t = MakeRunnable w" "w \<in> set (run_queue m)" "m' = goto t Outside (m\<lparr>linked_twice := True\<rparr>)"
  | (wake) w where "pcs m t = MakeRunnable w" "w \<notin> set (run_queue m)" "m' = goto t Outside (m\<lparr>run_queue := run_queue m @ [w]\<rparr>)"
  using assms
  by (cases "pcs m t")
    (auto simp: task_step_def lock_fast_def take_lock_def drop_lock_def take_state_eq atomic_inc_eq Let_def
      split: if_splits list.splits)

lemma owner_unique: "token_inv m \<Longrightarrow> owner m t \<Longrightarrow> owner m u \<Longrightarrow> t = u"
  by (auto simp: token_inv_def)

lemma lock_unique: "lock_inv m \<Longrightarrow> in_lock (pcs m t) \<Longrightarrow> in_lock (pcs m u) \<Longrightarrow> t = u"
  unfolding lock_inv_def by (metis option.inject)

lemma lock_keep:
  assumes "lock_inv m" and "queue_lock m' = queue_lock m" and "pcs m' = (pcs m)(t := p)" and "in_lock p = in_lock (pcs m t)"
  shows "lock_inv m'"
  using assms by (simp add: lock_inv_def)

lemma lock_taken:
  assumes "lock_inv m" and "queue_lock m = None" and "queue_lock m' = Some t" and "pcs m' = (pcs m)(t := p)" and "in_lock p"
  shows "lock_inv m'"
  using assms by (auto simp: lock_inv_def)

lemma lock_dropped:
  assumes "lock_inv m" and "in_lock (pcs m t)" and "queue_lock m' = None" and "pcs m' = (pcs m)(t := p)" and "\<not> in_lock p"
  shows "lock_inv m'"
proof -
  have "in_lock (pcs m u) \<Longrightarrow> u = t" for u using lock_unique [OF assms(1,2)] by metis
  with assms(3-5) show ?thesis by (auto simp: lock_inv_def)
qed

lemma step_lock_inv:
  assumes "mutex_inv m" and "task_step t m = Some m'"
  shows "lock_inv m'"
proof -
  have L: "lock_inv m" using assms(1) by (simp add: mutex_inv_def)
  from assms(2) show ?thesis
  proof (cases rule: task_step_cases)
    case (lock p)
    then show ?thesis by (intro lock_taken [OF L, of m' t p]) auto
  next
    case (unlock p)
    then show ?thesis by (intro lock_dropped [OF L, of t m' p]) auto
  next
    case (test p)
    then show ?thesis by (intro lock_keep [OF L, of m' t p]) auto
  qed (intro lock_keep [OF L, of m' t "pcs m' t"]; simp)+
qed

text \<open>A blocked task that is run again has been taken off the queue and been woken.\<close>

lemma resumed:
  assumes "mutex_inv m" and "pcs m t = Blocked" and "running m = Some t"
  shows "t \<notin> set (mqueue m)" "wakes (pcs m u) \<noteq> Some t"
  using assms unfolding mutex_inv_def blocked_inv_def by blast+

lemma step_queue_inv:
  assumes "mutex_inv m" and "task_step t m = Some m'" and "running m = Some t"
  shows "queue_inv m'"
proof -
  have Q: "distinct (mqueue m)" "\<And>u. u \<in> set (mqueue m) \<Longrightarrow> waits (pcs m u)" "\<And>u. pcs m u = Queued \<Longrightarrow> u \<in> set (mqueue m)"
    using assms(1) by (auto simp: mutex_inv_def queue_inv_def)
  have T: "t \<notin> set (mqueue m) \<or> waits (pcs m t)" using Q(2) by blast
  from assms(2) show ?thesis
  proof (cases rule: task_step_cases)
    case (lock p)
    with T have "t \<notin> set (mqueue m)" "p \<noteq> Queued" by auto
    with lock Q show ?thesis by (auto simp: queue_inv_def)
  next
    case (unlock p)
    with T have "t \<notin> set (mqueue m) \<or> waits p" "p \<noteq> Queued" by auto
    with unlock Q show ?thesis by (auto simp: queue_inv_def)
  next
    case (dequeue w q)
    have "pcs m w \<noteq> Queued"
    proof
      assume "pcs m w = Queued"
      then have "w = t" using lock_unique [of m w t] assms(1) dequeue(1) by (simp add: mutex_inv_def)
      with \<open>pcs m w = Queued\<close> dequeue(1) show False by simp
    qed
    with dequeue Q T show ?thesis by (auto simp: queue_inv_def)
  next
    case resume
    with resumed(1) [OF assms(1) _ assms(3)] Q show ?thesis by (auto simp: queue_inv_def)
  qed (use Q T in \<open>auto simp: queue_inv_def\<close>)
qed

text \<open>Where the token is, after a step that changes the program counter of one task.\<close>

lemma owner_goto: "owner (goto t p m) u \<longleftrightarrow> (if u = t then has_token p \<or> waits p \<and> t \<notin> set (mqueue m) else owner m u)"
  by (simp add: owner_def)

lemma owner_upd [simp]:
  "owner (m\<lparr>mstate := v\<rparr>) u = owner m u" "owner (m\<lparr>queue_lock := l\<rparr>) u = owner m u" "owner (m\<lparr>running := r\<rparr>) u = owner m u"
  "owner (m\<lparr>run_queue := q\<rparr>) u = owner m u" "owner (m\<lparr>linked_twice := b\<rparr>) u = owner m u"
  by (simp_all add: owner_def)

lemma token_same:
  assumes "token_inv m" and "mstate m' = mstate m" and "\<And>u. owner m' u = owner m u"
  shows "token_inv m'"
  using assms by (simp add: token_inv_def)

lemma step_token_inv:
  assumes "mutex_inv m" and "task_step t m = Some m'" and "running m = Some t"
  shows "token_inv m'"
proof -
  have tok: "token_inv m" and Q: "distinct (mqueue m)" "\<And>u. u \<in> set (mqueue m) \<Longrightarrow> waits (pcs m u)" "\<And>u. pcs m u = Queued \<Longrightarrow> u \<in> set (mqueue m)"
    using assms(1) by (auto simp: mutex_inv_def queue_inv_def)
  have T: "t \<notin> set (mqueue m) \<or> waits (pcs m t)" using Q(2) by blast
  from assms(2) show ?thesis
  proof (cases rule: task_step_cases)
    case fast
    then have "\<not> owner m t" "mstate m = 1" "\<forall>u. \<not> owner m u" using tok by (auto simp: token_inv_def)
    with fast show ?thesis by (auto simp: token_inv_def owner_goto)
  next
    case again
    then have "\<not> owner m t" "mstate m = 1" "\<forall>u. \<not> owner m u" using tok by (auto simp: token_inv_def)
    with again show ?thesis by (auto simp: token_inv_def owner_goto)
  next
    case (lock p)
    then have "owner m t = has_token p" "\<not> waits p" using T by (auto simp: owner_def)
    with lock(3) show ?thesis by (intro token_same [OF tok]) (auto simp: owner_goto)
  next
    case (unlock p)
    then have "owner m t \<longleftrightarrow> has_token p \<or> waits p \<and> t \<notin> set (mqueue m)" using T Q(3) [of t] by (auto simp: owner_def)
    with unlock(2) show ?thesis by (intro token_same [OF tok]) (auto simp: owner_goto)
  next
    case queue
    with T have "\<not> owner m t" by (auto simp: owner_def)
    with queue show ?thesis by (intro token_same [OF tok]) (auto simp: owner_def)
  next
    case resume
    with resumed(1) [OF assms(1) _ assms(3)] have "owner m t" by (simp add: owner_def)
    with resume show ?thesis by (intro token_same [OF tok]) (auto simp: owner_goto)
  next
    case release
    then have "owner m t" by (simp add: owner_def)
    then have "mstate m = 0" "\<forall>u. owner m u \<longleftrightarrow> u = t" using tok by (auto simp: token_inv_def)
    with release T show ?thesis by (auto simp: token_inv_def owner_goto)
  next
    case (dequeue w q)
    then have "owner m t" by (simp add: owner_def)
    then have o: "mstate m = 0" "\<forall>u. owner m u \<longleftrightarrow> u = t" using tok by (auto simp: token_inv_def)
    have w: "waits (pcs m w)" "w \<noteq> t" "w \<notin> set q"
      using dequeue(1,2) Q(1) Q(2) [of w] by auto
    have "owner m' u \<longleftrightarrow> u = w" for u
      using dequeue w o(2) [rule_format, of u] by (auto simp: owner_def)
    with o(1) dequeue(3) show ?thesis by (auto simp: token_inv_def)
  qed (use T in \<open>intro token_same [OF tok]; auto simp: owner_goto owner_def\<close>)+
qed

lemma step_wake_inv:
  assumes "mutex_inv m" and "task_step t m = Some m'" and "running m = Some t"
  shows "wake_inv m'"
proof -
  have tok: "token_inv m" and Q: "distinct (mqueue m)" "\<And>u. u \<in> set (mqueue m) \<Longrightarrow> waits (pcs m u)"
    and W: "\<And>u w. wakes (pcs m u) = Some w \<Longrightarrow> waits (pcs m w) \<and> w \<notin> set (mqueue m)"
      "\<And>u v. wakes (pcs m u) \<noteq> None \<Longrightarrow> wakes (pcs m v) \<noteq> None \<Longrightarrow> u = v"
    using assms(1) unfolding mutex_inv_def queue_inv_def wake_inv_def by blast+
  have keep: "wake_inv m'" if "\<And>u. wakes (pcs m' u) \<noteq> None \<Longrightarrow> wakes (pcs m' u) = wakes (pcs m u)"
    "\<And>u w. wakes (pcs m u) = Some w \<Longrightarrow> waits (pcs m' w) \<and> w \<notin> set (mqueue m')"
    unfolding wake_inv_def
  proof (intro conjI allI impI)
    fix u w assume u: "wakes (pcs m' u) = Some w"
    with that(1) [of u] have "wakes (pcs m u) = Some w" by simp
    then show "waits (pcs m' w)" "w \<notin> set (mqueue m')" using that(2) by blast+
  next
    fix u v assume "wakes (pcs m' u) \<noteq> None \<and> wakes (pcs m' v) \<noteq> None"
    with that(1) [of u] that(1) [of v] show "u = v" using W(2) [of u v] by simp
  qed
  from assms(2) show ?thesis
  proof (cases rule: task_step_cases)
    case (dequeue w q)
    have "owner m t" using dequeue(1) by (simp add: owner_def)
    have none: "wakes (pcs m u) = None" for u
    proof (rule ccontr)
      assume "wakes (pcs m u) \<noteq> None"
      then obtain x where "wakes (pcs m u) = Some x" by blast
      with W(1) have "waits (pcs m x)" "owner m x" by (auto simp: owner_def)
      with owner_unique [OF tok \<open>owner m t\<close>] dequeue(1) show False by auto
    qed
    have "w \<noteq> t" "waits (pcs m w)" "w \<notin> set q" using dequeue(1,2) Q(1) Q(2) [of w] by auto
    with dequeue(3) none show ?thesis by (auto simp: wake_inv_def)
  next
    case resume
    with resumed(2) [OF assms(1) _ assms(3)] W(1) show ?thesis by (intro keep) (auto split: if_splits)
  qed (intro keep; use W(1) in \<open>fastforce split: if_splits\<close>)+
qed

lemma step_blocked_inv:
  assumes "mutex_inv m" and "task_step t m = Some m'" and "running m = Some t"
  shows "blocked_inv m'"
proof -
  have Q: "distinct (mqueue m)" "\<And>u. u \<in> set (mqueue m) \<Longrightarrow> waits (pcs m u)"
    and W: "\<And>u w. wakes (pcs m u) = Some w \<Longrightarrow> waits (pcs m w) \<and> w \<notin> set (mqueue m)"
      "\<And>u v. wakes (pcs m u) \<noteq> None \<Longrightarrow> wakes (pcs m v) \<noteq> None \<Longrightarrow> u = v"
    and B: "\<And>u. pcs m u = Blocked \<Longrightarrow> u \<in> set (mqueue m) \<or> (\<exists>v. wakes (pcs m v) = Some u) \<Longrightarrow> u \<notin> set (run_queue m) \<and> running m \<noteq> Some u"
      "distinct (run_queue m)" "t \<notin> set (run_queue m)"
    using assms(1,3) unfolding mutex_inv_def queue_inv_def wake_inv_def blocked_inv_def by blast+
  have keep: "blocked_inv m'" if "run_queue m' = run_queue m" "running m' = running m \<or> running m' = None"
    "\<And>u. pcs m' u = Blocked \<Longrightarrow> pcs m u = Blocked \<or> u = t \<and> running m' = None"
    "\<And>u. u \<noteq> t \<Longrightarrow> pcs m u = Blocked \<Longrightarrow> u \<in> set (mqueue m') \<or> (\<exists>v. wakes (pcs m' v) = Some u) \<Longrightarrow> u \<in> set (mqueue m) \<or> (\<exists>v. wakes (pcs m v) = Some u)"
    "pcs m' t \<noteq> Blocked \<or> running m' = None"
    unfolding blocked_inv_def
  proof (intro conjI allI impI)
    fix u assume u: "pcs m' u = Blocked \<and> (u \<in> set (mqueue m') \<or> (\<exists>v. wakes (pcs m' v) = Some u))"
    show "u \<notin> set (run_queue m')"
      using u that(1) that(3) [of u] that(4) [of u] B(1) [of u] B(3) by (cases "u = t") auto
    show "running m' \<noteq> Some u"
      using u that(2) that(3) [of u] that(4) [of u] that(5) B(1) [of u] assms(3) by (cases "u = t") auto
  qed (use that(1,2) B assms(3) in auto)
  from assms(2) show ?thesis
  proof (cases rule: task_step_cases)
    case (dequeue w q)
    then show ?thesis by (intro keep) (auto split: if_splits)
  next
    case (unlock p)
    have p: "wakes (pcs m t) = wakes p" "p \<noteq> Blocked" using unlock(1) by auto
    have w: "(\<exists>v. wakes (pcs m' v) = Some u) \<longleftrightarrow> (\<exists>v. wakes (pcs m v) = Some u)" for u
    proof -
      have "wakes (pcs m' v) = wakes (pcs m v)" for v using unlock(2) p(1) by simp
      then show ?thesis by simp
    qed
    show ?thesis
    proof (rule keep)
      show "pcs m' u = Blocked \<Longrightarrow> pcs m u = Blocked \<or> u = t \<and> running m' = None" for u
        using unlock(2) p(2) by (auto split: if_splits)
    qed (use unlock(2) p(2) w in auto)
  next
    case (wake w)
    have u: "wakes (pcs m v) = Some x \<Longrightarrow> v = t \<and> x = w" for v x
      using W(2) [of v t] wake(1) by auto
    have w: "w \<noteq> t" "waits (pcs m w)" "w \<notin> set (mqueue m)" using W(1) [of t w] wake(1) by auto
    have n: "x \<notin> set (run_queue m') \<and> running m' \<noteq> Some x"
      if x: "pcs m' x = Blocked" "x \<in> set (mqueue m') \<or> (\<exists>v. wakes (pcs m' v) = Some x)" for x
    proof -
      have "x \<noteq> t" "pcs m x = Blocked" "x \<in> set (mqueue m)" using x wake(3) u by (auto split: if_splits)
      with B(1) [of x] w(3) wake(3) show ?thesis by auto
    qed
    show ?thesis
      unfolding blocked_inv_def using n wake(2,3) B(2,3) assms(3) w(1) by auto
  qed (intro keep; auto split: if_splits)+
qed

lemma mutex_step_inv:
  assumes "mutex_step m m'" and "mutex_inv m"
  shows "mutex_inv m'"
  using assms(1)
proof cases
  case (task t)
  with assms(2) show ?thesis
    unfolding mutex_inv_def [of m'] by (intro conjI step_lock_inv step_queue_inv step_token_inv step_wake_inv step_blocked_inv)
qed (use assms(2) preempt_inv dispatch_inv in auto)

lemma reach_inv: "mutex_reach ts m \<Longrightarrow> distinct ts \<Longrightarrow> mutex_inv m"
  by (induction rule: mutex_reach.induct) (simp_all add: init_inv mutex_step_inv)

section \<open>Properties\<close>

text \<open>
  (C6) At most one task has the mutex, in every state that any number of tasks can reach by
  locking and unlocking it in any interleaving.
\<close>

theorem mutex_exclusion:
  assumes "mutex_reach ts m" and "distinct ts" and "pcs m t = Inside" and "pcs m u = Inside"
  shows "t = u"
proof -
  have "token_inv m" using reach_inv [OF assms(1,2)] by (simp add: mutex_inv_def)
  then show ?thesis by (rule owner_unique) (simp_all add: owner_def assms(3,4))
qed

text \<open>Runs are computed from what is chosen at each step.\<close>

datatype choice = Go | Preempt | Dispatch

definition pick :: "choice \<Rightarrow> mutex \<Rightarrow> mutex option" where
  "pick c m = (if linked_twice m then None
     else case (c, running m) of
       (Go, Some t) \<Rightarrow> task_step t m
     | (Preempt, Some t) \<Rightarrow> Some (m\<lparr>running := None, run_queue := run_queue m @ [t]\<rparr>)
     | (Dispatch, None) \<Rightarrow> (case run_queue m of [] \<Rightarrow> None | t # q \<Rightarrow> Some (m\<lparr>running := Some t, run_queue := q\<rparr>))
     | _ \<Rightarrow> None)"

lemma pick_step: "pick c m = Some m' \<Longrightarrow> mutex_step m m'"
  by (auto simp: pick_def intro: mutex_step.intros split: if_splits choice.splits option.splits list.splits)

fun pick_all :: "choice list \<Rightarrow> mutex \<Rightarrow> mutex option" where
  "pick_all [] m = Some m"
| "pick_all (c # cs) m = (case pick c m of None \<Rightarrow> None | Some m \<Rightarrow> pick_all cs m)"

lemma pick_all_reach: "mutex_reach ts m \<Longrightarrow> pick_all cs m = Some m' \<Longrightarrow> mutex_reach ts m'"
  by (induction cs arbitrary: m) (auto split: option.splits dest: pick_step intro: reach_step)

lemmas run_simps = pick_def task_step_def lock_fast_def take_lock_def drop_lock_def take_state_eq goto_def mutex_init_def

theorem mutex_exclusion_witness:
  "\<exists>m. mutex_reach [1, 2] m \<and> pcs m 1 = Inside \<and> pcs m 2 = Slow \<and> pcs m 2 \<noteq> Inside"
proof -
  obtain m where m: "pick_all [Dispatch, Go, Preempt, Dispatch, Go] (mutex_init [1, 2]) = Some m" "pcs m 1 = Inside" "pcs m 2 = Slow"
    by (simp add: run_simps)
  from pick_all_reach [OF reach_init m(1)] have r: "mutex_reach [1, 2] m" .
  have "pcs m 2 \<noteq> Inside" using mutex_exclusion [OF r _ m(2), of 2] by auto
  with r m show ?thesis by blast
qed

text \<open>
  (C37) But a task that is preempted between releasing the spinlock and blocking can be woken
  before it blocks: the task that unlocks links it into the run queue it is on already.
\<close>

theorem mutex_double_wakeup:
  assumes "a \<noteq> b"
  shows "\<exists>m. mutex_reach [a, b] m \<and> linked_twice m \<and> pcs m b = Block \<and> b \<in> set (run_queue m)"
proof -
  let ?cs = "[Dispatch, Go, Preempt, Dispatch, Go, Go, Go, Go, Go, Preempt, Dispatch, Go, Go, Go, Go, Go]"
  obtain m where m: "pick_all ?cs (mutex_init [a, b]) = Some m" "linked_twice m \<and> pcs m b = Block \<and> b \<in> set (run_queue m)"
    using assms by (simp add: run_simps)
  from pick_all_reach [OF reach_init m(1)] m(2) show ?thesis by blast
qed

theorem mutex_double_wakeup_witness:
  "\<exists>m. mutex_reach [0x1000, 0x2000] m \<and> linked_twice m"
  using mutex_double_wakeup [of "0x1000" "0x2000"] by auto

end
