(* ===== verification/Guest.thy ===== *)
theory Guest
  imports Dat Spool
begin

text \<open>
  The virtual machine of a guest: \<^verbatim>\<open>src/cp/include/vcpu.h\<close>,
  \<^verbatim>\<open>src/cp/include/sie.h\<close>, \<^verbatim>\<open>src/cp/include/vdevice.h\<close>, the channel
  structures of \<^verbatim>\<open>src/include/channel.h\<close>, and of \<^verbatim>\<open>src/cp/guest\<close> the files
  \<^verbatim>\<open>exception.c\<close>, \<^verbatim>\<open>system.c\<close>, \<^verbatim>\<open>reset.c\<close> and the interruption part of
  \<^verbatim>\<open>run.c\<close>.  Structures with bit fields are words, with the bit fields as accessors;
  the translation of guest addresses done by the hardware is the field \<open>xlate\<close> of a system.
  \<^verbatim>\<open>con_printf\<close> formats a text and drops it, so it has no part in the model; mutexes make
  the operations one step.
\<close>

section \<open>Words and bytes of storage\<close>

definition put32 :: "u32 \<Rightarrow> u8 list" where
  "put32 w = [ucast (drop_bit 24 w), ucast (drop_bit 16 w), ucast (drop_bit 8 w), ucast w]"

definition put64 :: "u64 \<Rightarrow> u8 list" where
  "put64 w = put32 (ucast (drop_bit 32 w)) @ put32 (ucast w)"

definition get32 :: "u8 list \<Rightarrow> u32" where
  "get32 bs = push_bit 24 (ucast (bs ! 0)) OR push_bit 16 (ucast (bs ! 1)) OR push_bit 8 (ucast (bs ! 2)) OR ucast (bs ! 3)"

definition get64 :: "u8 list \<Rightarrow> u64" where
  "get64 bs = push_bit 32 (ucast (get32 bs)) OR ucast (get32 (drop 4 bs))"

text \<open>The bit field of \<open>n\<close> bits whose lowest is bit \<open>k\<close>, counted from the right.\<close>

definition getf :: "nat \<Rightarrow> nat \<Rightarrow> 'a::len word \<Rightarrow> 'a word" where
  "getf k n w = take_bit n (drop_bit k w)"

definition setf :: "nat \<Rightarrow> nat \<Rightarrow> 'a::len word \<Rightarrow> 'a word \<Rightarrow> 'a word" where
  "setf k n v w = (w AND NOT (push_bit k (mask n))) OR push_bit k (take_bit n v)"

definition fill_zero :: "u64 \<Rightarrow> nat \<Rightarrow> (u64 \<Rightarrow> u8) \<Rightarrow> u64 \<Rightarrow> u8" where
  "fill_zero a n m = (\<lambda>x. if unat (x - a) < n then 0 else m x)"

section \<open>The virtual processor\<close>

text \<open>A PSW is two doublewords.\<close>

record guest_psw =
  psw_mask :: u64
  psw_addr :: u64

definition psw_io :: "guest_psw \<Rightarrow> bool" where "psw_io p \<longleftrightarrow> getf 57 1 (psw_mask p) \<noteq> 0"
definition psw_ex :: "guest_psw \<Rightarrow> bool" where "psw_ex p \<longleftrightarrow> getf 56 1 (psw_mask p) \<noteq> 0"
definition psw_m :: "guest_psw \<Rightarrow> bool" where "psw_m p \<longleftrightarrow> getf 50 1 (psw_mask p) \<noteq> 0"
definition psw_w :: "guest_psw \<Rightarrow> bool" where "psw_w p \<longleftrightarrow> getf 49 1 (psw_mask p) \<noteq> 0"
definition psw_cc :: "guest_psw \<Rightarrow> u64" where "psw_cc p = getf 44 2 (psw_mask p)"
definition psw_ea :: "guest_psw \<Rightarrow> u64" where "psw_ea p = getf 32 1 (psw_mask p)"
definition psw_ba :: "guest_psw \<Rightarrow> u64" where "psw_ba p = getf 31 1 (psw_mask p)"

definition psw_bytes :: "guest_psw \<Rightarrow> u8 list" where
  "psw_bytes p = put64 (psw_mask p) @ put64 (psw_addr p)"

definition psw_of_bytes :: "u8 list \<Rightarrow> guest_psw" where
  "psw_of_bytes bs = \<lparr>psw_mask = get64 bs, psw_addr = get64 (drop 8 bs)\<rparr>"

record guest_regs =
  gpr :: "u64 list"
  ar :: "u32 list"
  fpr :: "u64 list"
  fpcr :: u32

datatype virt_cpustate = GUEST_STOPPED | GUEST_OPERATING | GUEST_LOAD | GUEST_CHECKSTOP

record vio_int =
  vi_addr :: u64
  vi_ssid :: u32
  vi_param :: u32
  vi_intid :: u32

text \<open>\<^verbatim>\<open>sizeof(struct vio_int)\<close>: a list head and three 32-bit fields, aligned to 8.\<close>

definition sizeof_vio_int :: int where "sizeof_vio_int = 32"

record virt_cpu =
  cpuflags :: u32
  prefix :: u32
  icptcode :: u8
  ipa :: u16
  ipb :: u32
  gpsw :: guest_psw
  gcr :: "u64 list"
  regs :: guest_regs
  cpuid :: u64
  state :: virt_cpustate
  int_io :: "vio_int list list"

definition CPUSTAT_ZARCH :: u32 where "CPUSTAT_ZARCH = 0x800"
definition CPUSTAT_STOP_INT :: u32 where "CPUSTAT_STOP_INT = 0x4000000"

definition VCPU_ZARCH :: "virt_cpu \<Rightarrow> bool" where
  "VCPU_ZARCH cpu \<longleftrightarrow> cpuflags cpu AND CPUSTAT_ZARCH \<noteq> 0"

definition guest_gpr :: "virt_cpu \<Rightarrow> nat \<Rightarrow> u64" where
  "guest_gpr cpu n = (let ret = gpr (regs cpu) ! n in if VCPU_ZARCH cpu then ret else ret AND 0xffffffff)"

definition guest_addr :: "virt_cpu \<Rightarrow> u64 \<Rightarrow> nat \<Rightarrow> nat \<Rightarrow> u64 result" where
  "guest_addr cpu dis x b =
     (let mode = push_bit 1 (psw_ea (gpsw cpu)) OR psw_ba (gpsw cpu);
          sum = dis + (if x \<noteq> 0 then guest_gpr cpu x else 0) + (if b \<noteq> 0 then guest_gpr cpu b else 0)
      in if mode = 3 then Ok sum
         else if mode = 1 then Ok (sum AND 0x7fffffff)
         else if mode = 0 then Ok (sum AND 0x00ffffff)
         else Stop Bug)"

definition IP_TO_RAW :: "virt_cpu \<Rightarrow> u64" where
  "IP_TO_RAW cpu = push_bit 32 (ucast (ipa cpu)) OR ucast (ipb cpu)"

definition RAW_S_1 :: "virt_cpu \<Rightarrow> u64 result" where
  "RAW_S_1 cpu =
     (let raw = IP_TO_RAW cpu
      in guest_addr cpu (drop_bit 16 raw AND 0xfff) (unat (drop_bit 28 raw AND 0xf)) 0)"

section \<open>Virtual devices\<close>

text \<open>The structures of the channel subsystem, as their words.\<close>

record pmcw =
  interrupt_param :: u32
  pw1 :: u32
  pw2 :: u32
  pw3 :: u32
  pw4 :: u32
  pw5 :: u32
  pw6 :: u32

definition pmcw_isc :: "pmcw \<Rightarrow> u32" where "pmcw_isc p = getf 27 3 (pw1 p)"
definition pmcw_e :: "pmcw \<Rightarrow> u32" where "pmcw_e p = getf 23 1 (pw1 p)"
definition pmcw_v :: "pmcw \<Rightarrow> u32" where "pmcw_v p = getf 16 1 (pw1 p)"
definition pmcw_dev_num :: "pmcw \<Rightarrow> u32" where "pmcw_dev_num p = getf 0 16 (pw1 p)"

record scsw =
  sw0 :: u32
  sw_addr :: u32
  sw2 :: u32

definition sw_fc :: "scsw \<Rightarrow> u32" where "sw_fc s = getf 12 3 (sw0 s)"
definition sw_ac :: "scsw \<Rightarrow> u32" where "sw_ac s = getf 5 7 (sw0 s)"
definition sw_sc :: "scsw \<Rightarrow> u32" where "sw_sc s = getf 0 5 (sw0 s)"
definition set_fc :: "u32 \<Rightarrow> scsw \<Rightarrow> scsw" where "set_fc v s = s\<lparr>sw0 := setf 12 3 v (sw0 s)\<rparr>"
definition set_ac :: "u32 \<Rightarrow> scsw \<Rightarrow> scsw" where "set_ac v s = s\<lparr>sw0 := setf 5 7 v (sw0 s)\<rparr>"
definition set_sc :: "u32 \<Rightarrow> scsw \<Rightarrow> scsw" where "set_sc v s = s\<lparr>sw0 := setf 0 5 v (sw0 s)\<rparr>"
definition sw_f :: "scsw \<Rightarrow> u32" where "sw_f s = getf 23 1 (sw0 s)"
definition sw_dev_status :: "scsw \<Rightarrow> u32" where "sw_dev_status s = getf 24 8 (sw2 s)"
definition sw_sch_status :: "scsw \<Rightarrow> u32" where "sw_sch_status s = getf 16 8 (sw2 s)"
definition sw_count :: "scsw \<Rightarrow> u32" where "sw_count s = getf 0 16 (sw2 s)"

definition set_f :: "u32 \<Rightarrow> scsw \<Rightarrow> scsw" where "set_f v s = s\<lparr>sw0 := setf 23 1 v (sw0 s)\<rparr>"
definition set_addr :: "u32 \<Rightarrow> scsw \<Rightarrow> scsw" where "set_addr v s = s\<lparr>sw_addr := v\<rparr>"
definition set_dev_status :: "u32 \<Rightarrow> scsw \<Rightarrow> scsw" where "set_dev_status v s = s\<lparr>sw2 := setf 24 8 v (sw2 s)\<rparr>"
definition set_sch_status :: "u32 \<Rightarrow> scsw \<Rightarrow> scsw" where "set_sch_status v s = s\<lparr>sw2 := setf 16 8 v (sw2 s)\<rparr>"
definition set_count :: "u32 \<Rightarrow> scsw \<Rightarrow> scsw" where "set_count v s = s\<lparr>sw2 := setf 0 16 v (sw2 s)\<rparr>"

definition FC_CLEAR :: u32 where "FC_CLEAR = 1"
definition FC_HALT :: u32 where "FC_HALT = 2"
definition FC_START :: u32 where "FC_START = 4"
definition AC_RESUME :: u32 where "AC_RESUME = 0x40"
definition AC_START :: u32 where "AC_START = 0x20"
definition AC_HALT :: u32 where "AC_HALT = 0x10"
definition AC_CLEAR :: u32 where "AC_CLEAR = 8"
definition AC_SCH_ACT :: u32 where "AC_SCH_ACT = 4"
definition AC_DEV_ACT :: u32 where "AC_DEV_ACT = 2"
definition AC_SUSP :: u32 where "AC_SUSP = 1"
definition SC_STATUS :: u32 where "SC_STATUS = 1"
definition SC_SECONDARY :: u32 where "SC_SECONDARY = 2"
definition SC_PRIMARY :: u32 where "SC_PRIMARY = 4"
definition SC_INTERMED :: u32 where "SC_INTERMED = 8"
definition SC_ALERT :: u32 where "SC_ALERT = 0x10"

definition zero_scsw :: scsw where "zero_scsw = \<lparr>sw0 = 0, sw_addr = 0, sw2 = 0\<rparr>"

text \<open>The eight words of an operation request block.\<close>

record orb =
  orb_param :: u32
  orb_w1 :: u32
  orb_addr :: u32
  orb_rest :: "u32 list"

definition orb_f :: "orb \<Rightarrow> u32" where "orb_f b = getf 23 1 (orb_w1 b)"

datatype vdevtype = VDEV_INVAL | VDEV_CONS | VDEV_DED | VDEV_SPOOL | VDEV_MDISK | VDEV_LINK

text \<open>
  What a device is backed by (the union of \<^verbatim>\<open>struct virt_device\<close>): a real device, by its
  address, or a spool file with a vector of operations.  There is one vector.
\<close>

datatype spool_ops = spool_cons_ops

datatype backing = No_backing | Dedicated u64 | Spooled "spool_file option" "spool_ops option"

record virt_device =
  vtype :: vdevtype
  sch :: u32
  vd_type :: u16
  vd_model :: u8
  backed :: backing
  sense :: u8
  pmcw :: pmcw
  scsw :: scsw
  orb :: orb

record virt_sys =
  cpu :: virt_cpu
  storage_size :: u64
  auth :: u8
  print_ts :: bool
  guest_pages :: "u64 list"
  virt_devs :: "virt_device list"
  xlate :: "u64 \<Rightarrow> u64 option"
  storage :: "u64 \<Rightarrow> u8"
  heap :: mem

definition set_state :: "virt_cpustate \<Rightarrow> virt_sys \<Rightarrow> virt_sys" where
  "set_state st s = s\<lparr>cpu := (cpu s)\<lparr>state := st\<rparr>\<rparr>"

definition set_cc :: "u64 \<Rightarrow> virt_sys \<Rightarrow> virt_sys" where
  "set_cc cc s = (let p = gpsw (cpu s) in s\<lparr>cpu := (cpu s)\<lparr>gpsw := p\<lparr>psw_mask := setf 44 2 cc (psw_mask p)\<rparr>\<rparr>\<rparr>)"

section \<open>Starting, stopping and exceptions\<close>

definition guest_begin :: "virt_sys \<Rightarrow> errno option \<times> virt_sys" where
  "guest_begin s = (case state (cpu s) of
       GUEST_STOPPED \<Rightarrow> (None, set_state GUEST_OPERATING s)
     | GUEST_OPERATING \<Rightarrow> (None, set_state GUEST_OPERATING s)
     | _ \<Rightarrow> (Some EINVAL, s))"

definition guest_stop :: "virt_sys \<Rightarrow> errno option \<times> virt_sys" where
  "guest_stop s = (case state (cpu s) of
       GUEST_STOPPED \<Rightarrow> (None, set_state GUEST_STOPPED s)
     | GUEST_OPERATING \<Rightarrow> (None, set_state GUEST_STOPPED s)
     | _ \<Rightarrow> (Some EINVAL, s))"

datatype prog_exception = PROG_OPERAND | PROG_PRIV | PROG_EXEC | PROG_PROT | PROG_ADDR | PROG_SPEC | PROG_DATA

text \<open>Program exceptions are not injected yet: the virtual processor is stopped.\<close>

definition queue_prog_exception :: "prog_exception \<Rightarrow> u64 \<Rightarrow> virt_sys \<Rightarrow> virt_sys" where
  "queue_prog_exception type param s = set_state GUEST_STOPPED s"

definition queue_io_interrupt :: "u32 \<Rightarrow> u32 \<Rightarrow> u32 \<Rightarrow> u32 \<Rightarrow> virt_sys \<Rightarrow> virt_sys result" where
  "queue_io_interrupt ssid param a isc s =
     bindR (BUG_ON (8 \<le> isc)) (\<lambda>_.
     bindR (BUG_ON (a \<noteq> 0 \<and> a \<noteq> 1)) (\<lambda>_.
     bindR (malloc sizeof_vio_int ZONE_NORMAL (heap s)) (\<lambda>(p, h). case p of
         None \<Rightarrow> Stop Bug
       | Some p \<Rightarrow>
           let i = \<lparr>vi_addr = p, vi_ssid = ssid, vi_param = param, vi_intid = push_bit 31 a OR push_bit 27 isc\<rparr>;
               qs = int_io (cpu s); k = unat isc
           in Ok (s\<lparr>heap := h, cpu := (cpu s)\<lparr>int_io := qs[k := qs ! k @ [i]]\<rparr>\<rparr>))))"

section \<open>Delivering an I/O interruption\<close>

definition do_psw_swap :: "u64 \<Rightarrow> u64 \<Rightarrow> u64 \<Rightarrow> nat \<Rightarrow> virt_sys \<Rightarrow> virt_sys" where
  "do_psw_swap gpsa old new len s =
     (let p = psw_bytes (gpsw (cpu s));
          m = write_bytes (gpsa + old) (take len p) (storage s)
      in s\<lparr>storage := m, cpu := (cpu s)\<lparr>gpsw := psw_of_bytes (read_bytes m (gpsa + new) len @ drop len p)\<rparr>\<rparr>)"

text \<open>The first subclass that is enabled and has an interruption waiting.\<close>

definition pending_isc :: "virt_cpu \<Rightarrow> nat option" where
  "pending_isc c = find (\<lambda>i. gcr c ! 6 AND drop_bit i 0x80000000 \<noteq> 0 \<and> int_io c ! i \<noteq> []) [0..<8]"

definition io_int :: "virt_sys \<Rightarrow> (bool \<times> virt_sys) result" where
  "io_int s =
     (if \<not> psw_io (gpsw (cpu s)) then Ok (False, s)
      else case pending_isc (cpu s) of
        None \<Rightarrow> Ok (False, s)
      | Some i \<Rightarrow>
          let ioint = hd (int_io (cpu s) ! i);
              s = s\<lparr>cpu := (cpu s)\<lparr>int_io := (int_io (cpu s))[i := tl (int_io (cpu s) ! i)]\<rparr>\<rparr>
          in case xlate s 0 of
               None \<Rightarrow> Ok (False, set_state GUEST_STOPPED s)
             | Some phy \<Rightarrow>
                 let s = (if VCPU_ZARCH (cpu s) then do_psw_swap phy 0x170 0x1f0 16 s
                          else do_psw_swap phy 56 120 8 s);
                     m = write_bytes (phy + 184) (put32 (vi_ssid ioint)) (storage s);
                     m = write_bytes (phy + 188) (put32 (vi_param ioint)) m;
                     m = write_bytes (phy + 192) (put32 (vi_intid ioint)) m
                 in bindR (free (Some (vi_addr ioint)) (heap s)) (\<lambda>h. Ok (True, s\<lparr>storage := m, heap := h\<rparr>)))"

section \<open>Resetting the system\<close>

definition RESET_CPU :: u32 where "RESET_CPU = 0x000001"
definition SET_ESA390 :: u32 where "SET_ESA390 = 0x000002"
definition RESET_PSW :: u32 where "RESET_PSW = 0x000004"
definition RESET_PREFIX :: u32 where "RESET_PREFIX = 0x000008"
definition RESET_CPU_TIMER :: u32 where "RESET_CPU_TIMER = 0x000010"
definition RESET_CLK_COMP :: u32 where "RESET_CLK_COMP = 0x000020"
definition RESET_TOD_PROG_REG :: u32 where "RESET_TOD_PROG_REG = 0x000040"
definition RESET_CR :: u32 where "RESET_CR = 0x000080"
definition RESET_BREAK_EV_ADDR :: u32 where "RESET_BREAK_EV_ADDR = 0x000100"
definition RESET_FPCR :: u32 where "RESET_FPCR = 0x000200"
definition RESET_AR :: u32 where "RESET_AR = 0x000400"
definition RESET_GPR :: u32 where "RESET_GPR = 0x000800"
definition RESET_FPR :: u32 where "RESET_FPR = 0x001000"
definition RESET_STORAGE_KEYS :: u32 where "RESET_STORAGE_KEYS = 0x002000"
definition RESET_STORAGE :: u32 where "RESET_STORAGE = 0x004000"
definition RESET_NONVOL_STORAGE :: u32 where "RESET_NONVOL_STORAGE = 0x008000"
definition RESET_EXPANDED_STORAGE :: u32 where "RESET_EXPANDED_STORAGE = 0x010000"
definition RESET_TOD :: u32 where "RESET_TOD = 0x020000"
definition RESET_TOD_STEER :: u32 where "RESET_TOD_STEER = 0x040000"
definition RESET_FLOATING_INTERRUPTIONS :: u32 where "RESET_FLOATING_INTERRUPTIONS = 0x080000"
definition RESET_IO :: u32 where "RESET_IO = 0x100000"
definition RESET_PLO_LOCKS :: u32 where "RESET_PLO_LOCKS = 0x200000"
definition RESET_PLO_LOCKS_PRESERVE :: u32 where "RESET_PLO_LOCKS_PRESERVE = RESET_PLO_LOCKS OR 0x400000"

definition SUBSYSTEM_RESET_FLAGS :: u32 where
  "SUBSYSTEM_RESET_FLAGS = RESET_FLOATING_INTERRUPTIONS OR RESET_IO"

definition CPU_RESET_FLAGS :: u32 where
  "CPU_RESET_FLAGS = RESET_CPU"

definition INIT_CPU_RESET_FLAGS :: u32 where
  "INIT_CPU_RESET_FLAGS = RESET_CPU OR SET_ESA390 OR RESET_PSW OR RESET_PREFIX OR RESET_CPU_TIMER OR
     RESET_CLK_COMP OR RESET_TOD_PROG_REG OR RESET_CR OR RESET_BREAK_EV_ADDR OR RESET_FPCR"

definition CLEAR_RESET_FLAGS :: u32 where
  "CLEAR_RESET_FLAGS = RESET_CPU OR SET_ESA390 OR RESET_PSW OR RESET_PREFIX OR RESET_CPU_TIMER OR
     RESET_CLK_COMP OR RESET_TOD_PROG_REG OR RESET_CR OR RESET_BREAK_EV_ADDR OR RESET_FPCR OR
     RESET_AR OR RESET_GPR OR RESET_FPR OR RESET_STORAGE_KEYS OR RESET_STORAGE OR
     RESET_NONVOL_STORAGE OR RESET_PLO_LOCKS OR RESET_FLOATING_INTERRUPTIONS OR RESET_IO"

definition POWER_ON_RESET_FLAGS :: u32 where
  "POWER_ON_RESET_FLAGS = RESET_CPU OR SET_ESA390 OR RESET_PSW OR RESET_PREFIX OR RESET_CPU_TIMER OR
     RESET_CLK_COMP OR RESET_TOD_PROG_REG OR RESET_CR OR RESET_BREAK_EV_ADDR OR RESET_FPCR OR
     RESET_AR OR RESET_GPR OR RESET_FPR OR RESET_STORAGE_KEYS OR RESET_STORAGE OR
     RESET_EXPANDED_STORAGE OR RESET_TOD OR RESET_TOD_STEER OR RESET_PLO_LOCKS_PRESERVE OR
     RESET_FLOATING_INTERRUPTIONS OR RESET_IO"

text \<open>The parts whose bodies are empty or only say that they are to be written change nothing.\<close>

definition perform_cpu_reset :: "u32 \<Rightarrow> virt_sys \<Rightarrow> virt_sys" where
  "perform_cpu_reset flags s =
     (let c = cpu s;
          c = (if flags AND RESET_CPU \<noteq> 0 then c\<lparr>state := GUEST_STOPPED\<rparr> else c);
          c = (if flags AND RESET_PSW \<noteq> 0 then c\<lparr>gpsw := \<lparr>psw_mask = 0, psw_addr = 0\<rparr>\<rparr> else c);
          c = (if flags AND RESET_PREFIX \<noteq> 0 then c\<lparr>prefix := 0\<rparr> else c);
          c = (if flags AND RESET_CR \<noteq> 0
               then c\<lparr>gcr := (replicate 16 0)[0 := 0xE0, 14 := 0xC2000000]\<rparr> else c);
          c = (if flags AND RESET_FPCR \<noteq> 0 then c\<lparr>regs := (regs c)\<lparr>fpcr := 0\<rparr>\<rparr> else c);
          c = (if flags AND RESET_AR \<noteq> 0 then c\<lparr>regs := (regs c)\<lparr>ar := replicate 16 0\<rparr>\<rparr> else c);
          c = (if flags AND RESET_GPR \<noteq> 0 then c\<lparr>regs := (regs c)\<lparr>gpr := replicate 16 0\<rparr>\<rparr> else c);
          c = (if flags AND RESET_FPR \<noteq> 0
               then c\<lparr>regs := (regs c)\<lparr>fpr := replicate 16 0 @ drop 16 (fpr (regs c))\<rparr>\<rparr> else c);
          s = s\<lparr>cpu := c\<rparr>
      in if flags AND RESET_STORAGE \<noteq> 0
         then s\<lparr>storage := fold (\<lambda>p. fill_zero (page_to_addr (page_num_to_ptr p)) PAGE_SIZE) (guest_pages s) (storage s)\<rparr>
         else s)"

text \<open>The assignments to the fields of the path management control word, in the order of the code.\<close>

definition reset_pmcw :: "pmcw \<Rightarrow> pmcw" where
  "reset_pmcw p =
     (let w1 = setf 27 3 0 (pw1 p); w1 = setf 23 1 0 w1; w1 = setf 21 2 0 w1; w1 = setf 19 2 0 w1;
          w1 = setf 18 1 0 w1;
          w2 = setf 16 8 0 (pw2 p); w2 = setf 8 8 0 w2;
          w3 = setf 16 16 0 (pw3 p);
          w6 = setf 2 1 0 (pw6 p); w6 = setf 1 1 0 w6; w6 = setf 0 1 0 w6;
          w3 = setf 8 8 0xff w3;
          w1 = setf 17 1 0 w1;
          w2 = setf 24 8 0x80 w2; w2 = setf 0 8 0x80 w2;
          w3 = setf 0 8 0x80 w3
      in \<lparr>interrupt_param = 0, pw1 = w1, pw2 = w2, pw3 = w3, pw4 = 0, pw5 = 0, pw6 = w6\<rparr>)"

definition perform_noncpu_reset :: "u32 \<Rightarrow> virt_sys \<Rightarrow> virt_sys" where
  "perform_noncpu_reset flags s =
     (if flags AND RESET_IO \<noteq> 0
      then s\<lparr>virt_devs := map (\<lambda>v. v\<lparr>pmcw := reset_pmcw (pmcw v), scsw := zero_scsw\<rparr>) (virt_devs s)\<rparr>
      else s)"

definition guest_power_on_reset :: "virt_sys \<Rightarrow> virt_sys" where
  "guest_power_on_reset s = perform_noncpu_reset POWER_ON_RESET_FLAGS (perform_cpu_reset POWER_ON_RESET_FLAGS s)"

definition guest_system_reset_normal :: "virt_sys \<Rightarrow> virt_sys" where
  "guest_system_reset_normal s = perform_noncpu_reset SUBSYSTEM_RESET_FLAGS (perform_cpu_reset CPU_RESET_FLAGS s)"

definition guest_system_reset_clear :: "virt_sys \<Rightarrow> virt_sys" where
  "guest_system_reset_clear s = perform_noncpu_reset CLEAR_RESET_FLAGS (perform_cpu_reset CLEAR_RESET_FLAGS s)"

definition guest_load_normal :: "virt_sys \<Rightarrow> virt_sys" where
  "guest_load_normal s = perform_noncpu_reset SUBSYSTEM_RESET_FLAGS (perform_cpu_reset INIT_CPU_RESET_FLAGS s)"

definition guest_load_clear :: "virt_sys \<Rightarrow> virt_sys" where
  "guest_load_clear s = perform_noncpu_reset CLEAR_RESET_FLAGS (perform_cpu_reset CLEAR_RESET_FLAGS s)"


section \<open>Bytes: facts\<close>

lemma length_put [simp]: "length (put32 w) = 4" "length (put64 d) = 8" "length (psw_bytes p) = 16"
  by (simp_all add: put32_def put64_def psw_bytes_def)

lemma get32_put32 [simp]: "get32 (put32 w @ r) = w" "get32 (put32 w) = w"
proof -
  show "get32 (put32 w @ r) = w" for r
  proof (rule bit_word_eqI)
    fix n assume "n < LENGTH(32)"
    then have "n < 8 \<or> (8 \<le> n \<and> n < 16) \<or> (16 \<le> n \<and> n < 24) \<or> (24 \<le> n \<and> n < 32)" by auto
    then show "bit (get32 (put32 w @ r)) n = bit w n"
      by (elim disjE) (auto simp: get32_def put32_def bit_simps)
  qed
  from this [of "[]"] show "get32 (put32 w) = w" by simp
qed

lemma get64_put64 [simp]: "get64 (put64 w @ r) = w" "get64 (put64 w) = w"
proof -
  show "get64 (put64 w @ r) = w" for r
  proof (rule bit_word_eqI)
    fix n assume "n < LENGTH(64)"
    then have n: "n < 32 \<or> n - 32 < 32 \<and> \<not> n < 32" by auto
    have "drop 4 (put64 w @ r) = put32 (ucast w) @ r" by (simp add: put64_def)
    then show "bit (get64 (put64 w @ r)) n = bit w n"
      using n by (auto simp: get64_def put64_def bit_simps)
  qed
  from this [of "[]"] show "get64 (put64 w) = w" by simp
qed

lemma psw_of_psw_bytes [simp]: "psw_of_bytes (psw_bytes p) = p"
  by (simp add: psw_of_bytes_def psw_bytes_def)

lemma write_bytes_at:
  "length bs \<le> 2 ^ 64 \<Longrightarrow> write_bytes a bs m x = (if unat (x - a) < length bs then bs ! unat (x - a) else m x)"
proof (induction bs arbitrary: a m)
  case (Cons b bs)
  show ?case
  proof (cases "x = a")
    case True
    have "unat (a - (a + 1)) = 2 ^ 64 - 1" by (simp add: unsigned_minus_1_eq_mask mask_eq_exp_minus_1)
    then show ?thesis using Cons True by simp
  next
    case False
    then have "unat (x - (a + 1)) = unat (x - a) - 1" "unat (x - a) \<noteq> 0"
      using unat_pred [of "x - a"] by (simp_all add: algebra_simps unat_eq_0)
    then show ?thesis using Cons False by (cases "unat (x - a)") simp_all
  qed
qed simp

lemma length_read_bytes [simp]: "length (read_bytes m a n) = n"
  by (simp add: read_bytes_def)

lemma read_bytes_nth [simp]: "i < n \<Longrightarrow> read_bytes m a n ! i = m (a + of_nat i)"
  by (simp add: read_bytes_def)

lemma read_bytes_cong: "(\<And>i. i < n \<Longrightarrow> m (a + of_nat i) = m' (a + of_nat i)) \<Longrightarrow> read_bytes m a n = read_bytes m' a n"
  by (simp add: read_bytes_def)

lemma read_written: "length bs = n \<Longrightarrow> n < 2 ^ 64 \<Longrightarrow> read_bytes (write_bytes a bs m) a n = bs"
  by (rule nth_equalityI) (simp_all add: write_bytes_at unat_of_nat_small)

lemma read_other:
  assumes "length bs \<le> 2 ^ 64" and "\<And>i. i < n \<Longrightarrow> length bs \<le> unat (a + of_nat i - b)"
  shows "read_bytes (write_bytes b bs m) a n = read_bytes m a n"
proof (rule read_bytes_cong)
  fix i assume "i < n"
  from assms(2) [OF this] show "write_bytes b bs m (a + of_nat i) = m (a + of_nat i)"
    by (simp only: write_bytes_at [OF assms(1)] not_less [symmetric] if_False)
qed

text \<open>Areas at fixed offsets from one address.\<close>

lemma unat_offset_diff:
  assumes "a < 2 ^ 64" and "b < 2 ^ 64"
  shows "unat (of_nat a - of_nat b :: u64) = (if b \<le> a then a - b else 2 ^ 64 + a - b)"
proof (cases "b \<le> a")
  case True
  then have "of_nat a - of_nat b = (of_nat (a - b) :: u64)" by (simp only: of_nat_diff)
  moreover have "unat (of_nat (a - b) :: u64) = a - b" by (rule unat_of_nat_small) (use assms in simp)
  ultimately show ?thesis using True by (simp only: if_True)
next
  case False
  have "of_nat a - of_nat b = (of_nat (2 ^ 64) + of_nat a - of_nat b :: u64)" by simp
  also have "\<dots> = of_nat (2 ^ 64 + a - b)" using assms by (simp only: of_nat_add of_nat_diff)
  finally have "of_nat a - of_nat b = (of_nat (2 ^ 64 + a - b) :: u64)" .
  moreover have "unat (of_nat (2 ^ 64 + a - b) :: u64) = 2 ^ 64 + a - b"
    by (rule unat_of_nat_small) (use assms False in simp)
  ultimately show ?thesis using False by (simp only: if_False)
qed

lemma read_apart:
  assumes "a + n \<le> b \<or> b + length bs \<le> a" and "a + n < 2 ^ 64" and "b + length bs < 2 ^ 64"
  shows "read_bytes (write_bytes (phy + of_nat b) bs m) (phy + of_nat a) n = read_bytes m (phy + of_nat a) n"
proof (rule read_other)
  show "length bs \<le> unat (phy + of_nat a + of_nat i - (phy + of_nat b) :: u64)" if "i < n" for i
  proof -
    have "phy + of_nat a + of_nat i - (phy + of_nat b) = (of_nat (a + i) - of_nat b :: u64)"
      by (simp only: of_nat_add) (simp add: algebra_simps)
    moreover have "a + i < 2 ^ 64" "b < 2 ^ 64" using assms that by simp_all
    ultimately show ?thesis using assms that by (simp only: unat_offset_diff) auto
  qed
qed (use assms in simp)


section \<open>Delivery\<close>

lemma find_first: "i < n \<Longrightarrow> P i \<Longrightarrow> (\<forall>j < i. \<not> P j) \<Longrightarrow> find P [0..<n] = Some i"
  by (auto simp: find_Some_iff intro!: exI [of _ i])

text \<open>What the delivery of an interruption \<open>q\<close> does to the storage at \<open>phy\<close>, the guest's first page.\<close>

definition psa_stored :: "u64 \<Rightarrow> nat \<Rightarrow> nat \<Rightarrow> vio_int \<Rightarrow> guest_psw \<Rightarrow> (u64 \<Rightarrow> u8) \<Rightarrow> (u64 \<Rightarrow> u8) \<Rightarrow> bool" where
  "psa_stored phy old len q p m m' \<longleftrightarrow>
     read_bytes m' (phy + of_nat old) len = take len (psw_bytes p)
     \<and> read_bytes m' (phy + 184) 12 = put32 (vi_ssid q) @ put32 (vi_param q) @ put32 (vi_intid q)
     \<and> (\<forall>x. len \<le> unat (x - (phy + of_nat old)) \<longrightarrow> 12 \<le> unat (x - (phy + 184)) \<longrightarrow> m' x = m x)"

lemma write_bytes_append: "write_bytes a (xs @ ys) m = write_bytes (a + of_nat (length xs)) ys (write_bytes a xs m)"
  by (induction xs arbitrary: a m) (simp_all add: algebra_simps)

lemma psa_stores:
  fixes phy :: u64
  assumes "old + len \<le> 184 \<or> 196 \<le> old" and "old + len < 2 ^ 64" and "len \<le> 16"
    and m1_def: "m1 = write_bytes (phy + of_nat old) (take len (psw_bytes p)) m"
  shows "psa_stored phy old len q p m
    (write_bytes (phy + 192) (put32 (vi_intid q)) (write_bytes (phy + 188) (put32 (vi_param q)) (write_bytes (phy + 184) (put32 (vi_ssid q)) m1)))"
proof -
  let ?bs = "put32 (vi_ssid q) @ put32 (vi_param q) @ put32 (vi_intid q)"
  have w: "write_bytes (phy + 192) (put32 (vi_intid q)) (write_bytes (phy + 188) (put32 (vi_param q)) (write_bytes (phy + 184) (put32 (vi_ssid q)) m1))
    = write_bytes (phy + 184) ?bs m1" (is "?m = _")
    by (simp add: write_bytes_append add.commute)
  have len: "length (take len (psw_bytes p)) = len" using assms(3) by simp
  have "read_bytes ?m (phy + of_nat old) len = read_bytes m1 (phy + of_nat old) len"
    unfolding w using read_apart [of old len 184 ?bs phy m1] assms(1,2) by auto
  also have "\<dots> = take len (psw_bytes p)" unfolding m1_def by (rule read_written [OF len]) (use assms(3) in simp)
  finally have old: "read_bytes ?m (phy + of_nat old) len = take len (psw_bytes p)" .
  moreover have "read_bytes ?m (phy + 184) 12 = ?bs" unfolding w by (rule read_written) simp_all
  moreover have "?m x = m x" if "len \<le> unat (x - (phy + of_nat old))" "12 \<le> unat (x - (phy + 184))" for x
    unfolding w using that len by (simp add: write_bytes_at m1_def)
  ultimately show ?thesis by (simp add: psa_stored_def)
qed


lemma io_int_delivers:
  assumes "psw_io (gpsw (cpu s))" and "i < 8" and "length (int_io (cpu s)) = 8"
    and "gcr (cpu s) ! 6 AND drop_bit i 0x80000000 \<noteq> 0" and "int_io (cpu s) ! i = q # qs"
    and "\<forall>j < i. gcr (cpu s) ! 6 AND drop_bit j 0x80000000 = 0 \<or> int_io (cpu s) ! j = []"
    and "xlate s 0 = Some phy" and "free (Some (vi_addr q)) (heap s) = Ok h"
    and "(old, new, len) = (if VCPU_ZARCH (cpu s) then (0x170, 0x1f0, 16) else (56, 120, 8))"
  shows "\<exists>s'. io_int s = Ok (True, s') \<and> int_io (cpu s') = (int_io (cpu s))[i := qs] \<and> heap s' = h
    \<and> psa_stored phy old len q (gpsw (cpu s)) (storage s) (storage s')
    \<and> gpsw (cpu s') = psw_of_bytes (read_bytes (storage s) (phy + of_nat new) len @ drop len (psw_bytes (gpsw (cpu s))))
    \<and> s' = s\<lparr>cpu := (cpu s)\<lparr>int_io := int_io (cpu s'), gpsw := gpsw (cpu s')\<rparr>, storage := storage s', heap := heap s'\<rparr>"
proof -
  let ?p = "psw_bytes (gpsw (cpu s))"
  have pend: "pending_isc (cpu s) = Some i"
    unfolding pending_isc_def by (rule find_first) (use assms in auto)
  have nums: "of_nat old = (if VCPU_ZARCH (cpu s) then 0x170 else 56 :: u64)"
    "of_nat new = (if VCPU_ZARCH (cpu s) then 0x1f0 else 120 :: u64)" "len = (if VCPU_ZARCH (cpu s) then 16 else 8)"
    using assms(9) by (auto split: if_splits)
  have gap: "old + len \<le> 184 \<or> 196 \<le> old" "old + len < 2 ^ 64" "len \<le> 16" "old + len \<le> new" "new + len < 2 ^ 64"
    using assms(9) by (auto split: if_splits)
  define m1 where "m1 = write_bytes (phy + of_nat old) (take len ?p) (storage s)"
  have rd: "read_bytes m1 (phy + of_nat new) len = read_bytes (storage s) (phy + of_nat new) len"
    unfolding m1_def by (rule read_apart) (use gap in auto)
  define m where "m = write_bytes (phy + 192) (put32 (vi_intid q)) (write_bytes (phy + 188) (put32 (vi_param q)) (write_bytes (phy + 184) (put32 (vi_ssid q)) m1))"
  define c where "c = (cpu s)\<lparr>int_io := (int_io (cpu s))[i := qs],
     gpsw := psw_of_bytes (read_bytes (storage s) (phy + of_nat new) len @ drop len ?p)\<rparr>"
  have "io_int s = Ok (True, s\<lparr>cpu := c, storage := m, heap := h\<rparr>)"
    using assms(1,5,7,8) pend rd nums
    by (simp add: io_int_def Let_def do_psw_swap_def m_def m1_def c_def VCPU_ZARCH_def split: if_splits)
  moreover have "psa_stored phy old len q (gpsw (cpu s)) (storage s) m"
    unfolding m_def by (rule psa_stores [OF gap(1-3) m1_def])
  ultimately show ?thesis by (simp add: c_def)
qed

lemma io_int_none:
  assumes "\<not> psw_io (gpsw (cpu s)) \<or> (\<forall>j < 8. gcr (cpu s) ! 6 AND drop_bit j 0x80000000 = 0 \<or> int_io (cpu s) ! j = [])"
  shows "io_int s = Ok (False, s)"
proof -
  have "pending_isc (cpu s) = None" if "psw_io (gpsw (cpu s))"
    using assms that by (auto simp: pending_isc_def find_None_iff)
  then show ?thesis by (simp add: io_int_def)
qed

section \<open>Reset\<close>

lemma clear_flags:
  "CLEAR_RESET_FLAGS AND RESET_CPU \<noteq> 0" "CLEAR_RESET_FLAGS AND RESET_PSW \<noteq> 0" "CLEAR_RESET_FLAGS AND RESET_PREFIX \<noteq> 0"
  "CLEAR_RESET_FLAGS AND RESET_CR \<noteq> 0" "CLEAR_RESET_FLAGS AND RESET_FPCR \<noteq> 0" "CLEAR_RESET_FLAGS AND RESET_AR \<noteq> 0"
  "CLEAR_RESET_FLAGS AND RESET_GPR \<noteq> 0" "CLEAR_RESET_FLAGS AND RESET_FPR \<noteq> 0" "CLEAR_RESET_FLAGS AND RESET_STORAGE \<noteq> 0"
  "CLEAR_RESET_FLAGS AND RESET_IO \<noteq> 0"
  by code_simp+

lemma fold_fill_zero:
  "fold (\<lambda>p. fill_zero (f p) n) ps m x = (if \<exists>p \<in> set ps. unat (x - f p) < n then 0 else m x)"
  by (induction ps arbitrary: m) (auto simp: fill_zero_def)


lemma getf_setf_same:
  assumes "k + n \<le> LENGTH('a)"
  shows "getf k n (setf k n v (w :: 'a::len word)) = take_bit n v"
  by (rule bit_word_eqI) (use assms in \<open>auto simp: getf_def setf_def bit_simps\<close>)

lemma getf_setf_apart:
  assumes "k + n \<le> k' \<or> k' + n' \<le> k"
  shows "getf k n (setf k' n' v (w :: 'a::len word)) = getf k n w"
  by (rule bit_word_eqI) (use assms in \<open>auto simp: getf_def setf_def bit_simps dest: bit_imp_le_length\<close>)

named_theorems field_simps \<open>bit fields of words\<close>

lemmas [field_simps] = getf_setf_same getf_setf_apart

lemma reset_pmcw_fields:
  "pmcw_v (reset_pmcw p) = pmcw_v p" "pmcw_dev_num (reset_pmcw p) = pmcw_dev_num p"
  "pmcw_isc (reset_pmcw p) = 0" "pmcw_e (reset_pmcw p) = 0" "interrupt_param (reset_pmcw p) = 0"
  by (simp_all add: reset_pmcw_def Let_def pmcw_v_def pmcw_dev_num_def pmcw_isc_def pmcw_e_def field_simps)

lemma guest_system_reset_clear_eq:
  "guest_system_reset_clear s = s\<lparr>
     cpu := (cpu s)\<lparr>prefix := 0, gpsw := \<lparr>psw_mask = 0, psw_addr = 0\<rparr>, gcr := (replicate 16 0)[0 := 0xE0, 14 := 0xC2000000],
       regs := \<lparr>gpr = replicate 16 0, ar = replicate 16 0, fpr = replicate 16 0 @ drop 16 (fpr (regs (cpu s))), fpcr = 0\<rparr>,
       state := GUEST_STOPPED\<rparr>,
     virt_devs := map (\<lambda>v. v\<lparr>pmcw := reset_pmcw (pmcw v), scsw := zero_scsw\<rparr>) (virt_devs s),
     storage := fold (\<lambda>p. fill_zero (page_to_addr (page_num_to_ptr p)) PAGE_SIZE) (guest_pages s) (storage s)\<rparr>"
  by (cases "regs (cpu s)")
    (simp add: guest_system_reset_clear_def perform_cpu_reset_def perform_noncpu_reset_def Let_def clear_flags)

section \<open>Properties\<close>


text \<open>A system for the examples: one interruption waits in subclass 3, and the PSW enables it.\<close>

definition example_cpu :: virt_cpu where
  "example_cpu = \<lparr>cpuflags = CPUSTAT_ZARCH, prefix = 0, icptcode = 0, ipa = 0, ipb = 0,
     gpsw = \<lparr>psw_mask = 0x0200000180000000, psw_addr = 0x1000\<rparr>,
     gcr = (replicate 16 0)[6 := 0xff000000], regs = \<lparr>gpr = replicate 16 0, ar = replicate 16 0, fpr = replicate 64 0, fpcr = 0\<rparr>,
     cpuid = 0, state = GUEST_OPERATING,
     int_io = (replicate 8 [])[3 := [\<lparr>vi_addr = 0xb02c, vi_ssid = 0x10000, vi_param = 7, vi_intid = 0x18000000\<rparr>]]\<rparr>"

definition example_sys :: "(u64 \<Rightarrow> u8) \<Rightarrow> virt_sys" where
  "example_sys m = \<lparr>cpu = example_cpu, storage_size = 0x4000, auth = 2, print_ts = False, guest_pages = [0x40, 0x41],
     virt_devs = [], xlate = (\<lambda>a. if a < 0x4000 then Some (a + 0x40000) else None), storage = m, heap = example_heap 1 0x80\<rparr>"

lemma example_live: "heap_ok (example_heap 1 0x80)" "live (example_heap 1 0x80) = {0xb02c}"
  using heap.alloc_gives [OF small_heap_ok(1) example_alloc] by (simp_all add: small_heap_ok(2))


text \<open>
  (C17) A clear reset leaves a stopped processor with zero registers and PSW and the initial
  control registers, zeroes every page of the guest and no other storage, and leaves every
  virtual device idle and disabled with its numbers and what backs it unchanged.  Interruptions
  that were waiting still wait.
\<close>

theorem guest_system_reset_clear_correct:
  "let s' = guest_system_reset_clear s in
    state (cpu s') = GUEST_STOPPED \<and> gpsw (cpu s') = \<lparr>psw_mask = 0, psw_addr = 0\<rparr> \<and> prefix (cpu s') = 0
    \<and> gpr (regs (cpu s')) = replicate 16 0 \<and> ar (regs (cpu s')) = replicate 16 0 \<and> fpcr (regs (cpu s')) = 0
    \<and> gcr (cpu s') = [0xE0] @ replicate 13 0 @ [0xC2000000, 0]
    \<and> storage s' = (\<lambda>x. if \<exists>p \<in> set (guest_pages s). unat (x - page_to_addr (page_num_to_ptr p)) < 4096 then 0 else storage s x)
    \<and> length (virt_devs s') = length (virt_devs s)
    \<and> list_all2 (\<lambda>v v'. scsw v' = zero_scsw \<and> pmcw_e (pmcw v') = 0 \<and> pmcw_v (pmcw v') = pmcw_v (pmcw v)
        \<and> pmcw_dev_num (pmcw v') = pmcw_dev_num (pmcw v) \<and> sch v' = sch v \<and> vtype v' = vtype v \<and> backed v' = backed v)
        (virt_devs s) (virt_devs s')
    \<and> int_io (cpu s') = int_io (cpu s)"
  by (auto simp: Let_def guest_system_reset_clear_eq fold_fill_zero PAGE_SIZE_def list_all2_conv_all_nth reset_pmcw_fields
      numeral_eq_Suc)

end
