(* ===== verification/Device.thy ===== *)
theory Device
  imports Guest
begin

text \<open>
  Real devices and their I/O: \<^verbatim>\<open>src/cp/include/device.h\<close>,
  \<^verbatim>\<open>src/cp/drivers/device.c\<close>, \<^verbatim>\<open>src/cp/nucleus/io.c\<close> and
  \<^verbatim>\<open>src/cp/drivers/dasd.c\<close>.  Devices and I/O operations
  are named by their addresses.  What the channel subsystem answers (the results of
  \<^verbatim>\<open>ssch\<close> and \<^verbatim>\<open>tsch\<close>, the bytes a device sends) are arguments of the operations; an
  interruption is a step of its own.  No caller sets the callbacks of an operation, so the default
  handler is the one that runs; operations under a spinlock are one step.
\<close>

record io_op =
  io_param :: u32
  io_err :: "errno option"
  io_done :: bool

record eckd =
  cyls :: u16
  tracks :: u16
  tlen :: u16
  erecs :: u16
  sectors :: u8
  formula :: u8
  factors :: "u16 list"

record fba =
  blk_size :: u16
  bpg :: u32
  bpp :: u32
  blks :: u32

record device_type =
  dt_type :: u16
  dt_model :: u8
  all_models :: bool

record device =
  d_sch :: u32
  d_type :: u16
  d_model :: u8
  ccuu :: u16
  d_dev :: "u64 option"
  q_cur :: "u64 option"
  q_out :: "u64 list"
  attention :: u32
  in_use :: bool
  refcnt :: u32
  d_eckd :: eckd
  d_fba :: fba

record iosys =
  dev_types :: "(u64 \<times> device_type) list"
  devs :: "u64 list"
  dev_at :: "u64 \<Rightarrow> device option"
  op_at :: "u64 \<Rightarrow> io_op option"
  op_id_counter :: u32

definition get_dev :: "u64 \<Rightarrow> iosys \<Rightarrow> device result" where
  "get_dev a s = (case dev_at s a of None \<Rightarrow> Stop BadPointer | Some d \<Rightarrow> Ok d)"

definition put_dev :: "u64 \<Rightarrow> device \<Rightarrow> iosys \<Rightarrow> iosys" where
  "put_dev a d s = s\<lparr>dev_at := (dev_at s)(a \<mapsto> d)\<rparr>"

definition get_op :: "u64 \<Rightarrow> iosys \<Rightarrow> io_op result" where
  "get_op a s = (case op_at s a of None \<Rightarrow> Stop BadPointer | Some i \<Rightarrow> Ok i)"

definition put_op :: "u64 \<Rightarrow> io_op \<Rightarrow> iosys \<Rightarrow> iosys" where
  "put_op a i s = s\<lparr>op_at := (op_at s)(a \<mapsto> i)\<rparr>"

section \<open>The device list\<close>

definition dev_get :: "u64 \<Rightarrow> iosys \<Rightarrow> iosys result" where
  "dev_get a s =
     bindR (get_dev a s) (\<lambda>d.
     bindR (BUG_ON (sint (refcnt d) < 1)) (\<lambda>_. Ok (put_dev a (d\<lparr>refcnt := refcnt d + 1\<rparr>) s)))"

definition dev_put :: "u64 \<Rightarrow> iosys \<Rightarrow> iosys result" where
  "dev_put a s =
     bindR (get_dev a s) (\<lambda>d. let d = d\<lparr>refcnt := refcnt d - 1\<rparr> in
     bindR (BUG_ON (sint (refcnt d) < 1)) (\<lambda>_. Ok (put_dev a d s)))"

fun find_device :: "(device \<Rightarrow> bool) \<Rightarrow> u64 list \<Rightarrow> iosys \<Rightarrow> ((errno + u64) \<times> iosys) result" where
  "find_device P [] s = Ok (Inl ENOENT, s)"
| "find_device P (a # as) s =
     bindR (get_dev a s) (\<lambda>d.
       if P d then bindR (dev_get a s) (\<lambda>s. Ok (Inr a, s)) else find_device P as s)"

definition find_device_by_ccuu :: "u16 \<Rightarrow> iosys \<Rightarrow> ((errno + u64) \<times> iosys) result" where
  "find_device_by_ccuu n s = find_device (\<lambda>d. ccuu d = n) (devs s) s"

definition find_device_by_sch :: "u32 \<Rightarrow> iosys \<Rightarrow> ((errno + u64) \<times> iosys) result" where
  "find_device_by_sch n s = find_device (\<lambda>d. d_sch d = n) (devs s) s"

definition find_device_by_type :: "u16 \<Rightarrow> u8 \<Rightarrow> iosys \<Rightarrow> ((errno + u64) \<times> iosys) result" where
  "find_device_by_type t m s = find_device (\<lambda>d. d_type d = t \<and> d_model d = m) (devs s) s"

definition register_device_type :: "u64 \<Rightarrow> device_type \<Rightarrow> iosys \<Rightarrow> errno option \<times> iosys" where
  "register_device_type a t s =
     (if \<exists>(b, e) \<in> set (dev_types s). a = b \<or> dt_type t = dt_type e \<and> dt_model t = dt_model e
      then (Some EEXIST, s)
      else (None, s\<lparr>dev_types := dev_types s @ [(a, t)]\<rparr>))"

definition unregister_device_type :: "u64 \<Rightarrow> iosys \<Rightarrow> iosys" where
  "unregister_device_type a s = s\<lparr>dev_types := filter (\<lambda>(b, e). b \<noteq> a) (dev_types s)\<rparr>"

text \<open>
  \<open>reg\<close> gives for a type its registration routine, if it has one: a result and the changed device.
\<close>

definition register_device :: "(u64 \<Rightarrow> (device \<Rightarrow> errno option \<times> device) option) \<Rightarrow> u64 \<Rightarrow> bool \<Rightarrow> iosys
    \<Rightarrow> (errno option \<times> iosys) result" where
  "register_device reg a remove s =
     bindR (get_dev a s) (\<lambda>d.
       let type = find (\<lambda>(b, t). dt_type t = d_type d \<and> (all_models t \<or> dt_model t = d_model d)) (dev_types s);
           err = (case type of None \<Rightarrow> Some ENOENT | Some _ \<Rightarrow> None);
           d = d\<lparr>refcnt := 1, in_use := False, d_dev := map_option fst type\<rparr>;
           (err, d) = (case Option.bind (d_dev d) reg of
               None \<Rightarrow> (err, d)
             | Some f \<Rightarrow> (case f d of (e, d) \<Rightarrow> (e, if e = None then d else d\<lparr>d_dev := None\<rparr>)));
           s = put_dev a d s
       in Ok (err, s\<lparr>devs := (if remove then remove1 a (devs s) else devs s) @ [a]\<rparr>))"

section \<open>The queue of I/O operations\<close>

text \<open>\<open>start\<close> is what \<^verbatim>\<open>start_sch\<close> returns.\<close>

definition submit_next :: "u64 \<Rightarrow> errno option \<Rightarrow> iosys \<Rightarrow> iosys result" where
  "submit_next a start s =
     bindR (get_dev a s) (\<lambda>d.
       if q_cur d \<noteq> None then Ok s
       else case q_out d of
         [] \<Rightarrow> Ok s
       | i # rest \<Rightarrow>
           (case start of
              None \<Rightarrow> Ok (put_dev a (d\<lparr>q_out := rest, q_cur := Some i\<rparr>) s)
            | Some e \<Rightarrow> bindR (get_op i s) (\<lambda>ioop. Ok (put_op i (ioop\<lparr>io_err := Some e\<rparr>) s))))"

text \<open>Up to the wait: with \<^verbatim>\<open>CAN_LOOP\<close> or \<^verbatim>\<open>CAN_SLEEP\<close> the caller returns when the operation is done.\<close>

definition submit_io :: "u64 \<Rightarrow> u64 \<Rightarrow> errno option \<Rightarrow> iosys \<Rightarrow> iosys result" where
  "submit_io a i start s =
     bindR (get_op i s) (\<lambda>ioop.
       let n = op_id_counter s + 1;
           s = put_op i (ioop\<lparr>io_err := None, io_param := n, io_done := False\<rparr>) (s\<lparr>op_id_counter := n\<rparr>)
       in bindR (get_dev a s) (\<lambda>d. submit_next a start (put_dev a (d\<lparr>q_out := q_out d @ [i]\<rparr>) s)))"

definition default_io_handler :: "u8 \<Rightarrow> errno option" where
  "default_io_handler dev_status =
     (let err = Some EAGAIN;
          err = (if dev_status AND 0x02 \<noteq> 0 then Some EUCHECK else err)
      in if dev_status AND 0x04 \<noteq> 0 then None else err)"

text \<open>\<open>test\<close> is the result of \<^verbatim>\<open>test_sch\<close>, \<open>dev_status\<close> the device status it stored.\<close>

definition cpu_initiated_io :: "u64 \<Rightarrow> u64 \<Rightarrow> errno option \<Rightarrow> u8 \<Rightarrow> errno option \<Rightarrow> iosys \<Rightarrow> iosys result" where
  "cpu_initiated_io a i test dev_status start s =
     bindR (get_op i s) (\<lambda>ioop.
       let err = (if test = None then default_io_handler dev_status else test);
           s = put_op i (ioop\<lparr>io_err := err\<rparr>) s
       in if err = Some EAGAIN then Ok s
          else bindR (get_dev a s) (\<lambda>d.
               bindR (submit_next a start (put_dev a (d\<lparr>q_cur := None\<rparr>) s)) (\<lambda>s.
               bindR (get_op i s) (\<lambda>ioop. Ok (put_op i (ioop\<lparr>io_done := True\<rparr>) s)))))"

definition io_int_handler :: "u32 \<Rightarrow> u32 \<Rightarrow> errno option \<Rightarrow> u8 \<Rightarrow> errno option \<Rightarrow> iosys \<Rightarrow> iosys result" where
  "io_int_handler ssid param test dev_status start s =
     bindR (find_device_by_sch ssid s) (\<lambda>(r, s). case r of
         Inl _ \<Rightarrow> Stop Bug
       | Inr a \<Rightarrow>
           bindR (get_dev a s) (\<lambda>d.
           bindR (case q_cur d of None \<Rightarrow> Ok None | Some i \<Rightarrow> bindR (get_op i s) (\<lambda>ioop. Ok (Some (i, ioop)))) (\<lambda>cur.
             case cur of
               Some (i, ioop) \<Rightarrow>
                 if io_param ioop = param \<and> d_sch d = ssid
                 then bindR (cpu_initiated_io a i test dev_status start s) (dev_put a)
                 else bindR (BUG_ON (test \<noteq> None)) (\<lambda>_.
                      let s = put_dev a (d\<lparr>attention := attention d + 1\<rparr>) s
                      in if d_dev d = None then Stop BadPointer else dev_put a s)
             | None \<Rightarrow>
                 bindR (BUG_ON (test \<noteq> None)) (\<lambda>_.
                 let s = put_dev a (d\<lparr>attention := attention d + 1\<rparr>) s
                 in if d_dev d = None then Stop BadPointer else dev_put a s))))"

section \<open>Disks\<close>

definition ceil_quot :: "u32 \<Rightarrow> u32 \<Rightarrow> u32" where
  "ceil_quot d1 d2 = (d1 + (d2 - 1)) div d2"

definition d3390_recs_per_track :: "u32 \<Rightarrow> u32 \<Rightarrow> u32" where
  "d3390_recs_per_track kl dl =
     (let dn = ceil_quot (dl + 6) 232 + 1
      in if kl \<noteq> 0
         then let kn = ceil_quot (kl + 6) 232 + 1
              in 1729 div (10 + 9 + ceil_quot (kl + 6 * kn) 34 + 9 + ceil_quot (dl + 6 * dn) 34)
         else 1729 div (10 + 9 + ceil_quot (dl + 6 * dn) 34))"

definition dasd16 :: "u8 list \<Rightarrow> nat \<Rightarrow> u16" where
  "dasd16 buf k = push_bit 8 (ucast (buf ! k)) OR ucast (buf ! (k + 1))"

definition dasd32 :: "u8 list \<Rightarrow> nat \<Rightarrow> u32" where
  "dasd32 buf k = push_bit 24 (ucast (buf ! k)) OR push_bit 16 (ucast (buf ! (k + 1)))
     OR push_bit 8 (ucast (buf ! (k + 2))) OR ucast (buf ! (k + 3))"

text \<open>\<open>buf\<close> are the 64 bytes of device characteristics the device sent.\<close>

definition d3390_reg :: "u8 list \<Rightarrow> device \<Rightarrow> errno option \<times> device" where
  "d3390_reg buf d =
     (if d_model d \<notin> {0x02, 0x06, 0x0a, 0x0c} then (Some ENOENT, d)
      else
        let e = (d_eckd d)\<lparr>cyls := dasd16 buf 12, tracks := dasd16 buf 14, erecs := ucast (d3390_recs_per_track 0 4096),
                  sectors := buf ! 16, tlen := dasd16 buf 18, formula := buf ! 22\<rparr>
        in if buf ! 22 = 1
           then (None, d\<lparr>d_eckd := e\<lparr>factors := [ucast (buf ! 23), dasd16 buf 24, dasd16 buf 26, 0, 0]\<rparr>\<rparr>)
           else if buf ! 22 = 2
           then (None, d\<lparr>d_eckd := e\<lparr>factors := map (\<lambda>k. ucast (buf ! k)) [23, 24, 25, 26, 27]\<rparr>\<rparr>)
           else (Some EINVAL, d\<lparr>d_eckd := e\<rparr>))"

definition d9336_reg :: "u8 list \<Rightarrow> device \<Rightarrow> errno option \<times> device" where
  "d9336_reg buf d =
     (if d_model d \<notin> {0x00, 0x10} then (Some ENOENT, d)
      else (None, d\<lparr>d_fba := \<lparr>blk_size = dasd16 buf 4, bpg = dasd32 buf 6, bpp = dasd32 buf 10, blks = dasd32 buf 14\<rparr>\<rparr>))"

text \<open>
  Where a block is on the disk: cylinder, head and record, as they are put into the seek and the
  search argument.  \<^verbatim>\<open>lba\<close> and the records per track and per cylinder are \<^verbatim>\<open>int\<close>; a disk
  without tracks or records makes the division stop.
\<close>

definition d3390_locate :: "eckd \<Rightarrow> int \<Rightarrow> (errno + u16 \<times> u16 \<times> u16) result" where
  "d3390_locate e lba =
     (let rpt = uint (erecs e); rpc = uint (tracks e) * rpt
      in if lba < 1 then Ok (Inl EINVAL)
         else if rpc = 0 then Stop Bug
         else let l = lba - 1
              in Ok (Inr (word_of_int (l div rpc), word_of_int ((l mod rpc) div rpt), word_of_int ((l mod rpc) mod rpt) + 1)))"

definition seek_data :: "u16 \<Rightarrow> u16 \<Rightarrow> u8 list" where
  "seek_data cc hh = [0, 0, ucast (drop_bit 8 cc), ucast (cc AND 0xff), ucast (drop_bit 8 hh), ucast (hh AND 0xff)]"

definition search_data :: "u16 \<Rightarrow> u16 \<Rightarrow> u16 \<Rightarrow> u8 list" where
  "search_data cc hh r =
     [ucast (drop_bit 8 cc), ucast (cc AND 0xff), ucast (drop_bit 8 hh), ucast (hh AND 0xff), ucast r]"


section \<open>The store\<close>

lemma store_simps [simp]:
  "dev_at (put_dev a d s) = (dev_at s)(a \<mapsto> d)" "op_at (put_dev a d s) = op_at s" "devs (put_dev a d s) = devs s"
  "op_at (put_op i p s) = (op_at s)(i \<mapsto> p)" "dev_at (put_op i p s) = dev_at s" "devs (put_op i p s) = devs s"
  by (simp_all add: put_dev_def put_op_def)

lemma get_Ok [simp]: "get_dev a s = Ok d \<longleftrightarrow> dev_at s a = Some d" "get_op i s = Ok p \<longleftrightarrow> op_at s i = Some p"
  by (auto simp: get_dev_def get_op_def split: option.splits)

lemma BUG_ON_bind: "bindR (BUG_ON b) f = Ok y \<longleftrightarrow> \<not> b \<and> f () = Ok y"
  by (simp add: BUG_ON_def)

text \<open>The operations of a device that are not completed, oldest first, and whether an operation is done.\<close>

definition in_flight :: "u64 \<Rightarrow> iosys \<Rightarrow> u64 list" where
  "in_flight a s = (case dev_at s a of None \<Rightarrow> []
     | Some d \<Rightarrow> (case q_cur d of None \<Rightarrow> [] | Some i \<Rightarrow> [i]) @ q_out d)"

definition is_done :: "iosys \<Rightarrow> u64 \<Rightarrow> bool" where
  "is_done s i \<longleftrightarrow> (\<exists>p. op_at s i = Some p \<and> io_done p)"

text \<open>Steps that keep every queue and every completion.\<close>

definition same_io :: "iosys \<Rightarrow> iosys \<Rightarrow> bool" where
  "same_io s s' \<longleftrightarrow> (\<forall>a. in_flight a s' = in_flight a s) \<and> is_done s' = is_done s"

lemma same_io_trans: "same_io s s' \<Longrightarrow> same_io s' s'' \<Longrightarrow> same_io s s''"
  by (simp add: same_io_def)

lemma same_io_refl [simp]: "same_io s s"
  by (simp add: same_io_def)

lemma same_io_put_dev:
  assumes "dev_at s a = Some d" and "q_cur d' = q_cur d" and "q_out d' = q_out d"
  shows "same_io s (put_dev a d' s)"
  using assms by (auto simp: same_io_def in_flight_def is_done_def fun_eq_iff)

lemma same_io_put_op:
  assumes "op_at s i = Some p" and "io_done p' = io_done p"
  shows "same_io s (put_op i p' s)"
  using assms by (auto simp: same_io_def in_flight_def is_done_def fun_eq_iff)

lemma same_io_get_put: "dev_get a s = Ok s' \<Longrightarrow> same_io s s'" "dev_put a s = Ok s' \<Longrightarrow> same_io s s'"
  by (auto simp: dev_get_def dev_put_def Let_def bindR_eq_Ok intro: same_io_put_dev)

lemma same_io_find: "find_device P as s = Ok (r, s') \<Longrightarrow> same_io s s'"
  by (induction as) (auto simp: bindR_eq_Ok same_io_get_put split: if_splits)

lemma submit_next_same:
  assumes "submit_next a start s = Ok s'"
  shows "same_io s s'"
proof -
  obtain d where d: "dev_at s a = Some d" using assms by (auto simp: submit_next_def bindR_eq_Ok)
  show ?thesis
  proof (cases "q_cur d = None \<and> q_out d \<noteq> []")
    case True
    then obtain i rest where q: "q_cur d = None" "q_out d = i # rest" by (cases "q_out d") auto
    show ?thesis
    proof (cases start)
      case None
      then have "s' = put_dev a (d\<lparr>q_out := rest, q_cur := Some i\<rparr>) s"
        using assms d q by (simp add: submit_next_def get_dev_def)
      then show ?thesis using d q by (auto simp: same_io_def in_flight_def is_done_def fun_eq_iff)
    next
      case (Some e)
      then show ?thesis using assms d q
        by (auto simp: submit_next_def get_dev_def bindR_eq_Ok intro!: same_io_put_op)
    qed
  next
    case False
    then show ?thesis using assms d by (auto simp: submit_next_def get_dev_def split: list.splits)
  qed
qed

lemma submit_io_adds:
  assumes "submit_io a i start s = Ok s'"
  shows "in_flight a s' = in_flight a s @ [i]" and "b \<noteq> a \<Longrightarrow> in_flight b s' = in_flight b s"
    and "is_done s' = (is_done s)(i := False)"
proof -
  obtain p d where p: "op_at s i = Some p" and d: "dev_at s a = Some d"
    using assms by (auto simp: submit_io_def bindR_eq_Ok Let_def put_op_def)
  define s1 where "s1 = put_dev a (d\<lparr>q_out := q_out d @ [i]\<rparr>)
     (put_op i (p\<lparr>io_err := None, io_param := op_id_counter s + 1, io_done := False\<rparr>) (s\<lparr>op_id_counter := op_id_counter s + 1\<rparr>))"
  have "submit_next a start s1 = Ok s'"
    using assms p d by (simp add: submit_io_def get_op_def get_dev_def Let_def s1_def)
  from submit_next_same [OF this] have same: "same_io s1 s'" .
  have "in_flight a s1 = in_flight a s @ [i]" "b \<noteq> a \<Longrightarrow> in_flight b s1 = in_flight b s"
    "is_done s1 = (is_done s)(i := False)"
    using d by (auto simp: s1_def in_flight_def is_done_def fun_eq_iff)
  with same show "in_flight a s' = in_flight a s @ [i]" and "b \<noteq> a \<Longrightarrow> in_flight b s' = in_flight b s"
    and "is_done s' = (is_done s)(i := False)"
    by (simp_all add: same_io_def)
qed

lemma cpu_initiated_cases:
  assumes c: "cpu_initiated_io a i test ds start s = Ok s'" and cur: "\<exists>d. dev_at s a = Some d \<and> q_cur d = Some i"
  shows "same_io s s' \<or> in_flight a s = i # in_flight a s' \<and> (\<forall>b. b \<noteq> a \<longrightarrow> in_flight b s' = in_flight b s)
    \<and> is_done s' = (is_done s)(i := True)"
proof -
  define err where "err = (if test = None then default_io_handler ds else test)"
  obtain p where p: "op_at s i = Some p" using c by (auto simp: cpu_initiated_io_def bindR_eq_Ok)
  define s1 where "s1 = put_op i (p\<lparr>io_err := err\<rparr>) s"
  have s1: "same_io s s1" unfolding s1_def by (rule same_io_put_op [OF p]) simp
  show ?thesis
  proof (cases "err = Some EAGAIN")
    case True
    then show ?thesis using c p s1 by (simp add: cpu_initiated_io_def get_op_def Let_def err_def s1_def)
  next
    case False
    obtain d where d: "dev_at s a = Some d" "q_cur d = Some i" using cur by auto
    define s2 where "s2 = put_dev a (d\<lparr>q_cur := None\<rparr>) s1"
    from False c p d obtain s3 q where s3: "submit_next a start s2 = Ok s3" "op_at s3 i = Some q"
      "s' = put_op i (q\<lparr>io_done := True\<rparr>) s3"
      by (auto simp: cpu_initiated_io_def get_op_def get_dev_def bindR_eq_Ok Let_def err_def s1_def s2_def split: option.splits)
    have s23: "same_io s2 s3" using s3(1) by (rule submit_next_same)
    have "in_flight a s1 = i # in_flight a s2" "\<forall>b. b \<noteq> a \<longrightarrow> in_flight b s2 = in_flight b s1" "is_done s2 = is_done s1"
      using d by (auto simp: s1_def s2_def in_flight_def is_done_def fun_eq_iff)
    moreover have "in_flight b s' = in_flight b s3" "is_done s' = (is_done s3)(i := True)" for b
      by (auto simp: s3(3) in_flight_def is_done_def fun_eq_iff)
    ultimately show ?thesis using s1 s23 by (simp add: same_io_def)
  qed
qed

lemma io_int_found:
  assumes "io_int_handler ssid param test ds start s = Ok s'"
  obtains a s1 d where "find_device_by_sch ssid s = Ok (Inr a, s1)" "dev_at s1 a = Some d"
    "(\<exists>i s2. q_cur d = Some i \<and> cpu_initiated_io a i test ds start s1 = Ok s2 \<and> dev_put a s2 = Ok s')
     \<or> dev_put a (put_dev a (d\<lparr>attention := attention d + 1\<rparr>) s1) = Ok s'"
proof -
  from assms obtain r s1 where f: "find_device_by_sch ssid s = Ok (r, s1)"
    by (auto simp: io_int_handler_def bindR_eq_Ok)
  with assms obtain a where r: "r = Inr a" by (cases r) (auto simp: io_int_handler_def)
  from assms f r obtain d where d: "dev_at s1 a = Some d" by (auto simp: io_int_handler_def bindR_eq_Ok)
  have "(\<exists>i s2. q_cur d = Some i \<and> cpu_initiated_io a i test ds start s1 = Ok s2 \<and> dev_put a s2 = Ok s')
     \<or> dev_put a (put_dev a (d\<lparr>attention := attention d + 1\<rparr>) s1) = Ok s'"
    using assms f r d
    by (auto simp: io_int_handler_def get_dev_def bindR_eq_Ok BUG_ON_bind Let_def split: option.splits if_splits)
  with f r d that show thesis by blast
qed

lemma io_int_cases:
  assumes "io_int_handler ssid param test ds start s = Ok s'"
  shows "same_io s s' \<or> (\<exists>a i. in_flight a s = i # in_flight a s'
    \<and> (\<forall>b. b \<noteq> a \<longrightarrow> in_flight b s' = in_flight b s) \<and> is_done s' = (is_done s)(i := True))"
proof -
  from assms obtain a s1 d where f: "find_device_by_sch ssid s = Ok (Inr a, s1)" "dev_at s1 a = Some d"
    "(\<exists>i s2. q_cur d = Some i \<and> cpu_initiated_io a i test ds start s1 = Ok s2 \<and> dev_put a s2 = Ok s')
     \<or> dev_put a (put_dev a (d\<lparr>attention := attention d + 1\<rparr>) s1) = Ok s'" by (rule io_int_found)
  have s1: "same_io s s1" using f(1) by (auto simp: find_device_by_sch_def intro: same_io_find)
  from f(3) show ?thesis
  proof
    assume "\<exists>i s2. q_cur d = Some i \<and> cpu_initiated_io a i test ds start s1 = Ok s2 \<and> dev_put a s2 = Ok s'"
    then obtain i s2 where i: "q_cur d = Some i" and c: "cpu_initiated_io a i test ds start s1 = Ok s2" "dev_put a s2 = Ok s'"
      by blast
    from cpu_initiated_cases [OF c(1)] f(2) i have "same_io s1 s2 \<or> in_flight a s1 = i # in_flight a s2
       \<and> (\<forall>b. b \<noteq> a \<longrightarrow> in_flight b s2 = in_flight b s1) \<and> is_done s2 = (is_done s1)(i := True)" by blast
    then show ?thesis using s1 same_io_get_put(2) [OF c(2)] by (auto simp: same_io_def)
  next
    assume "dev_put a (put_dev a (d\<lparr>attention := attention d + 1\<rparr>) s1) = Ok s'"
    from same_io_trans [OF s1 same_io_trans [OF same_io_put_dev [OF f(2)] same_io_get_put(2) [OF this]]]
    show ?thesis by simp
  qed
qed

section \<open>Sequences of requests and interruptions\<close>

datatype io_event = Submit u64 u64 "errno option" | Interrupt u32 u32 "errno option" u8 "errno option"

fun io_step :: "io_event \<Rightarrow> iosys \<Rightarrow> iosys result" where
  "io_step (Submit a i start) s = submit_io a i start s"
| "io_step (Interrupt ssid param test ds start) s = io_int_handler ssid param test ds start s"

fun io_run :: "io_event list \<Rightarrow> iosys \<Rightarrow> iosys result" where
  "io_run [] s = Ok s"
| "io_run (e # es) s = bindR (io_step e s) (io_run es)"

fun submitted :: "u64 \<Rightarrow> io_event list \<Rightarrow> u64 list" where
  "submitted a [] = []"
| "submitted a (Submit b i start # es) = (if a = b then i # submitted a es else submitted a es)"
| "submitted a (Interrupt ssid param test ds start # es) = submitted a es"

fun all_submitted :: "io_event list \<Rightarrow> u64 list" where
  "all_submitted [] = []"
| "all_submitted (Submit b i start # es) = i # all_submitted es"
| "all_submitted (Interrupt ssid param test ds start # es) = all_submitted es"

lemma submitted_subset: "set (submitted a es) \<subseteq> set (all_submitted es)"
  by (induction es rule: all_submitted.induct) auto

text \<open>
  Every device has the operations given to it, of which the first \<open>n\<close> are done and the others
  are in flight.
\<close>

definition io_inv :: "(u64 \<Rightarrow> u64 list) \<Rightarrow> iosys \<Rightarrow> bool" where
  "io_inv sub s \<longleftrightarrow> (\<forall>a. \<exists>n \<le> length (sub a). in_flight a s = drop n (sub a)
     \<and> (\<forall>i \<in> set (sub a). is_done s i \<longleftrightarrow> i \<in> set (take n (sub a))))
   \<and> (\<forall>a. distinct (sub a)) \<and> (\<forall>a b. a \<noteq> b \<longrightarrow> set (sub a) \<inter> set (sub b) = {})"

lemma io_inv_submit:
  assumes inv: "io_inv sub s" and new: "\<forall>b. i \<notin> set (sub b)" and st: "submit_io a i start s = Ok s'"
  shows "io_inv (sub(a := sub a @ [i])) s'"
proof -
  note add = submit_io_adds [OF st]
  have "\<exists>n \<le> length ((sub(a := sub a @ [i])) b). in_flight b s' = drop n ((sub(a := sub a @ [i])) b)
     \<and> (\<forall>j \<in> set ((sub(a := sub a @ [i])) b). is_done s' j \<longleftrightarrow> j \<in> set (take n ((sub(a := sub a @ [i])) b)))" for b
  proof -
    from inv obtain n where n: "n \<le> length (sub b)" "in_flight b s = drop n (sub b)"
      "\<forall>j \<in> set (sub b). is_done s j \<longleftrightarrow> j \<in> set (take n (sub b))" unfolding io_inv_def by blast
    have "i \<notin> set (take n (sub b))" using new in_set_takeD by fastforce
    then show ?thesis using n add new by (intro exI [of _ n]) auto
  qed
  moreover have "distinct ((sub(a := sub a @ [i])) b)" for b using inv new by (auto simp: io_inv_def)
  moreover have "set ((sub(a := sub a @ [i])) b) \<inter> set ((sub(a := sub a @ [i])) c) = {}" if "b \<noteq> c" for b c
    using inv new that unfolding io_inv_def by (auto split: if_splits)
  ultimately show ?thesis unfolding io_inv_def by blast
qed

lemma io_inv_interrupt:
  assumes inv: "io_inv sub s" and st: "io_int_handler ssid param test ds start s = Ok s'"
  shows "io_inv sub s'"
  using io_int_cases [OF st]
proof
  assume "same_io s s'"
  then show ?thesis using inv by (simp add: io_inv_def same_io_def)
next
  assume "\<exists>a i. in_flight a s = i # in_flight a s' \<and> (\<forall>b. b \<noteq> a \<longrightarrow> in_flight b s' = in_flight b s) \<and> is_done s' = (is_done s)(i := True)"
  then obtain a i where a: "in_flight a s = i # in_flight a s'" "\<forall>b. b \<noteq> a \<longrightarrow> in_flight b s' = in_flight b s"
    "is_done s' = (is_done s)(i := True)" by blast
  have "\<exists>n \<le> length (sub b). in_flight b s' = drop n (sub b)
     \<and> (\<forall>j \<in> set (sub b). is_done s' j \<longleftrightarrow> j \<in> set (take n (sub b)))" for b
  proof -
    from inv obtain n where n: "n \<le> length (sub b)" "in_flight b s = drop n (sub b)"
      "\<forall>j \<in> set (sub b). is_done s j \<longleftrightarrow> j \<in> set (take n (sub b))" unfolding io_inv_def by blast
    show ?thesis
    proof (cases "b = a")
      case True
      then have d: "drop n (sub b) = i # in_flight b s'" using a(1) n(2) by simp
      then have "n < length (sub b)" "sub b ! n = i" "drop (Suc n) (sub b) = in_flight b s'"
        by (metis drop_all list.discI not_le, metis drop_all hd_drop_conv_nth list.discI list.sel(1) not_le,
            metis drop_Suc list.sel(3) tl_drop)
      then show ?thesis using n a(3) by (intro exI [of _ "Suc n"]) (auto simp: take_Suc_conv_app_nth)
    next
      case False
      have "i \<in> set (sub a)" using inv a(1) unfolding io_inv_def by (metis in_set_dropD list.set_intros(1))
      then have "i \<notin> set (sub b)" using inv False unfolding io_inv_def by blast
      then show ?thesis using n a False by (intro exI [of _ n]) auto
    qed
  qed
  then show ?thesis using inv by (simp add: io_inv_def)
qed

lemma io_inv_run:
  assumes "io_inv sub s" and "io_run es s = Ok s'" and "distinct (all_submitted es)"
    and "\<forall>b. set (sub b) \<inter> set (all_submitted es) = {}"
  shows "io_inv (\<lambda>a. sub a @ submitted a es) s'"
  using assms
proof (induction es arbitrary: sub s)
  case (Cons e es)
  then obtain s1 where s1: "io_step e s = Ok s1" "io_run es s1 = Ok s'" by (auto simp: bindR_eq_Ok)
  show ?case
  proof (cases e)
    case (Submit a i start)
    have "io_inv (sub(a := sub a @ [i])) s1" using Cons.prems s1(1) Submit by (intro io_inv_submit) auto
    from Cons.IH [OF this s1(2)] Cons.prems Submit have "io_inv (\<lambda>b. (sub(a := sub a @ [i])) b @ submitted b es) s'" by auto
    moreover have "(\<lambda>b. (sub(a := sub a @ [i])) b @ submitted b es) = (\<lambda>b. sub b @ submitted b (e # es))"
      by (auto simp: Submit)
    ultimately show ?thesis by simp
  next
    case (Interrupt ssid param test ds start)
    have "io_inv sub s1" using Cons.prems(1) s1(1) Interrupt by (auto intro: io_inv_interrupt)
    from Cons.IH [OF this s1(2)] Cons.prems Interrupt show ?thesis by simp
  qed
qed simp


section \<open>An operation that could not be started\<close>

definition idle :: "u64 \<Rightarrow> u64 list \<Rightarrow> iosys \<Rightarrow> bool" where
  "idle a q s \<longleftrightarrow> (\<exists>d. dev_at s a = Some d \<and> q_cur d = None \<and> q_out d = q)"

lemma idle_in_flight: "idle a q s \<Longrightarrow> in_flight a s = q"
  by (auto simp: idle_def in_flight_def)

lemma idle_put [simp]: "idle a q (put_op i p s) = idle a q s" "b \<noteq> a \<Longrightarrow> idle a q (put_dev b d s) = idle a q s"
  by (auto simp: idle_def)

lemma idle_put_same: "idle a q s \<Longrightarrow> dev_at s b = Some d \<Longrightarrow> q_cur d' = q_cur d \<Longrightarrow> q_out d' = q_out d \<Longrightarrow> idle a q (put_dev b d' s)"
  by (auto simp: idle_def)

lemma idle_get_put: "dev_get b s = Ok s' \<Longrightarrow> idle a q s \<Longrightarrow> idle a q s'" "dev_put b s = Ok s' \<Longrightarrow> idle a q s \<Longrightarrow> idle a q s'"
  by (auto simp: dev_get_def dev_put_def Let_def bindR_eq_Ok intro: idle_put_same)

lemma idle_find: "find_device P as s = Ok (r, s') \<Longrightarrow> idle a q s \<Longrightarrow> idle a q s'"
  by (induction as) (auto simp: bindR_eq_Ok idle_get_put split: if_splits)

lemma idle_submit_next: "submit_next b start s = Ok s' \<Longrightarrow> b \<noteq> a \<Longrightarrow> idle a q s \<Longrightarrow> idle a q s'"
  by (auto simp: submit_next_def bindR_eq_Ok split: if_splits list.splits option.splits)

lemma idle_cpu_initiated: "cpu_initiated_io b i test ds start s = Ok s' \<Longrightarrow> b \<noteq> a \<Longrightarrow> idle a q s \<Longrightarrow> idle a q s'"
  by (auto simp: cpu_initiated_io_def bindR_eq_Ok Let_def idle_submit_next split: if_splits)

lemma idle_io_int:
  assumes "io_int_handler ssid param test ds start s = Ok s'" and "idle a q s"
  shows "idle a q s'"
proof -
  from assms(1) obtain b s1 d where f: "find_device_by_sch ssid s = Ok (Inr b, s1)" "dev_at s1 b = Some d"
    "(\<exists>i s2. q_cur d = Some i \<and> cpu_initiated_io b i test ds start s1 = Ok s2 \<and> dev_put b s2 = Ok s')
     \<or> dev_put b (put_dev b (d\<lparr>attention := attention d + 1\<rparr>) s1) = Ok s'" by (rule io_int_found)
  have s1: "idle a q s1" using f(1) assms(2) by (auto simp: find_device_by_sch_def intro: idle_find)
  from f(3) show ?thesis
  proof
    assume "\<exists>i s2. q_cur d = Some i \<and> cpu_initiated_io b i test ds start s1 = Ok s2 \<and> dev_put b s2 = Ok s'"
    then obtain i s2 where i: "q_cur d = Some i" "cpu_initiated_io b i test ds start s1 = Ok s2" "dev_put b s2 = Ok s'" by blast
    then have "b \<noteq> a" using s1 f(2) by (auto simp: idle_def)
    with i s1 show ?thesis by (metis idle_cpu_initiated idle_get_put(2))
  next
    assume "dev_put b (put_dev b (d\<lparr>attention := attention d + 1\<rparr>) s1) = Ok s'"
    then show ?thesis using idle_put_same [OF s1 f(2)] by (auto intro: idle_get_put)
  qed
qed

fun only_interrupts :: "io_event list \<Rightarrow> bool" where
  "only_interrupts [] \<longleftrightarrow> True"
| "only_interrupts (Submit a i start # es) \<longleftrightarrow> False"
| "only_interrupts (Interrupt ssid param test ds start # es) \<longleftrightarrow> only_interrupts es"

lemma interrupts_keep_waiting:
  assumes "only_interrupts es" and "io_run es s = Ok s'" and "idle a q s" and "i \<in> set q"
    and "\<forall>b. b \<noteq> a \<longrightarrow> i \<notin> set (in_flight b s)" and "\<not> is_done s i"
  shows "idle a q s' \<and> \<not> is_done s' i"
  using assms
proof (induction es arbitrary: s rule: only_interrupts.induct)
  case (3 ssid param test ds start es)
  then obtain s1 where s1: "io_int_handler ssid param test ds start s = Ok s1" "io_run es s1 = Ok s'"
    by (auto simp: bindR_eq_Ok)
  have id1: "idle a q s1" using idle_io_int [OF s1(1) 3(4)] .
  note fl = idle_in_flight [OF 3(4)] idle_in_flight [OF id1]
  from io_int_cases [OF s1(1)] have "(\<forall>b. b \<noteq> a \<longrightarrow> i \<notin> set (in_flight b s1)) \<and> \<not> is_done s1 i"
  proof
    assume "same_io s s1"
    then show ?thesis using 3(6,7) by (simp add: same_io_def)
  next
    assume "\<exists>b j. in_flight b s = j # in_flight b s1 \<and> (\<forall>c. c \<noteq> b \<longrightarrow> in_flight c s1 = in_flight c s) \<and> is_done s1 = (is_done s)(j := True)"
    then obtain b j where b: "in_flight b s = j # in_flight b s1" "\<forall>c. c \<noteq> b \<longrightarrow> in_flight c s1 = in_flight c s"
      "is_done s1 = (is_done s)(j := True)" by blast
    have ba: "b \<noteq> a" using b(1) fl by auto
    with 3(6) b(1) have "i \<noteq> j" "i \<notin> set (in_flight b s1)" by auto
    with 3(6,7) b show ?thesis by (metis fun_upd_apply)
  qed
  with 3 s1 id1 show ?case by simp
qed auto

section \<open>Blocks of a disk\<close>

lemma recs_4096: "d3390_recs_per_track 0 4096 = 12"
  by code_simp

lemma uint_word_of_int_small: "0 \<le> x \<Longrightarrow> x < 2 ^ LENGTH('a) \<Longrightarrow> uint (word_of_int x :: 'a::len word) = x"
  by (simp add: uint_word_of_int)

lemma div_bound:
  fixes l :: int
  assumes "l < n * m" and "0 < m"
  shows "l div m < n"
proof (rule ccontr)
  assume "\<not> l div m < n"
  then have "n * m \<le> l div m * m" using assms(2) by (intro mult_right_mono) auto
  moreover have "l div m * m \<le> l" using div_mult_mod_eq [of l m] pos_mod_sign [OF assms(2), of l] by linarith
  ultimately show False using assms(1) by linarith
qed

lemma locate_spec:
  fixes lba :: int
  assumes "0 < uint (tracks e)" and "0 < uint (erecs e)" and "1 \<le> lba"
    and "lba \<le> 65536 * (uint (tracks e) * uint (erecs e))"
  shows "\<exists>cc hh r. d3390_locate e lba = Ok (Inr (cc, hh, r)) \<and> uint hh < uint (tracks e)
    \<and> 1 \<le> uint r \<and> uint r \<le> uint (erecs e)
    \<and> lba = (uint cc * uint (tracks e) + uint hh) * uint (erecs e) + uint r"
proof -
  define t rp l where "t = uint (tracks e)" and "rp = uint (erecs e)" and "l = lba - 1"
  have b: "0 < t" "0 < rp" "0 \<le> l" "t < 65536" "rp < 65536" "0 < t * rp"
    using assms uint_lt2p [of "tracks e"] uint_lt2p [of "erecs e"] by (simp_all add: t_def rp_def l_def)
  have c: "0 \<le> l div (t * rp)" "l div (t * rp) < 65536"
    using div_bound [of l 65536 "t * rp"] assms(4) b by (simp_all add: l_def t_def rp_def pos_imp_zdiv_nonneg_iff)
  have m: "0 \<le> l mod (t * rp)" "l mod (t * rp) < t * rp" using b(6) by simp_all
  have h: "0 \<le> l mod (t * rp) div rp" "l mod (t * rp) div rp < t"
    using div_bound [OF m(2) b(2)] m(1) b(2) by (simp_all add: pos_imp_zdiv_nonneg_iff)
  have r: "0 \<le> l mod (t * rp) mod rp" "l mod (t * rp) mod rp < rp" using b(2) by simp_all
  have r1: "l mod (t * rp) mod rp + 1 < 65536" using r b by linarith
  define cc hh r where "cc = (word_of_int (l div (t * rp)) :: u16)" and "hh = (word_of_int (l mod (t * rp) div rp) :: u16)"
    and "r = (word_of_int (l mod (t * rp) mod rp) + 1 :: u16)"
  have u: "uint cc = l div (t * rp)" "uint hh = l mod (t * rp) div rp" "uint r = l mod (t * rp) mod rp + 1"
  proof -
    show "uint cc = l div (t * rp)" unfolding cc_def by (rule uint_word_of_int_small) (use c in simp_all)
    show "uint hh = l mod (t * rp) div rp" unfolding hh_def by (rule uint_word_of_int_small) (use h b in simp_all)
    have "r = word_of_int (l mod (t * rp) mod rp + 1)" by (simp add: r_def)
    moreover have "uint (word_of_int (l mod (t * rp) mod rp + 1) :: u16) = l mod (t * rp) mod rp + 1"
      by (rule uint_word_of_int_small) (use r1 r(1) in simp_all)
    ultimately show "uint r = l mod (t * rp) mod rp + 1" by (simp only:)
  qed
  have "l = l div (t * rp) * (t * rp) + l mod (t * rp)" by (simp only: div_mult_mod_eq)
  also have "l mod (t * rp) = l mod (t * rp) div rp * rp + l mod (t * rp) mod rp" by (simp only: div_mult_mod_eq)
  finally have "l = (uint cc * t + uint hh) * rp + (uint r - 1)" unfolding u by (simp only: distrib_right mult.assoc)
  moreover have "d3390_locate e lba = Ok (Inr (cc, hh, r))"
    using assms(1-3) b(6) by (simp add: d3390_locate_def Let_def cc_def hh_def r_def t_def rp_def l_def)
  ultimately show ?thesis using h r u by (intro exI [of _ cc] exI [of _ hh] exI [of _ r]) (simp add: t_def rp_def l_def)
qed


section \<open>Properties\<close>

text \<open>
  (C8) The operations submitted to a device complete in the order they were submitted, whatever
  requests to other devices and interruptions come between, and whatever the channel subsystem
  answers: at every moment the first \<open>n\<close> are done and the others are waiting, in order.
\<close>

theorem io_completes_in_order:
  assumes "io_run es s = Ok s'" and "\<And>b. in_flight b s = []" and "distinct (all_submitted es)"
  shows "\<exists>n \<le> length (submitted a es). in_flight a s' = drop n (submitted a es)
    \<and> (\<forall>i \<in> set (submitted a es). is_done s' i \<longleftrightarrow> i \<in> set (take n (submitted a es)))"
proof -
  have "io_inv (\<lambda>_. []) s" using assms(2) by (simp add: io_inv_def)
  from io_inv_run [OF this assms(1,3)] show ?thesis by (simp add: io_inv_def)
qed

text \<open>A device for the examples, and a request for it that is then interrupted by its completion.\<close>

definition example_device :: device where
  "example_device = \<lparr>d_sch = 0x10002, d_type = 0x3390, d_model = 0x0a, ccuu = 0x191, d_dev = Some 0x9000, q_cur = None, q_out = [],
     attention = 0, in_use = False, refcnt = 1,
     d_eckd = \<lparr>cyls = 3339, tracks = 15, tlen = 56664, erecs = 12, sectors = 224, formula = 0, factors = []\<rparr>,
     d_fba = \<lparr>blk_size = 0, bpg = 0, bpp = 0, blks = 0\<rparr>\<rparr>"

definition example_io :: iosys where
  "example_io = \<lparr>dev_types = [], devs = [0x100], dev_at = [0x100 \<mapsto> example_device],
     op_at = [1 \<mapsto> \<lparr>io_param = 0, io_err = None, io_done = False\<rparr>, 2 \<mapsto> \<lparr>io_param = 0, io_err = None, io_done = False\<rparr>],
     op_id_counter = 0\<rparr>"

lemma example_io_idle: "in_flight b example_io = []"
  by (simp add: in_flight_def example_io_def example_device_def)

lemma example_io_run:
  "\<exists>s. io_run [Submit 0x100 1 None, Submit 0x100 2 None, Interrupt 0x10002 1 None 0x0c None] example_io = Ok s"
  by (simp add: example_io_def example_device_def submit_io_def submit_next_def get_op_def get_dev_def put_op_def put_dev_def
      io_int_handler_def find_device_by_sch_def dev_get_def dev_put_def cpu_initiated_io_def default_io_handler_def)

theorem io_completes_in_order_witness:
  "\<exists>s n. io_run [Submit 0x100 1 None, Submit 0x100 2 None, Interrupt 0x10002 1 None 0x0c None] example_io = Ok s
     \<and> in_flight 0x100 s = drop n [1, 2] \<and> (is_done s 1 \<longleftrightarrow> 1 \<in> set (take n [1, 2 :: u64]))"
proof -
  obtain s where s: "io_run [Submit 0x100 1 None, Submit 0x100 2 None, Interrupt 0x10002 1 None 0x0c None] example_io = Ok s"
    using example_io_run by blast
  from io_completes_in_order [OF s example_io_idle, of "0x100"]
  obtain n where "in_flight 0x100 s = drop n [1, 2]" "is_done s 1 \<longleftrightarrow> 1 \<in> set (take n [1, 2 :: u64])" by auto
  with s show ?thesis by blast
qed

text \<open>
  (C38) An operation whose start the channel subsystem rejects stays on the queue of the idle device
  with its error set, and no sequence of interruptions ever starts it or marks it done: a caller
  that waits for it waits until another operation is submitted to the device.
\<close>

theorem submit_io_rejected_waits:
  assumes "submit_io a i (Some e) s = Ok s1" and "idle a [] s" and "\<And>b. b \<noteq> a \<Longrightarrow> i \<notin> set (in_flight b s)"
    and "only_interrupts es" and "io_run es s1 = Ok s2"
  shows "(\<exists>p. op_at s1 i = Some p \<and> io_err p = Some e) \<and> in_flight a s2 = [i] \<and> \<not> is_done s2 i"
proof -
  note add = submit_io_adds [OF assms(1)]
  from assms(2) obtain d where d: "dev_at s a = Some d" "q_cur d = None" "q_out d = []" by (auto simp: idle_def)
  from assms(1) d obtain p where p: "op_at s i = Some p" by (auto simp: submit_io_def bindR_eq_Ok)
  have s1: "(\<exists>p. op_at s1 i = Some p \<and> io_err p = Some e) \<and> idle a [i] s1"
    using assms(1) d p by (auto simp: submit_io_def submit_next_def get_op_def get_dev_def put_op_def put_dev_def Let_def idle_def)
  have "\<forall>b. b \<noteq> a \<longrightarrow> i \<notin> set (in_flight b s1)" "\<not> is_done s1 i" using add assms(3) by auto
  from interrupts_keep_waiting [OF assms(4,5) conjunct2 [OF s1] _ this] s1 show ?thesis
    by (auto simp: idle_in_flight)
qed

theorem submit_io_rejected_waits_witness:
  "\<exists>s1 s2. submit_io 0x100 1 (Some EBUSY) example_io = Ok s1 \<and> io_run [Interrupt 0x10002 0 None 0x80 None] s1 = Ok s2
     \<and> in_flight 0x100 s2 = [1] \<and> \<not> is_done s2 1"
proof -
  obtain s1 s2 where s: "submit_io 0x100 1 (Some EBUSY) example_io = Ok s1" "io_run [Interrupt 0x10002 0 None 0x80 None] s1 = Ok s2"
    by (simp add: example_io_def example_device_def submit_io_def submit_next_def get_op_def get_dev_def put_op_def put_dev_def
        io_int_handler_def find_device_by_sch_def dev_get_def dev_put_def)
  have "idle 0x100 [] example_io" by (simp add: idle_def example_io_def example_device_def)
  from submit_io_rejected_waits [OF s(1) this _ _ s(2)] s show ?thesis by (auto simp: example_io_idle)
qed

text \<open>
  The place of a block on a disk determines it: the record number is between 1 and the
  records of a track, the head is below the tracks of a cylinder, and the block number can be
  computed back from cylinder, head and record, so two blocks are never read from one place.
\<close>

theorem d3390_locate_correct:
  assumes "0 < uint (tracks e)" and "erecs e = ucast (d3390_recs_per_track 0 4096)" and "1 \<le> lba"
    and "lba \<le> 65536 * (uint (tracks e) * 12)"
  shows "\<exists>cc hh r. d3390_locate e lba = Ok (Inr (cc, hh, r)) \<and> uint hh < uint (tracks e)
    \<and> 1 \<le> uint r \<and> uint r \<le> 12 \<and> lba = (uint cc * uint (tracks e) + uint hh) * 12 + uint r"
proof -
  have "uint (erecs e) = 12" by (simp add: assms(2) recs_4096)
  with locate_spec [of e lba] assms show ?thesis by simp
qed

theorem d3390_locate_correct_witness:
  "\<exists>cc hh r. d3390_locate (d_eckd example_device) 200 = Ok (Inr (cc, hh, r)) \<and> uint hh < 15
    \<and> 1 \<le> uint r \<and> uint r \<le> 12 \<and> 200 = (uint cc * 15 + uint hh) * 12 + uint r"
  using d3390_locate_correct [of "d_eckd example_device" 200] by (simp add: example_device_def recs_4096)

end
