(* ===== verification/Channel.thy ===== *)
theory Channel
  imports Device
begin

text \<open>
  Virtual I/O: the instructions a guest does I/O with
  (\<^verbatim>\<open>src/cp/guest/instruction_priv.c\<close>, \<^verbatim>\<open>instruction.c\<close>, \<^verbatim>\<open>intercept.c\<close>,
  \<^verbatim>\<open>run.c\<close>), the channel programs they start on devices backed by the spool
  (\<^verbatim>\<open>src/cp/drivers/spooldev.c\<close>, \<^verbatim>\<open>spooldev_cons.c\<close>), and how virtual devices come
  to be (\<^verbatim>\<open>src/cp/drivers/vdevice.c\<close>, \<^verbatim>\<open>src/cp/guest/attach.c\<close>).  A virtual device
  is named by its place on the list of its system.  An index into \<^verbatim>\<open>errstrings\<close> that is
  negative, and one past the table of intercept handlers, are stops.
\<close>

section \<open>Structures in guest storage\<close>

definition pmcw_bytes :: "pmcw \<Rightarrow> u8 list" where
  "pmcw_bytes p = put32 (interrupt_param p) @ put32 (pw1 p) @ put32 (pw2 p) @ put32 (pw3 p) @ put32 (pw4 p)
     @ put32 (pw5 p) @ put32 (pw6 p)"

definition pmcw_of_bytes :: "u8 list \<Rightarrow> pmcw" where
  "pmcw_of_bytes bs = \<lparr>interrupt_param = get32 bs, pw1 = get32 (drop 4 bs), pw2 = get32 (drop 8 bs), pw3 = get32 (drop 12 bs),
     pw4 = get32 (drop 16 bs), pw5 = get32 (drop 20 bs), pw6 = get32 (drop 24 bs)\<rparr>"

definition scsw_bytes :: "scsw \<Rightarrow> u8 list" where
  "scsw_bytes w = put32 (sw0 w) @ put32 (sw_addr w) @ put32 (sw2 w)"

definition orb_of_bytes :: "u8 list \<Rightarrow> orb" where
  "orb_of_bytes bs = \<lparr>orb_param = get32 bs, orb_w1 = get32 (drop 4 bs), orb_addr = get32 (drop 8 bs),
     orb_rest = map (\<lambda>k. get32 (drop (4 * k) bs)) [3, 4, 5, 6, 7]\<rparr>"

definition sizeof_pmcw :: nat where "sizeof_pmcw = 28"
definition sizeof_schib :: nat where "sizeof_schib = 52"
definition sizeof_orb :: nat where "sizeof_orb = 32"

text \<open>Channel command words; format 0 has its fields elsewhere and is converted to format 1.\<close>

record ccw =
  c_cmd :: u8
  c_flags :: u8
  c_count :: u16
  c_addr :: u32

definition ccw1_of_bytes :: "u8 list \<Rightarrow> ccw" where
  "ccw1_of_bytes bs = \<lparr>c_cmd = bs ! 0, c_flags = bs ! 1, c_count = get16 (bs ! 2) (bs ! 3), c_addr = get32 (drop 4 bs)\<rparr>"

definition ccw0_to_ccw1 :: "u8 list \<Rightarrow> ccw" where
  "ccw0_to_ccw1 bs =
     \<lparr>c_cmd = (if bs ! 0 AND 0x0f = 8 then 8 else bs ! 0), c_flags = bs ! 4, c_count = get16 (bs ! 6) (bs ! 7),
      c_addr = push_bit 16 (ucast (bs ! 1)) OR ucast (get16 (bs ! 2) (bs ! 3))\<rparr>"

definition CCW_CMD_TIC :: u8 where "CCW_CMD_TIC = 8"
definition IS_CCW_WRITE :: "u8 \<Rightarrow> bool" where "IS_CCW_WRITE c \<longleftrightarrow> c AND 3 = 1"
definition IS_CCW_READ :: "u8 \<Rightarrow> bool" where "IS_CCW_READ c \<longleftrightarrow> c AND 3 = 2"
definition CCW_FLAG_CD :: u8 where "CCW_FLAG_CD = 0x80"
definition CCW_FLAG_CC :: u8 where "CCW_FLAG_CC = 0x40"
definition CCW_FLAG_SKP :: u8 where "CCW_FLAG_SKP = 0x10"
definition CCW_FLAG_PCI :: u8 where "CCW_FLAG_PCI = 8"
definition CCW_FLAG_IDA :: u8 where "CCW_FLAG_IDA = 4"
definition CCW_FLAG_S :: u8 where "CCW_FLAG_S = 2"
definition CCW_FLAG_MIDA :: u8 where "CCW_FLAG_MIDA = 1"

definition SC_STATUS_CE :: u8 where "SC_STATUS_CE = 8"
definition SC_STATUS_DE :: u8 where "SC_STATUS_DE = 4"
definition SC_STATUS_UC :: u8 where "SC_STATUS_UC = 2"
definition SC_PROG_CHK :: u8 where "SC_PROG_CHK = 0x20"
definition SC_PROT_CHK :: u8 where "SC_PROT_CHK = 0x10"
definition SENSE_CMDREJ :: u8 where "SENSE_CMDREJ = 0"

definition CE_DE :: u8 where "CE_DE = SC_STATUS_CE OR SC_STATUS_DE"

section \<open>Virtual devices\<close>

definition upd_dev :: "nat \<Rightarrow> (virt_device \<Rightarrow> virt_device) \<Rightarrow> virt_sys \<Rightarrow> virt_sys" where
  "upd_dev i f s = s\<lparr>virt_devs := (virt_devs s)[i := f (virt_devs s ! i)]\<rparr>"

definition find_vdev :: "u32 \<Rightarrow> virt_device list \<Rightarrow> nat option" where
  "find_vdev n ds = find (\<lambda>i. sch (ds ! i) = n) [0..<length ds]"

record directory_vdev =
  dv_type :: vdevtype
  dv_vdev :: u16
  dv_rdev :: u16
  dv_stype :: u16
  dv_smodel :: u8

text \<open>\<^verbatim>\<open>sizeof(struct virt_device)\<close>.\<close>

definition sizeof_virt_device :: int where "sizeof_virt_device = 160"

definition setup_vdev_ded :: "directory_vdev \<Rightarrow> virt_device \<Rightarrow> iosys \<Rightarrow> (errno option \<times> virt_device \<times> iosys) result" where
  "setup_vdev_ded dirdev v io =
     bindR (find_device_by_ccuu (dv_rdev dirdev) io) (\<lambda>(r, io). case r of
         Inl e \<Rightarrow> Ok (Some e, v, io)
       | Inr a \<Rightarrow> bindR (get_dev a io) (\<lambda>d.
           if in_use d then Ok (Some EBUSY, v, io)
           else Ok (None, v\<lparr>backed := Dedicated a, vd_type := d_type d, vd_model := d_model d\<rparr>, put_dev a (d\<lparr>in_use := True\<rparr>) io)))"

text \<open>\<open>raw\<close> is what the new object holds before its fields are assigned.\<close>

definition alloc_virt_dev :: "virt_device \<Rightarrow> directory_vdev \<Rightarrow> u32 \<Rightarrow> iosys \<Rightarrow> virt_sys \<Rightarrow> (errno option \<times> iosys \<times> virt_sys) result" where
  "alloc_virt_dev raw dirdev n io s =
     bindR (malloc sizeof_virt_device ZONE_NORMAL (heap s)) (\<lambda>(p, h). case p of
         None \<Rightarrow> Ok (Some ENOMEM, io, s\<lparr>heap := h\<rparr>)
       | Some p \<Rightarrow>
           let q = pmcw raw;
               q = q\<lparr>pw1 := setf 0 16 (ucast (dv_vdev dirdev)) (setf 16 1 1 (pw1 q)),
                     pw2 := setf 0 8 0x80 (setf 24 8 0x80 (pw2 q)), pw3 := setf 0 8 0x80 (setf 8 8 0xff (pw3 q))\<rparr>;
               v = raw\<lparr>vtype := dv_type dirdev, sch := n, pmcw := q\<rparr>
           in bindR (case dv_type dirdev of
                  VDEV_CONS \<Rightarrow> Ok (None, v\<lparr>backed := Spooled None (Some spool_cons_ops), vd_type := 0x3215, vd_model := 0\<rparr>, io)
                | VDEV_SPOOL \<Rightarrow> Ok (None, v\<lparr>backed := Spooled None None, vd_type := dv_stype dirdev, vd_model := dv_smodel dirdev\<rparr>, io)
                | VDEV_DED \<Rightarrow> setup_vdev_ded dirdev v io
                | VDEV_MDISK \<Rightarrow> Ok (None, v\<lparr>vd_type := 0x3390, vd_model := 3\<rparr>, io)
                | VDEV_LINK \<Rightarrow> Ok (Some EINVAL, v, io)
                | VDEV_INVAL \<Rightarrow> Ok (Some EINVAL, v, io)) (\<lambda>(ret, v, io). case ret of
                  None \<Rightarrow> Ok (None, io, s\<lparr>heap := h, virt_devs := virt_devs s @ [v]\<rparr>)
                | Some e \<Rightarrow> bindR (free (Some p) h) (\<lambda>h. Ok (Some e, io, s\<lparr>heap := h\<rparr>))))"

definition free_number :: "(virt_device \<Rightarrow> u32) \<Rightarrow> nat \<Rightarrow> virt_device list \<Rightarrow> nat option" where
  "free_number f lo ds = find (\<lambda>n. \<forall>v \<in> set ds. f v \<noteq> of_nat n) [lo..<lo + 0x10000]"

text \<open>\<open>vdev\<close> is \<open>None\<close> where the caller passes -1.\<close>

definition guest_attach :: "virt_device \<Rightarrow> u16 \<Rightarrow> u16 option \<Rightarrow> iosys \<Rightarrow> virt_sys \<Rightarrow> (errno option \<times> iosys \<times> virt_sys) result" where
  "guest_attach raw rdev vdev io s =
     (let num = (case vdev of Some n \<Rightarrow> Some n
                 | None \<Rightarrow> map_option of_nat (free_number (\<lambda>v. pmcw_dev_num (pmcw v)) 0 (virt_devs s)))
      in case num of
        None \<Rightarrow> Ok (Some EBUSY, io, s)
      | Some n \<Rightarrow>
          (case free_number sch 0x10000 (virt_devs s) of
             None \<Rightarrow> Ok (Some EBUSY, io, s)
           | Some c \<Rightarrow> alloc_virt_dev raw \<lparr>dv_type = VDEV_DED, dv_vdev = n, dv_rdev = rdev, dv_stype = 0, dv_smodel = 0\<rparr>
               (of_nat c) io s))"

section \<open>Channel programs\<close>

record spdev_state =
  dev_status :: u8
  sch_status :: u8
  st_addr :: u32
  st_f :: bool
  iobuf :: "u8 list"
  rem :: u32
  pos :: u32
  cd :: bool
  tic2tic :: bool
  ops :: "spool_ops option"

definition xfer_storage :: "bool \<Rightarrow> ccw \<Rightarrow> virt_sys \<Rightarrow> spdev_state \<Rightarrow> (virt_sys \<times> spdev_state) result" where
  "xfer_storage write c s st =
     bindR (BUG_ON (c_flags c AND (CCW_FLAG_IDA OR CCW_FLAG_MIDA) \<noteq> 0)) (\<lambda>_.
       let gaddr = ucast (c_addr c); len = unat (c_count c)
       in if len = 0 then Ok (s, st)
          else if gaddr > storage_size s then Ok (s, st\<lparr>sch_status := SC_PROG_CHK\<rparr>)
          else
            let (ret, copied, s, st) =
                  (if write
                   then case memcpy_from_guest (xlate s) gaddr len (storage s) of
                          (ret, bs) \<Rightarrow> (ret, length bs, s, st\<lparr>iobuf := bs @ drop (length bs) (iobuf st)\<rparr>)
                   else case memcpy_to_guest (xlate s) gaddr (take len (iobuf st)) (storage s) of
                          (ret, n, m) \<Rightarrow> (ret, n, s\<lparr>storage := m\<rparr>, st));
                st = (if ret \<noteq> None then st\<lparr>sch_status := SC_PROT_CHK\<rparr> else st)
            in Ok (s, st\<lparr>pos := 0, rem := of_nat copied\<rparr>))"

definition get_ccw :: "virt_sys \<Rightarrow> spdev_state \<Rightarrow> spdev_state \<times> ccw option" where
  "get_ccw s st =
     (if (\<not> st_f st \<and> st_addr st AND 0xff000000 \<noteq> 0) \<or> (st_f st \<and> st_addr st AND 0x80000000 \<noteq> 0)
         \<or> st_addr st AND 7 \<noteq> 0
      then (st\<lparr>sch_status := SC_PROG_CHK\<rparr>, None)
      else case memcpy_from_guest (xlate s) (ucast (st_addr st)) 8 (storage s) of
        (Some e, bs) \<Rightarrow> (st\<lparr>sch_status := SC_PROT_CHK\<rparr>, None)
      | (None, bs) \<Rightarrow> (st, Some (if st_f st then ccw1_of_bytes bs else ccw0_to_ccw1 bs)))"

definition spooldev_cmdrej :: "nat \<Rightarrow> virt_sys \<Rightarrow> spdev_state \<Rightarrow> virt_sys \<times> spdev_state" where
  "spooldev_cmdrej i s st =
     (upd_dev i (\<lambda>v. v\<lparr>sense := SENSE_CMDREJ\<rparr>) s, st\<lparr>dev_status := SC_STATUS_CE OR SC_STATUS_DE OR SC_STATUS_UC\<rparr>)"

definition spooled_file :: "virt_device \<Rightarrow> spool_file option" where
  "spooled_file v = (case backed v of Spooled f _ \<Rightarrow> f | _ \<Rightarrow> None)"

definition spooled_ops :: "virt_device \<Rightarrow> spool_ops option" where
  "spooled_ops v = (case backed v of Spooled _ o' \<Rightarrow> o' | _ \<Rightarrow> None)"

definition open_spoolfile :: "nat \<Rightarrow> virt_sys \<Rightarrow> ((errno + spool_file) \<times> virt_sys) result" where
  "open_spoolfile i s =
     (let v = virt_devs s ! i in
      case spooled_file v of
        Some f \<Rightarrow> Ok (Inr f, s)
      | None \<Rightarrow>
          bindR (alloc_spool (heap s)) (\<lambda>(r, h). case r of
              Inl e \<Rightarrow> Ok (Inl e, s\<lparr>heap := h\<rparr>)
            | Inr (a, f) \<Rightarrow> Ok (Inr f, upd_dev i (\<lambda>v. v\<lparr>backed := Spooled (Some f) (spooled_ops v)\<rparr>) (s\<lparr>heap := h\<rparr>))))"

text \<open>What a fresh spool page holds is what its frame holds, behind the list head of 16 bytes.\<close>

definition fresh_page :: "virt_sys \<Rightarrow> u64 \<Rightarrow> u8 list" where
  "fresh_page s a = read_bytes (storage s) (a + 16) SPOOL_DATA_SIZE"

definition cons_write :: "nat \<Rightarrow> ccw \<Rightarrow> virt_sys \<Rightarrow> spdev_state \<Rightarrow> (virt_sys \<times> spdev_state) result" where
  "cons_write i c s st =
     (let st = st\<lparr>dev_status := SC_STATUS_CE OR SC_STATUS_DE\<rparr> in
      if c_cmd c \<noteq> 1
      then Ok (upd_dev i (\<lambda>v. v\<lparr>sense := SENSE_CMDREJ\<rparr>) s, st\<lparr>dev_status := dev_status st OR SC_STATUS_UC\<rparr>)
      else bindR (open_spoolfile i s) (\<lambda>(r, s). case r of
          Inl e \<Rightarrow> Stop OutOfBounds
        | Inr f \<Rightarrow>
            let len = min (unat (c_count c)) 150
            in bindR (spool_append_rec (fresh_page s) f (Some (iobuf st)) (of_nat len) (mm (heap s))) (\<lambda>(e, f, b). case e of
                Some e \<Rightarrow> Stop OutOfBounds
              | None \<Rightarrow> Ok (upd_dev i (\<lambda>v. v\<lparr>backed := Spooled (Some f) (spooled_ops v)\<rparr>) (s\<lparr>heap := (heap s)\<lparr>mm := b\<rparr>\<rparr>),
                             st\<lparr>rem := rem st - of_nat len, pos := pos st + of_nat len\<rparr>))))"

definition spool_ops_f :: "spool_ops \<Rightarrow> u8 \<Rightarrow> (nat \<Rightarrow> ccw \<Rightarrow> virt_sys \<Rightarrow> spdev_state \<Rightarrow> (virt_sys \<times> spdev_state) result) option" where
  "spool_ops_f o' k = (case o' of spool_cons_ops \<Rightarrow> if k = 1 then Some cons_write else None)"

definition bad_ccw :: "ccw \<Rightarrow> spdev_state \<Rightarrow> bool" where
  "bad_ccw c st \<longleftrightarrow>
     (\<not> cd st \<and> c_cmd c AND 0x0f = 0) \<or> (\<not> st_f st \<and> c_count c = 0) \<or> (st_f st \<and> cd st \<and> c_count c = 0)
     \<or> (st_f st \<and> c_addr c AND 0x80000000 \<noteq> 0)
     \<or> c_flags c AND (CCW_FLAG_SKP OR CCW_FLAG_PCI OR CCW_FLAG_IDA OR CCW_FLAG_S OR CCW_FLAG_MIDA OR CCW_FLAG_CD) \<noteq> 0"

text \<open>The execution of one command: whether the chain goes on, and the new state.\<close>

definition exec_command :: "nat \<Rightarrow> ccw \<Rightarrow> virt_sys \<Rightarrow> spdev_state \<Rightarrow> (bool \<times> virt_sys \<times> spdev_state) result" where
  "exec_command i c s st =
     bindR (if IS_CCW_WRITE (c_cmd c) then xfer_storage True c s st else Ok (s, st)) (\<lambda>(s, st).
     bindR (case Option.bind (ops st) (\<lambda>o'. spool_ops_f o' (c_cmd c AND 0xf)) of
              Some f \<Rightarrow> f i c s st
            | None \<Rightarrow> Ok (spooldev_cmdrej i s st)) (\<lambda>(s, st).
       if dev_status st \<noteq> SC_STATUS_CE OR SC_STATUS_DE then Ok (False, s, st)
       else bindR (if IS_CCW_READ (c_cmd c) then xfer_storage False c s st else Ok (s, st)) (\<lambda>(s, st).
         if c_flags c AND (CCW_FLAG_CD OR CCW_FLAG_CC) = 0 then Ok (False, s, st)
         else Ok (True, s, st\<lparr>cd := c_flags c AND CCW_FLAG_CD \<noteq> 0, st_addr := (st_addr st + 8) AND 0x7fffffff\<rparr>))))"

definition exec_round :: "nat \<Rightarrow> virt_sys \<Rightarrow> spdev_state \<Rightarrow> (bool \<times> virt_sys \<times> spdev_state) result" where
  "exec_round i s st =
     (case get_ccw s st of (st, c) \<Rightarrow>
        let st = st\<lparr>st_addr := st_addr st + 8\<rparr>
        in case c of
             None \<Rightarrow> Ok (False, s, st)
           | Some c \<Rightarrow>
               if sch_status st \<noteq> 0 then Ok (False, s, st)
               else if c_cmd c = CCW_CMD_TIC
               then if tic2tic st \<or> st_f st \<and> (c_flags c \<noteq> 0 \<or> c_count c \<noteq> 0)
                    then Ok (False, s, st\<lparr>sch_status := SC_PROG_CHK\<rparr>)
                    else Ok (True, s, st\<lparr>st_addr := c_addr c, tic2tic := True\<rparr>)
               else let st = st\<lparr>tic2tic := False\<rparr>
                    in if bad_ccw c st then Ok (False, s, st\<lparr>sch_status := SC_PROG_CHK\<rparr>)
                       else exec_command i c s st)"

text \<open>The loop over the commands; \<open>None\<close> when the rounds given have not been enough.\<close>

fun exec_loop :: "nat \<Rightarrow> nat \<Rightarrow> virt_sys \<Rightarrow> spdev_state \<Rightarrow> (virt_sys \<times> spdev_state) result option" where
  "exec_loop 0 i s st = None"
| "exec_loop (Suc k) i s st =
     (case exec_round i s st of
        Inl e \<Rightarrow> Some (Stop e)
      | Inr (go, s, st) \<Rightarrow> if go then exec_loop k i s st else Some (Ok (s, st)))"

text \<open>
  Every two rounds that go on use up storage for the spool, so the storage that is free bounds
  the rounds.
\<close>

definition exec_rounds :: "virt_sys \<Rightarrow> nat" where
  "exec_rounds s = 2 * (SPOOL_DATA_SIZE * (size (free_frames (mm (heap s))) + 1)) + 2"

definition set_irb_status :: "spdev_state \<Rightarrow> scsw \<Rightarrow> scsw" where
  "set_irb_status st w =
     (let w = set_ac (sw_ac w AND NOT (AC_SCH_ACT OR AC_DEV_ACT)) w;
          w = set_sc (sw_sc w OR (SC_PRIMARY OR SC_SECONDARY OR SC_STATUS)) w;
          w = (if sch_status st \<noteq> 0 \<or> dev_status st \<noteq> SC_STATUS_CE OR SC_STATUS_DE
               then set_sc (sw_sc w OR SC_ALERT) w else w)
      in set_f (if st_f st then 1 else 0) (set_count (rem st) (set_addr (st_addr st)
           (set_sch_status (ucast (sch_status st)) (set_dev_status (ucast (dev_status st)) w)))))"

text \<open>Before and after the loop over the commands.\<close>

definition exec_start :: "u64 \<Rightarrow> nat \<Rightarrow> virt_sys \<Rightarrow> virt_sys \<times> spdev_state" where
  "exec_start a i s =
     (let s = upd_dev i (\<lambda>v. v\<lparr>scsw := set_ac ((sw_ac (scsw v) AND NOT AC_START) OR (AC_SCH_ACT OR AC_DEV_ACT)) (scsw v)\<rparr>) s;
          v = virt_devs s ! i
      in (s, \<lparr>dev_status = 0, sch_status = 0, st_addr = orb_addr (orb v), st_f = (orb_f (orb v) \<noteq> 0),
              iobuf = read_bytes (storage s) a 65536, rem = 0, pos = 0, cd = False, tic2tic = False, ops = spooled_ops v\<rparr>))"

definition exec_end :: "u64 \<Rightarrow> nat \<Rightarrow> virt_sys \<Rightarrow> spdev_state \<Rightarrow> (errno option \<times> virt_sys) result" where
  "exec_end a i s st =
     (let s = upd_dev i (\<lambda>v. v\<lparr>scsw := set_irb_status st (scsw v)\<rparr>) s; v = virt_devs s ! i
      in bindR (queue_io_interrupt (sch v) (interrupt_param (pmcw v)) 0 (pmcw_isc (pmcw v)) s) (\<lambda>s.
         bindR (free_pages a 4 (mm (heap s))) (\<lambda>b. Ok (None, s\<lparr>heap := (heap s)\<lparr>mm := b\<rparr>\<rparr>))))"

definition spool_exec :: "nat \<Rightarrow> virt_sys \<Rightarrow> (errno option \<times> virt_sys) result" where
  "spool_exec i s =
     bindR (alloc_pages 4 ZONE_NORMAL (mm (heap s))) (\<lambda>(p, b).
       let s = s\<lparr>heap := (heap s)\<lparr>mm := b\<rparr>\<rparr> in case p of
         None \<Rightarrow> Ok (Some ENOMEM, s)
       | Some p \<Rightarrow> let a = page_to_addr (page_num_to_ptr p) in case exec_start a i s of (s, st) \<Rightarrow>
           (case exec_loop (exec_rounds s) i s st of
              None \<Rightarrow> Stop Bug
            | Some r \<Rightarrow> bindR r (\<lambda>(s, st). exec_end a i s st)))"

section \<open>The I/O instructions\<close>

text \<open>The device whose subchannel number is in register 1.\<close>

definition addressed :: "virt_sys \<Rightarrow> nat option" where
  "addressed s = find_vdev (ucast (guest_gpr (cpu s) 1)) (virt_devs s)"

text \<open>What the four instructions check first: subchannel word, alignment, and whether there is a device.\<close>

definition with_vdev :: "virt_sys \<Rightarrow> (u64 \<Rightarrow> nat \<Rightarrow> (errno option \<times> virt_sys) result) \<Rightarrow> (errno option \<times> virt_sys) result" where
  "with_vdev s f =
     (let r1 = guest_gpr (cpu s) 1 in
      bindR (RAW_S_1 (cpu s)) (\<lambda>addr.
        if r1 AND 0xffff0000 \<noteq> 0x00010000 then Ok (None, queue_prog_exception PROG_OPERAND r1 s)
        else if addr AND 3 \<noteq> 0 then Ok (None, queue_prog_exception PROG_SPEC addr s)
        else case addressed s of
               None \<Rightarrow> Ok (None, set_cc 3 s)
             | Some i \<Rightarrow> f addr i))"

definition copyf :: "nat \<Rightarrow> nat \<Rightarrow> 'a::len word \<Rightarrow> 'a word \<Rightarrow> 'a word" where
  "copyf k n src dst = setf k n (getf k n src) dst"

definition msch_pmcw :: "pmcw \<Rightarrow> pmcw \<Rightarrow> pmcw" where
  "msch_pmcw g p =
     (let w1 = copyf 23 1 (pw1 g) (pw1 p); w1 = copyf 27 3 (pw1 g) w1; w1 = copyf 18 1 (pw1 g) w1;
          w2 = copyf 24 8 (pw2 g) (pw2 p); w3 = copyf 8 8 (pw3 g) (pw3 p);
          w1 = copyf 21 2 (pw1 g) w1; w1 = copyf 19 2 (pw1 g) w1;
          w6 = copyf 2 1 (pw6 g) (pw6 p); w6 = copyf 1 1 (pw6 g) w6; w6 = copyf 0 1 (pw6 g) w6;
          w3 = copyf 16 16 (pw3 g) w3
      in p\<lparr>interrupt_param := interrupt_param g, pw1 := w1, pw2 := w2, pw3 := w3, pw6 := w6\<rparr>)"

definition busy :: "virt_device \<Rightarrow> bool" where
  "busy v \<longleftrightarrow> sw_fc (scsw v) AND (FC_START OR FC_HALT OR FC_CLEAR) \<noteq> 0"

definition status_pending :: "virt_device \<Rightarrow> bool" where
  "status_pending v \<longleftrightarrow> sw_sc (scsw v) AND SC_STATUS \<noteq> 0"

definition handle_msch :: "virt_sys \<Rightarrow> (errno option \<times> virt_sys) result" where
  "handle_msch s = with_vdev s (\<lambda>addr i.
     case memcpy_from_guest (xlate s) addr sizeof_schib (storage s) of
       (Some e, bs) \<Rightarrow> if e \<noteq> EFAULT then Ok (Some e, s) else Ok (None, queue_prog_exception PROG_ADDR addr s)
     | (None, bs) \<Rightarrow>
         let v = virt_devs s ! i; g = pmcw_of_bytes bs
         in if status_pending v then Ok (None, set_cc 1 s)
            else if busy v then Ok (None, set_cc 2 s)
            else if pmcw_v g = 0 then Ok (None, set_cc 0 s)
            else Ok (None, set_cc 0 (upd_dev i (\<lambda>v. v\<lparr>pmcw := msch_pmcw g (pmcw v)\<rparr>) s)))"

definition handle_ssch :: "virt_sys \<Rightarrow> (errno option \<times> virt_sys) result" where
  "handle_ssch s = with_vdev s (\<lambda>addr i.
     case memcpy_from_guest (xlate s) addr sizeof_orb (storage s) of
       (Some e, bs) \<Rightarrow> if e = EFAULT then Ok (None, queue_prog_exception PROG_ADDR addr s) else Ok (Some e, s)
     | (None, bs) \<Rightarrow>
         let v = virt_devs s ! i; g = orb_of_bytes bs
         in if status_pending v then Ok (None, set_cc 1 s)
            else if busy v then Ok (None, set_cc 2 s)
            else
              let s = upd_dev i (\<lambda>v. v\<lparr>scsw := set_ac AC_START (set_fc FC_START zero_scsw),
                        pmcw := (pmcw v)\<lparr>interrupt_param := orb_param g\<rparr>, orb := g\<rparr>) s
              in if vtype v = VDEV_CONS \<or> vtype v = VDEV_SPOOL
                 then bindR (spool_exec i s) (\<lambda>(ret, s). Ok (ret, set_cc 0 s))
                 else Ok (None, set_state GUEST_STOPPED s))"

definition handle_stsch :: "virt_sys \<Rightarrow> (errno option \<times> virt_sys) result" where
  "handle_stsch s = with_vdev s (\<lambda>addr i.
     let v = virt_devs s ! i in
     case memcpy_to_guest (xlate s) addr (pmcw_bytes (pmcw v)) (storage s) of
       (Some e, _, m) \<Rightarrow> let s = s\<lparr>storage := m\<rparr> in
          if e = EFAULT then Ok (None, queue_prog_exception PROG_ADDR addr s) else Ok (Some e, s)
     | (None, _, m) \<Rightarrow>
         let taddr = addr + of_nat sizeof_pmcw in
         (case memcpy_to_guest (xlate s) taddr (scsw_bytes (scsw v)) m of
            (Some e, _, m) \<Rightarrow> let s = s\<lparr>storage := m\<rparr> in
              if e = EFAULT then Ok (None, queue_prog_exception PROG_ADDR taddr s) else Ok (Some e, s)
          | (None, _, m) \<Rightarrow> Ok (None, set_cc 0 (s\<lparr>storage := m\<rparr>))))"

definition tsch_scsw :: "scsw \<Rightarrow> scsw" where
  "tsch_scsw w =
     (let fc = sw_fc w; ac = sw_ac w; sc = sw_sc w; all = AC_RESUME OR AC_START OR AC_HALT OR AC_CLEAR;
          fc' = (if sc AND SC_INTERMED = 0 \<or> fc AND FC_HALT \<noteq> 0 \<and> ac AND AC_SUSP \<noteq> 0 then 0 else fc);
          ac' = (if sc AND SC_INTERMED = 0 then ac AND NOT all
                 else if ac AND AC_SUSP \<noteq> 0 \<and> fc AND FC_START \<noteq> 0
                 then if fc AND FC_HALT \<noteq> 0 then ac AND NOT all else ac AND NOT AC_RESUME
                 else ac)
      in set_sc (sc AND NOT SC_STATUS) (set_ac ac' (set_fc fc' w)))"

text \<open>The interruption response block is filled in but not stored.\<close>

definition handle_tsch :: "virt_sys \<Rightarrow> (errno option \<times> virt_sys) result" where
  "handle_tsch s = with_vdev s (\<lambda>addr i.
     if status_pending (virt_devs s ! i)
     then Ok (None, set_cc 0 (upd_dev i (\<lambda>v. v\<lparr>scsw := tsch_scsw (scsw v)\<rparr>) s))
     else Ok (None, set_cc 1 s))"

definition instruction_priv_funcs :: "u16 \<Rightarrow> (virt_sys \<Rightarrow> (errno option \<times> virt_sys) result) option" where
  "instruction_priv_funcs op = (if op = 0x32 then Some handle_msch else if op = 0x33 then Some handle_ssch
     else if op = 0x34 then Some handle_stsch else if op = 0x35 then Some handle_tsch else None)"

definition handle_instruction_priv :: "virt_sys \<Rightarrow> (errno option \<times> virt_sys) result" where
  "handle_instruction_priv s = (case instruction_priv_funcs (ipa (cpu s) AND 0xff) of
     None \<Rightarrow> Ok (Some EINVAL, s) | Some h \<Rightarrow> h s)"

definition handle_instruction :: "virt_sys \<Rightarrow> (errno option \<times> virt_sys) result" where
  "handle_instruction s = (if drop_bit 8 (ipa (cpu s)) = 0xb2 then handle_instruction_priv s else Ok (Some EINVAL, s))"

section \<open>Intercepts\<close>

definition handle_noop :: "virt_sys \<Rightarrow> (errno option \<times> virt_sys) result" where
  "handle_noop s = Ok (None, s)"

text \<open>The handlers that report their intercept on the console and stop the virtual processor.\<close>

definition handle_stopping :: "virt_sys \<Rightarrow> (errno option \<times> virt_sys) result" where
  "handle_stopping s = Ok (None, set_state GUEST_STOPPED s)"

definition handle_wait :: "virt_sys \<Rightarrow> (errno option \<times> virt_sys) result" where
  "handle_wait s = Ok (None, s)"

definition handle_stop :: "virt_sys \<Rightarrow> (errno option \<times> virt_sys) result" where
  "handle_stop s = Ok (None, s\<lparr>cpu := (cpu s)\<lparr>cpuflags := cpuflags (cpu s) AND NOT CPUSTAT_STOP_INT\<rparr>\<rparr>)"

text \<open>The table, indexed by the intercept code divided by 4; it has entries up to code 0x48.\<close>

definition intercept_funcs :: "(virt_sys \<Rightarrow> (errno option \<times> virt_sys) result) option list" where
  "intercept_funcs = [Some handle_noop, Some handle_instruction, Some handle_stopping, Some handle_stopping,
     Some handle_stopping, Some handle_stopping, Some handle_stopping, Some handle_wait, Some handle_stopping, None,
     Some handle_stop, Some handle_stopping, None, None, None, None, None, Some handle_stopping, Some handle_stopping]"

definition handle_interception :: "virt_sys \<Rightarrow> virt_sys result" where
  "handle_interception s =
     (let k = unat (drop_bit 2 (icptcode (cpu s))) in
      if length intercept_funcs \<le> k then Stop OutOfBounds
      else bindR (case intercept_funcs ! k of None \<Rightarrow> Ok (Some EINVAL, s) | Some h \<Rightarrow> h s) (\<lambda>(err, s).
             if err \<noteq> None then Ok (set_state GUEST_STOPPED s) else Ok s))"

text \<open>
  One turn of the virtual processor.  \<open>sie\<close> is what the processor makes of the guest until the
  next intercept; the flag of the result says that the task gives up the processor to wait.
\<close>

definition run_guest :: "(virt_sys \<Rightarrow> virt_sys) \<Rightarrow> virt_sys \<Rightarrow> (bool \<times> virt_sys) result" where
  "run_guest sie s =
     bindR (io_int s) (\<lambda>(taken, s).
       let p = gpsw (cpu s) in
       if \<not> taken \<and> psw_w p
       then if \<not> psw_io p \<and> \<not> psw_ex p \<and> \<not> psw_m p then Ok (False, set_state GUEST_STOPPED s) else Ok (True, s)
       else bindR (handle_interception (sie s)) (\<lambda>s. Ok (False, s)))"


section \<open>Status words: facts\<close>

lemma scsw_fields [simp]:
  "sw_fc (set_fc v w) = take_bit 3 v" "sw_ac (set_fc v w) = sw_ac w" "sw_sc (set_fc v w) = sw_sc w"
  "sw_fc (set_ac v w) = sw_fc w" "sw_ac (set_ac v w) = take_bit 7 v" "sw_sc (set_ac v w) = sw_sc w"
  "sw_fc (set_sc v w) = sw_fc w" "sw_ac (set_sc v w) = sw_ac w" "sw_sc (set_sc v w) = take_bit 5 v"
  "sw_fc (set_f v w) = sw_fc w" "sw_ac (set_f v w) = sw_ac w" "sw_sc (set_f v w) = sw_sc w"
  "sw_dev_status (set_f v w) = sw_dev_status w" "sw_sch_status (set_f v w) = sw_sch_status w" "sw_count (set_f v w) = sw_count w"
  "sw_addr (set_f v w) = sw_addr w"
  by (simp_all add: sw_fc_def sw_ac_def sw_sc_def sw_dev_status_def sw_sch_status_def sw_count_def
      set_fc_def set_ac_def set_sc_def set_f_def field_simps)

lemma scsw_fields2 [simp]:
  "sw_fc (set_count v w) = sw_fc w" "sw_ac (set_count v w) = sw_ac w" "sw_sc (set_count v w) = sw_sc w"
  "sw_fc (set_addr a w) = sw_fc w" "sw_ac (set_addr a w) = sw_ac w" "sw_sc (set_addr a w) = sw_sc w"
  "sw_fc (set_sch_status v w) = sw_fc w" "sw_ac (set_sch_status v w) = sw_ac w" "sw_sc (set_sch_status v w) = sw_sc w"
  "sw_fc (set_dev_status v w) = sw_fc w" "sw_ac (set_dev_status v w) = sw_ac w" "sw_sc (set_dev_status v w) = sw_sc w"
  by (simp_all add: sw_fc_def sw_ac_def sw_sc_def set_count_def set_addr_def set_sch_status_def set_dev_status_def)

lemma scsw_fields3 [simp]:
  "sw_dev_status (set_count v w) = sw_dev_status w" "sw_sch_status (set_count v w) = sw_sch_status w" "sw_count (set_count v w) = take_bit 16 v"
  "sw_dev_status (set_addr a w) = sw_dev_status w" "sw_sch_status (set_addr a w) = sw_sch_status w" "sw_count (set_addr a w) = sw_count w"
  "sw_dev_status (set_sch_status v w) = sw_dev_status w" "sw_sch_status (set_sch_status v w) = take_bit 8 v" "sw_count (set_sch_status v w) = sw_count w"
  "sw_dev_status (set_dev_status v w) = take_bit 8 v" "sw_sch_status (set_dev_status v w) = sw_sch_status w" "sw_count (set_dev_status v w) = sw_count w"
  "sw_addr (set_count v w) = sw_addr w" "sw_addr (set_addr a w) = a" "sw_addr (set_sch_status v w) = sw_addr w" "sw_addr (set_dev_status v w) = sw_addr w"
  by (simp_all add: sw_dev_status_def sw_sch_status_def sw_count_def set_count_def set_addr_def set_sch_status_def
      set_dev_status_def field_simps)

lemma take_bit_ucast_u8 [simp]: "take_bit 8 (ucast (x :: u8) :: u32) = ucast x"
  by (rule bit_word_eqI) (auto simp: bit_simps dest: bit_imp_le_length)

text \<open>Selecting bits of the result of masking a field.\<close>

lemma take_bit_bits:
  "take_bit n (x AND NOT y :: 'a::len word) AND y = 0"
  "take_bit n (x AND NOT y) AND z = take_bit n x AND (z AND NOT y)"
  by (auto intro!: bit_word_eqI simp: bit_simps)

lemma irb_status_fields:
  "sw_fc (set_irb_status st w) = sw_fc w"
  "sw_ac (set_irb_status st w) AND (AC_SCH_ACT OR AC_DEV_ACT) = 0"
  "sw_sc (set_irb_status st w) AND SC_STATUS \<noteq> 0"
  "sw_sc (set_irb_status st w) AND SC_INTERMED = sw_sc w AND SC_INTERMED"
  "sw_dev_status (set_irb_status st w) = ucast (dev_status st)" "sw_sch_status (set_irb_status st w) = ucast (sch_status st)"
  "sw_count (set_irb_status st w) = take_bit 16 (rem st)" "sw_addr (set_irb_status st w) = st_addr st"
proof -
  show "sw_fc (set_irb_status st w) = sw_fc w" by (simp add: set_irb_status_def Let_def)
  show "sw_ac (set_irb_status st w) AND (AC_SCH_ACT OR AC_DEV_ACT) = 0"
    by (auto intro!: bit_word_eqI simp: set_irb_status_def Let_def bit_simps)
  define x where "x = sw_sc w"
  have x: "bit x n \<Longrightarrow> n < 5" for n by (auto simp: x_def sw_sc_def getf_def bit_simps)
  have s: "SC_STATUS = 1" "SC_PRIMARY = 4" "SC_SECONDARY = 2" "SC_ALERT = 16" "SC_INTERMED = 8" by code_simp+
  have sc: "sw_sc (set_irb_status st w) = (if sch_status st \<noteq> 0 \<or> dev_status st \<noteq> SC_STATUS_CE OR SC_STATUS_DE
       then take_bit 5 (take_bit 5 (x OR 7) OR 16) else take_bit 5 (x OR 7))"
    by (simp add: set_irb_status_def Let_def x_def s or.assoc del: take_bit_or)
  have tb: "take_bit 5 y AND 8 = y AND (8 :: u32)" "take_bit 5 y AND 1 = y AND (1 :: u32)" for y
    by (simp_all add: take_bit_eq_mask mask_eq_exp_minus_1 and.assoc)
  show "sw_sc (set_irb_status st w) AND SC_INTERMED = sw_sc w AND SC_INTERMED"
    by (simp add: sc s tb x_def word_ao_dist del: take_bit_or)
  have "sw_sc (set_irb_status st w) AND SC_STATUS = 1"
    by (simp add: sc s tb word_ao_dist del: take_bit_or)
  then show "sw_sc (set_irb_status st w) AND SC_STATUS \<noteq> 0" by simp
qed (simp_all add: set_irb_status_def Let_def)


lemma tsch_fields:
  assumes "sw_sc w AND SC_INTERMED = 0"
  shows "sw_fc (tsch_scsw w) = 0" "sw_sc (tsch_scsw w) AND SC_STATUS = 0" "sw_sc (tsch_scsw w) AND SC_INTERMED = 0"
    "sw_ac (tsch_scsw w) = sw_ac w AND NOT (AC_RESUME OR AC_START OR AC_HALT OR AC_CLEAR)"
proof -
  have a: "bit (sw_ac w) n \<Longrightarrow> n < 7" for n by (auto simp: sw_ac_def getf_def bit_simps)
  show "sw_fc (tsch_scsw w) = 0" using assms by (simp add: tsch_scsw_def Let_def)
  show "sw_sc (tsch_scsw w) AND SC_STATUS = 0"
    by (auto intro!: bit_word_eqI simp: tsch_scsw_def Let_def bit_simps)
  have "sw_sc (tsch_scsw w) AND SC_INTERMED = take_bit 5 (sw_sc w AND SC_INTERMED) AND NOT SC_STATUS"
    by (auto intro!: bit_word_eqI simp: tsch_scsw_def Let_def bit_simps)
  then show "sw_sc (tsch_scsw w) AND SC_INTERMED = 0" by (simp add: assms)
  show "sw_ac (tsch_scsw w) = sw_ac w AND NOT (AC_RESUME OR AC_START OR AC_HALT OR AC_CLEAR)"
    using assms by (auto intro!: bit_word_eqI simp: tsch_scsw_def Let_def bit_simps dest: a)
qed

section \<open>What a channel program changes\<close>

text \<open>
  The part of a system that commands leave alone, for the device \<open>i\<close> that executes them: all
  but storage, heap, and what backs the device and its sense byte.
\<close>

definition same_vdev :: "virt_device \<Rightarrow> virt_device \<Rightarrow> bool" where
  "same_vdev v v' \<longleftrightarrow> vtype v' = vtype v \<and> sch v' = sch v \<and> vd_type v' = vd_type v \<and> vd_model v' = vd_model v
     \<and> pmcw v' = pmcw v \<and> scsw v' = scsw v \<and> orb v' = orb v"

definition spooling :: "nat \<Rightarrow> virt_sys \<Rightarrow> virt_sys \<Rightarrow> bool" where
  "spooling i s s' \<longleftrightarrow> cpu s' = cpu s \<and> storage_size s' = storage_size s \<and> auth s' = auth s \<and> print_ts s' = print_ts s
     \<and> guest_pages s' = guest_pages s \<and> xlate s' = xlate s \<and> length (virt_devs s') = length (virt_devs s)
     \<and> (\<forall>j. j \<noteq> i \<longrightarrow> virt_devs s' ! j = virt_devs s ! j)
     \<and> (i < length (virt_devs s) \<longrightarrow> same_vdev (virt_devs s ! i) (virt_devs s' ! i))"

lemma same_vdev_refl [simp]: "same_vdev v v"
  by (simp add: same_vdev_def)

lemma same_vdev_updates [simp]: "same_vdev v (v\<lparr>backed := b\<rparr>)" "same_vdev v (v\<lparr>sense := n\<rparr>)"
  by (simp_all add: same_vdev_def)

lemma spooling_refl [simp]: "spooling i s s"
  by (simp add: spooling_def)

lemma spooling_trans: "spooling i s t \<Longrightarrow> spooling i t u \<Longrightarrow> spooling i s u"
  by (simp add: spooling_def same_vdev_def)

lemma spooling_updates:
  "spooling i s (s\<lparr>storage := m\<rparr>)" "spooling i s (s\<lparr>heap := h\<rparr>)"
  "(\<And>v. same_vdev v (f v)) \<Longrightarrow> spooling i s (upd_dev i f s)"
  by (simp_all add: spooling_def upd_dev_def)

lemma spool_ops_all [simp]: "o' = spool_cons_ops"
  by (cases o') simp

lemma spooling_xfer: "xfer_storage wr c s st = Ok (s', st') \<Longrightarrow> spooling i s s'"
  by (auto simp: xfer_storage_def bindR_eq_Ok Let_def spooling_updates split: if_splits prod.splits)

lemma spooling_open:
  assumes "open_spoolfile i s = Ok (r, s')"
  shows "spooling i s s'"
proof (cases "spooled_file (virt_devs s ! i)")
  case None
  with assms obtain q h where a: "alloc_spool (heap s) = Ok (q, h)"
    and q: "(case q of Inl e \<Rightarrow> Ok (Inl e, s\<lparr>heap := h\<rparr>)
       | Inr (a, f) \<Rightarrow> Ok (Inr f, upd_dev i (\<lambda>v. v\<lparr>backed := Spooled (Some f) (spooled_ops v)\<rparr>) (s\<lparr>heap := h\<rparr>))) = Ok (r, s')"
    by (auto simp: open_spoolfile_def Let_def bindR_eq_Ok)
  from q show ?thesis
    by (cases q) (auto intro: spooling_updates spooling_trans [OF spooling_updates(2) spooling_updates(3)])
qed (use assms in \<open>simp add: open_spoolfile_def\<close>)

lemma cons_write_OkE:
  assumes "cons_write i c s st = Ok (s', st')" and "c_cmd c = 1"
  obtains f s1 f' b where "open_spoolfile i s = Ok (Inr f, s1)"
    "spool_append_rec (fresh_page s1) f (Some (iobuf st)) (of_nat (min (unat (c_count c)) 150)) (mm (heap s1)) = Ok (None, f', b)"
    "s' = upd_dev i (\<lambda>v. v\<lparr>backed := Spooled (Some f') (spooled_ops v)\<rparr>) (s1\<lparr>heap := (heap s1)\<lparr>mm := b\<rparr>\<rparr>)"
    "st' = st\<lparr>dev_status := SC_STATUS_CE OR SC_STATUS_DE, rem := rem st - of_nat (min (unat (c_count c)) 150),
       pos := pos st + of_nat (min (unat (c_count c)) 150)\<rparr>"
proof -
  from assms obtain r s1 where o: "open_spoolfile i s = Ok (r, s1)" by (auto simp: cons_write_def Let_def bindR_eq_Ok)
  with assms obtain f where r: "r = Inr f" by (cases r) (auto simp: cons_write_def Let_def)
  from assms o r obtain e f' b where a: "spool_append_rec (fresh_page s1) f (Some (iobuf st)) (of_nat (min (unat (c_count c)) 150)) (mm (heap s1)) = Ok (e, f', b)"
    by (auto simp: cons_write_def Let_def bindR_eq_Ok)
  with assms o r have "e = None" by (cases e) (auto simp: cons_write_def Let_def)
  with assms o r a that show thesis by (auto simp: cons_write_def Let_def)
qed

lemma spooling_cons_write:
  assumes "cons_write i c s st = Ok (s', st')"
  shows "spooling i s s'"
proof (cases "c_cmd c = 1")
  case False
  then show ?thesis using assms by (auto simp: cons_write_def Let_def intro!: spooling_updates)
next
  case True
  from assms True obtain f s1 f' b where o: "open_spoolfile i s = Ok (Inr f, s1)"
    and s': "s' = upd_dev i (\<lambda>v. v\<lparr>backed := Spooled (Some f') (spooled_ops v)\<rparr>) (s1\<lparr>heap := (heap s1)\<lparr>mm := b\<rparr>\<rparr>)"
    by (rule cons_write_OkE)
  show ?thesis unfolding s'
    by (intro spooling_trans [OF spooling_open [OF o]] spooling_trans [OF spooling_updates(2) spooling_updates(3)]) simp
qed

lemma spooling_command:
  assumes "exec_command i c s st = Ok (go, s', st')"
  shows "spooling i s s'"
proof -
  from assms obtain s1 st1 s2 st2 where 1: "(if IS_CCW_WRITE (c_cmd c) then xfer_storage True c s st else Ok (s, st)) = Ok (s1, st1)"
    and 2: "(case Option.bind (ops st1) (\<lambda>o'. spool_ops_f o' (c_cmd c AND 0xf)) of
              Some f \<Rightarrow> f i c s1 st1 | None \<Rightarrow> Ok (spooldev_cmdrej i s1 st1)) = Ok (s2, st2)"
    and 3: "(if dev_status st2 \<noteq> SC_STATUS_CE OR SC_STATUS_DE then Ok (False, s2, st2)
       else bindR (if IS_CCW_READ (c_cmd c) then xfer_storage False c s2 st2 else Ok (s2, st2)) (\<lambda>(s, st).
         if c_flags c AND (CCW_FLAG_CD OR CCW_FLAG_CC) = 0 then Ok (False, s, st)
         else Ok (True, s, st\<lparr>cd := c_flags c AND CCW_FLAG_CD \<noteq> 0, st_addr := (st_addr st + 8) AND 0x7fffffff\<rparr>))) = Ok (go, s', st')"
    unfolding exec_command_def by (auto simp: bindR_eq_Ok)
  have "spooling i s s1" using 1 by (auto split: if_splits intro: spooling_xfer)
  moreover have "spooling i s1 s2" using 2
    by (auto simp: Option.bind_eq_Some_conv spool_ops_f_def spooldev_cmdrej_def intro!: spooling_updates
        split: option.splits spool_ops.splits if_splits intro: spooling_cons_write)
  moreover have "spooling i s2 s'" using 3 by (auto simp: bindR_eq_Ok split: if_splits intro: spooling_xfer)
  ultimately show ?thesis by (metis spooling_trans)
qed

lemma spooling_round: "exec_round i s st = Ok (go, s', st') \<Longrightarrow> spooling i s s'"
  by (auto simp: exec_round_def Let_def split: prod.splits option.splits if_splits dest: spooling_command)

lemma spooling_loop: "exec_loop k i s st = Some (Ok (s', st')) \<Longrightarrow> spooling i s s'"
proof (induction k arbitrary: s st)
  case (Suc k)
  then obtain go s1 st1 where r: "exec_round i s st = Ok (go, s1, st1)" by (auto split: sum.splits)
  note sp = spooling_round [OF r]
  show ?case using Suc r by (cases go) (auto intro: spooling_trans [OF sp] sp)
qed simp


section \<open>Subchannels as state machines\<close>

datatype subch = Idle | Started | Pending

definition phase :: "virt_device \<Rightarrow> subch" where
  "phase v = (if status_pending v then Pending else if busy v then Started else Idle)"

definition dev_ok :: "virt_device \<Rightarrow> bool" where
  "dev_ok v \<longleftrightarrow> sw_sc (scsw v) AND SC_INTERMED = 0 \<and> (sw_fc (scsw v) = 0 \<or> sw_fc (scsw v) = FC_START)
     \<and> (status_pending v \<longrightarrow> sw_fc (scsw v) = FC_START) \<and> sw_ac (scsw v) AND (AC_SCH_ACT OR AC_DEV_ACT) = 0"

definition sys_ok :: "virt_sys \<Rightarrow> bool" where
  "sys_ok s \<longleftrightarrow> (\<forall>v \<in> set (virt_devs s). dev_ok v) \<and> length (int_io (cpu s)) = 8"

definition waiting :: "virt_sys \<Rightarrow> nat" where
  "waiting s = sum_list (map length (int_io (cpu s)))"

lemma dev_ok_cong: "scsw v = scsw v' \<Longrightarrow> dev_ok v = dev_ok v'" "scsw v = scsw v' \<Longrightarrow> phase v = phase v'"
  by (simp_all add: dev_ok_def phase_def status_pending_def busy_def)

lemma numbers:
  "FC_START = 4" "FC_START OR FC_HALT OR FC_CLEAR = 7" "SC_STATUS = 1" "SC_INTERMED = 8" "AC_START = 32"
  "AC_SCH_ACT OR AC_DEV_ACT = 6"
  by code_simp+

lemma zero_scsw_fields [simp]: "sw_fc zero_scsw = 0" "sw_ac zero_scsw = 0" "sw_sc zero_scsw = 0"
  by (simp_all add: zero_scsw_def sw_fc_def sw_ac_def sw_sc_def getf_def)

text \<open>The status word of a start that has been accepted, and after its channel program.\<close>

lemma started_scsw:
  assumes "scsw v = set_ac AC_START (set_fc FC_START zero_scsw)"
  shows "dev_ok v" "phase v = Started"
  using assms by (simp_all add: dev_ok_def phase_def status_pending_def busy_def numbers)

lemma ended_scsw:
  assumes "scsw v = set_irb_status st (set_ac a w)" and "sw_fc w = FC_START" and "sw_sc w = 0"
  shows "dev_ok v" "phase v = Pending"
  using irb_status_fields [of st "set_ac a w"] assms by (simp_all add: dev_ok_def phase_def status_pending_def)

lemma tsch_phase:
  assumes "dev_ok v" and "status_pending v"
  shows "dev_ok (v\<lparr>scsw := tsch_scsw (scsw v)\<rparr>)" "phase (v\<lparr>scsw := tsch_scsw (scsw v)\<rparr>) = Idle"
proof -
  let ?w = "scsw v" and ?x = "AC_SCH_ACT OR AC_DEV_ACT"
  have w: "sw_sc ?w AND SC_INTERMED = 0" "sw_ac ?w AND ?x = 0" using assms(1) by (simp_all only: dev_ok_def)
  have "sw_ac (tsch_scsw ?w) AND ?x = (sw_ac ?w AND ?x) AND NOT (AC_RESUME OR AC_START OR AC_HALT OR AC_CLEAR)"
    by (simp only: tsch_fields(4) [OF w(1)] and.assoc and.commute and.left_commute)
  also have "\<dots> = 0" unfolding w(2) by simp
  finally have "sw_ac (tsch_scsw ?w) AND ?x = 0" .
  then show "dev_ok (v\<lparr>scsw := tsch_scsw (scsw v)\<rparr>)" "phase (v\<lparr>scsw := tsch_scsw (scsw v)\<rparr>) = Idle"
    using tsch_fields [OF w(1)] by (simp_all add: dev_ok_def phase_def status_pending_def busy_def)
qed

lemma sys_ok_upd:
  "sys_ok s \<Longrightarrow> dev_ok (f (virt_devs s ! i)) \<Longrightarrow> sys_ok (upd_dev i f s)"
  by (auto simp: sys_ok_def upd_dev_def dest!: set_update_subset_insert [THEN subsetD])

lemma waiting_add: "k < length qs \<Longrightarrow> sum_list (map length (qs[k := qs ! k @ [x]])) = Suc (sum_list (map length qs))"
  by (induction qs arbitrary: k) (auto simp: nth_Cons split: nat.splits)

lemma isc_small: "unat (pmcw_isc p) < 8"
proof -
  have "unat (pmcw_isc p) = take_bit 3 (unat (drop_bit 27 (pw1 p)))"
    by (simp only: pmcw_isc_def getf_def unsigned_take_bit_eq)
  then show ?thesis using take_bit_nat_less_exp [of 3 "unat (drop_bit 27 (pw1 p))"] by simp
qed

lemma queue_io_interrupt_adds:
  assumes "queue_io_interrupt ssid param 0 (pmcw_isc p) s = Ok s'" and "length (int_io (cpu s)) = 8"
  shows "virt_devs s' = virt_devs s" "waiting s' = Suc (waiting s)" "length (int_io (cpu s')) = 8" "gpsw (cpu s') = gpsw (cpu s)"
    "state (cpu s') = state (cpu s)"
  using assms isc_small [of p]
  by (auto simp: queue_io_interrupt_def bindR_eq_Ok Let_def waiting_def waiting_add split: option.splits)


lemma exec_start_effect:
  assumes "exec_start a i s = (s', st)" and "i < length (virt_devs s)"
  shows "length (virt_devs s') = length (virt_devs s)" "\<And>j. j \<noteq> i \<Longrightarrow> virt_devs s' ! j = virt_devs s ! j"
    "\<exists>x. virt_devs s' ! i = (virt_devs s ! i)\<lparr>scsw := set_ac x (scsw (virt_devs s ! i))\<rparr>" "cpu s' = cpu s"
    "storage s' = storage s" "xlate s' = xlate s" "heap s' = heap s" "storage_size s' = storage_size s"
  using assms by (auto simp: exec_start_def Let_def upd_dev_def)

lemma exec_end_effect:
  assumes "exec_end a i s st = Ok (r, s')" and "i < length (virt_devs s)" and "length (int_io (cpu s)) = 8"
  shows "r = None" "length (virt_devs s') = length (virt_devs s)" "\<And>j. j \<noteq> i \<Longrightarrow> virt_devs s' ! j = virt_devs s ! j"
    "virt_devs s' ! i = (virt_devs s ! i)\<lparr>scsw := set_irb_status st (scsw (virt_devs s ! i))\<rparr>"
    "waiting s' = Suc (waiting s)" "length (int_io (cpu s')) = 8" "gpsw (cpu s') = gpsw (cpu s)"
proof -
  define s1 where "s1 = upd_dev i (\<lambda>v. v\<lparr>scsw := set_irb_status st (scsw v)\<rparr>) s"
  define v where "v = virt_devs s1 ! i"
  from assms(1) obtain s2 b where q: "queue_io_interrupt (sch v) (interrupt_param (pmcw v)) 0 (pmcw_isc (pmcw v)) s1 = Ok s2"
    and s': "r = None" "s' = s2\<lparr>heap := (heap s2)\<lparr>mm := b\<rparr>\<rparr>"
    by (auto simp: exec_end_def Let_def bindR_eq_Ok s1_def v_def)
  have len: "length (int_io (cpu s1)) = 8" using assms(3) by (simp add: s1_def upd_dev_def)
  note add = queue_io_interrupt_adds [OF q len]
  show "r = None" "length (virt_devs s') = length (virt_devs s)" "\<And>j. j \<noteq> i \<Longrightarrow> virt_devs s' ! j = virt_devs s ! j"
    "virt_devs s' ! i = (virt_devs s ! i)\<lparr>scsw := set_irb_status st (scsw (virt_devs s ! i))\<rparr>"
    "waiting s' = Suc (waiting s)" "length (int_io (cpu s')) = 8" "gpsw (cpu s') = gpsw (cpu s)"
    using add s' assms(2) by (simp_all add: s1_def upd_dev_def waiting_def)
qed

lemma spool_exec_cases:
  assumes "spool_exec i s = Ok (r, s')" and "i < length (virt_devs s)" and "length (int_io (cpu s)) = 8"
  shows "r \<noteq> None \<and> virt_devs s' = virt_devs s \<and> cpu s' = cpu s
    \<or> r = None \<and> length (virt_devs s') = length (virt_devs s) \<and> (\<forall>j. j \<noteq> i \<longrightarrow> virt_devs s' ! j = virt_devs s ! j)
       \<and> (\<exists>st x. scsw (virt_devs s' ! i) = set_irb_status st (set_ac x (scsw (virt_devs s ! i))))
       \<and> waiting s' = Suc (waiting s) \<and> length (int_io (cpu s')) = 8 \<and> gpsw (cpu s') = gpsw (cpu s)"
proof -
  from assms(1) obtain p b where p: "alloc_pages 4 ZONE_NORMAL (mm (heap s)) = Ok (p, b)"
    by (auto simp: spool_exec_def bindR_eq_Ok)
  show ?thesis
  proof (cases p)
    case None
    then show ?thesis using assms(1) p by (auto simp: spool_exec_def Let_def)
  next
    case (Some q)
    define s0 a where "s0 = s\<lparr>heap := (heap s)\<lparr>mm := b\<rparr>\<rparr>" and "a = page_to_addr (page_num_to_ptr q)"
    obtain s1 st1 where s1: "exec_start a i s0 = (s1, st1)" by (cases "exec_start a i s0")
    from assms(1) obtain s2 st2 where l: "exec_loop (exec_rounds s1) i s1 st1 = Some (Ok (s2, st2))"
      and e: "exec_end a i s2 st2 = Ok (r, s')"
      by (auto simp: spool_exec_def p Some Let_def s0_def [symmetric] a_def [symmetric] s1 bindR_eq_Ok split: option.splits)
    have i: "i < length (virt_devs s0)" "virt_devs s0 = virt_devs s" "cpu s0 = cpu s" using assms(2) by (simp_all add: s0_def)
    note st = exec_start_effect [OF s1 i(1)]
    have sp: "spooling i s1 s2" using spooling_loop [OF l] .
    have i2: "i < length (virt_devs s2)" "length (int_io (cpu s2)) = 8" "waiting s2 = waiting s" "cpu s2 = cpu s"
      using sp st i assms(3) by (simp_all add: spooling_def waiting_def)
    note en = exec_end_effect [OF e i2(1,2)]
    from st(3) obtain x where x: "virt_devs s1 ! i = (virt_devs s0 ! i)\<lparr>scsw := set_ac x (scsw (virt_devs s0 ! i))\<rparr>" by blast
    have "same_vdev (virt_devs s1 ! i) (virt_devs s2 ! i)" using sp i2(1) by (simp add: spooling_def)
    with x i(2) en(4) have "scsw (virt_devs s' ! i) = set_irb_status st2 (set_ac x (scsw (virt_devs s ! i)))"
      by (simp add: same_vdev_def)
    with en sp st i i2 show ?thesis by (auto simp: spooling_def)
  qed
qed


datatype io_instr = MSCH | SSCH | STSCH | TSCH

fun run_instr :: "io_instr \<Rightarrow> virt_sys \<Rightarrow> (errno option \<times> virt_sys) result" where
  "run_instr MSCH s = handle_msch s"
| "run_instr SSCH s = handle_ssch s"
| "run_instr STSCH s = handle_stsch s"
| "run_instr TSCH s = handle_tsch s"

text \<open>
  What an instruction makes of the subchannel it names: the condition code, the interruptions
  that are queued, and the new state.
\<close>

inductive subch_step :: "io_instr \<Rightarrow> subch \<Rightarrow> u64 \<Rightarrow> nat \<Rightarrow> subch \<Rightarrow> bool" where
  msch: "subch_step MSCH Idle 0 0 Idle"
| ssch: "subch_step SSCH Idle 0 1 Pending"
| pending: "k = MSCH \<or> k = SSCH \<Longrightarrow> subch_step k Pending 1 0 Pending"
| started: "k = MSCH \<or> k = SSCH \<Longrightarrow> subch_step k Started 2 0 Started"
| stsch: "subch_step STSCH p 0 0 p"
| tsch: "subch_step TSCH Pending 0 0 Idle"
| tsch_none: "p \<noteq> Pending \<Longrightarrow> subch_step TSCH p 1 0 p"

inductive_cases subch_step_ssch: "subch_step SSCH p c n p'"
inductive_simps subch_step_idle: "subch_step k Idle c n p'"

definition io_outcome :: "io_instr \<Rightarrow> virt_sys \<Rightarrow> errno option \<Rightarrow> virt_sys \<Rightarrow> bool" where
  "io_outcome k s r s' \<longleftrightarrow>
     (case addressed s of
        None \<Rightarrow> virt_devs s' = virt_devs s \<and> waiting s' = waiting s
          \<and> (psw_cc (gpsw (cpu s')) = 3 \<or> state (cpu s') = GUEST_STOPPED)
      | Some i \<Rightarrow> (\<forall>j. j \<noteq> i \<longrightarrow> virt_devs s' ! j = virt_devs s ! j) \<and>
          ((\<exists>n. subch_step k (phase (virt_devs s ! i)) (psw_cc (gpsw (cpu s'))) n (phase (virt_devs s' ! i))
             \<and> waiting s' = waiting s + n)
           \<or> (state (cpu s') = GUEST_STOPPED \<or> r \<noteq> None) \<and> waiting s' = waiting s
              \<and> (phase (virt_devs s' ! i) = phase (virt_devs s ! i)
                 \<or> k = SSCH \<and> phase (virt_devs s ! i) = Idle \<and> phase (virt_devs s' ! i) = Started)))"

lemma with_vdev_cases:
  assumes "with_vdev s f = Ok (r, s')"
  obtains (exception) t p where "r = None" "s' = queue_prog_exception t p s"
  | (no_device) "addressed s = None" "r = None" "s' = set_cc 3 s"
  | (device) addr i where "addressed s = Some i" "i < length (virt_devs s)" "f addr i = Ok (r, s')"
proof -
  have i: "i < length (virt_devs s)" if "addressed s = Some i" for i
    using that by (auto simp: addressed_def find_vdev_def find_Some_iff)
  show thesis using assms exception no_device device i
    by (auto simp: with_vdev_def Let_def bindR_eq_Ok split: if_splits option.splits)
qed

lemma set_simps [simp]:
  "virt_devs (set_cc c s) = virt_devs s" "waiting (set_cc c s) = waiting s" "length (int_io (cpu (set_cc c s))) = length (int_io (cpu s))"
  "psw_cc (gpsw (cpu (set_cc c s))) = take_bit 2 c" "state (cpu (set_cc c s)) = state (cpu s)" "heap (set_cc c s) = heap s"
  "storage (set_cc c s) = storage s" "int_io (cpu (set_cc c s)) = int_io (cpu s)"
  "virt_devs (set_state x s) = virt_devs s" "waiting (set_state x s) = waiting s" "int_io (cpu (set_state x s)) = int_io (cpu s)"
  "state (cpu (set_state x s)) = x" "storage (set_state x s) = storage s" "heap (set_state x s) = heap s"
  by (simp_all add: set_cc_def set_state_def waiting_def psw_cc_def Let_def field_simps)

lemma exception_outcome: "sys_ok s \<Longrightarrow> io_outcome k s None (queue_prog_exception t p s) \<and> sys_ok (queue_prog_exception t p s)"
  by (auto simp: io_outcome_def queue_prog_exception_def sys_ok_def split: option.splits)

lemma sys_ok_nth: "sys_ok s \<Longrightarrow> i < length (virt_devs s) \<Longrightarrow> dev_ok (virt_devs s ! i)"
  by (simp add: sys_ok_def)

lemma sys_ok_change:
  assumes "sys_ok s" and "length (virt_devs s') = length (virt_devs s)" and "\<And>j. j \<noteq> i \<Longrightarrow> virt_devs s' ! j = virt_devs s ! j"
    and "i < length (virt_devs s) \<Longrightarrow> dev_ok (virt_devs s' ! i)" and "length (int_io (cpu s')) = 8"
  shows "sys_ok s'"
  using assms unfolding sys_ok_def by (metis in_set_conv_nth)

lemma msch_outcome:
  assumes "handle_msch s = Ok (r, s')" and "sys_ok s"
  shows "io_outcome MSCH s r s' \<and> sys_ok s'"
  using assms(1) unfolding handle_msch_def
proof (cases rule: with_vdev_cases)
  case (device addr i)
  let ?v = "virt_devs s ! i"
  obtain e bs where m: "memcpy_from_guest (xlate s) addr sizeof_schib (storage s) = (e, bs)" by fastforce
  have ok: "dev_ok ((?v)\<lparr>pmcw := q\<rparr>)" "phase (?v\<lparr>pmcw := q\<rparr>) = phase ?v" for q
    using sys_ok_nth [OF assms(2) device(2)] dev_ok_cong [of "?v\<lparr>pmcw := q\<rparr>" ?v] by simp_all
  have up: "sys_ok (upd_dev i (\<lambda>v. v\<lparr>pmcw := q (pmcw v)\<rparr>) s)" for q
    by (rule sys_ok_upd [OF assms(2), where f = "\<lambda>v. v\<lparr>pmcw := q (pmcw v)\<rparr>"]) (rule ok(1))
  have sim: "sys_ok (set_cc c t) = sys_ok t" "sys_ok (set_state x t) = sys_ok t" for c x t by (simp_all add: sys_ok_def)
  show ?thesis
  proof (cases e)
    case (Some x)
    then show ?thesis using device m assms(2) exception_outcome [OF assms(2)] by (auto simp: io_outcome_def split: if_splits)
  next
    case None
    consider "status_pending ?v" "r = None" "s' = set_cc 1 s" "phase ?v = Pending"
      | "busy ?v" "\<not> status_pending ?v" "r = None" "s' = set_cc 2 s" "phase ?v = Started"
      | q where "phase ?v = Idle" "r = None" "s' = set_cc 0 (upd_dev i (\<lambda>v. v\<lparr>pmcw := q (pmcw v)\<rparr>) s)"
      | "phase ?v = Idle" "r = None" "s' = set_cc 0 s"
      using device(3) m None by (auto simp: Let_def phase_def split: if_splits)
    then show ?thesis
      by cases (use device ok up assms(2) in \<open>auto simp: io_outcome_def sim upd_dev_def waiting_def subch_step.simps\<close>)
  qed
qed (use assms exception_outcome in \<open>auto simp: io_outcome_def sys_ok_def\<close>)


lemma sys_ok_sets [simp]: "sys_ok (set_cc c t) = sys_ok t" "sys_ok (set_state x t) = sys_ok t" "sys_ok (t\<lparr>storage := m\<rparr>) = sys_ok t"
  by (simp_all add: sys_ok_def)

lemma waiting_storage [simp]: "waiting (t\<lparr>storage := m\<rparr>) = waiting t"
  by (simp add: waiting_def)

lemma stsch_outcome:
  assumes "handle_stsch s = Ok (r, s')" and "sys_ok s"
  shows "io_outcome STSCH s r s' \<and> sys_ok s'"
  using assms(1) unfolding handle_stsch_def
proof (cases rule: with_vdev_cases)
  case (device addr i)
  then obtain m where "(r = None \<and> (\<exists>t p. s' = queue_prog_exception t p (s\<lparr>storage := m\<rparr>)) \<or> r \<noteq> None \<and> s' = s\<lparr>storage := m\<rparr>)
      \<or> r = None \<and> s' = set_cc 0 (s\<lparr>storage := m\<rparr>)"
    by (auto simp: Let_def split: prod.splits option.splits if_splits)
  then show ?thesis using device assms(2)
    by (auto simp: io_outcome_def queue_prog_exception_def subch_step.simps)
qed (use assms exception_outcome in \<open>auto simp: io_outcome_def sys_ok_def\<close>)

lemma tsch_outcome:
  assumes "handle_tsch s = Ok (r, s')" and "sys_ok s"
  shows "io_outcome TSCH s r s' \<and> sys_ok s'"
  using assms(1) unfolding handle_tsch_def
proof (cases rule: with_vdev_cases)
  case (device addr i)
  let ?v = "virt_devs s ! i"
  note ok = sys_ok_nth [OF assms(2) device(2)]
  show ?thesis
  proof (cases "status_pending ?v")
    case True
    note t = tsch_phase [OF ok True]
    have "sys_ok (upd_dev i (\<lambda>v. v\<lparr>scsw := tsch_scsw (scsw v)\<rparr>) s)"
      by (rule sys_ok_upd [OF assms(2), where f = "\<lambda>v. v\<lparr>scsw := tsch_scsw (scsw v)\<rparr>"]) (rule t(1))
    moreover have "phase ?v = Pending" using True by (simp add: phase_def)
    ultimately show ?thesis using True device t
      by (auto simp: io_outcome_def upd_dev_def waiting_def subch_step.simps)
  next
    case False
    then have "phase ?v \<noteq> Pending" by (simp add: phase_def)
    then show ?thesis using False device assms(2) by (auto simp: io_outcome_def subch_step.simps)
  qed
qed (use assms exception_outcome in \<open>auto simp: io_outcome_def sys_ok_def\<close>)

lemma ssch_outcome:
  assumes "handle_ssch s = Ok (r, s')" and "sys_ok s"
  shows "io_outcome SSCH s r s' \<and> sys_ok s'"
  using assms(1) unfolding handle_ssch_def
proof (cases rule: with_vdev_cases)
  case (device addr i)
  let ?v = "virt_devs s ! i"
  obtain e bs where m: "memcpy_from_guest (xlate s) addr sizeof_orb (storage s) = (e, bs)" by fastforce
  show ?thesis
  proof (cases e)
    case (Some x)
    then show ?thesis using device m assms(2) exception_outcome [OF assms(2)] by (auto simp: io_outcome_def split: if_splits)
  next
    case None
    define s1 where "s1 = upd_dev i (\<lambda>v. v\<lparr>scsw := set_ac AC_START (set_fc FC_START zero_scsw),
      pmcw := (pmcw v)\<lparr>interrupt_param := orb_param (orb_of_bytes bs)\<rparr>, orb := orb_of_bytes bs\<rparr>) s"
    have s1: "scsw (virt_devs s1 ! i) = set_ac AC_START (set_fc FC_START zero_scsw)" "length (virt_devs s1) = length (virt_devs s)"
      "\<And>j. j \<noteq> i \<Longrightarrow> virt_devs s1 ! j = virt_devs s ! j" "cpu s1 = cpu s" "waiting s1 = waiting s"
      using device(2) by (simp_all add: s1_def upd_dev_def waiting_def)
    note st = started_scsw [OF s1(1)]
    have len: "length (int_io (cpu s1)) = 8" using s1(4) assms(2) by (simp add: sys_ok_def)
    have ok1: "sys_ok s1" by (rule sys_ok_change [OF assms(2) s1(2,3) st(1) len])
    consider (pending) "phase ?v = Pending" "r = None" "s' = set_cc 1 s"
      | (started) "phase ?v = Started" "r = None" "s' = set_cc 2 s"
      | (exec) s2 where "phase ?v = Idle" "spool_exec i s1 = Ok (r, s2)" "s' = set_cc 0 s2"
      | (other) "phase ?v = Idle" "r = None" "s' = set_state GUEST_STOPPED s1"
      using device(3) m None by (auto simp: Let_def phase_def bindR_eq_Ok s1_def [symmetric] split: if_splits)
    then show ?thesis
    proof cases
      case exec
      have i1: "i < length (virt_devs s1)" using device(2) s1(2) by simp
      from spool_exec_cases [OF exec(2) i1 len] show ?thesis
      proof
        assume "r \<noteq> None \<and> virt_devs s2 = virt_devs s1 \<and> cpu s2 = cpu s1"
        then show ?thesis using exec device s1 st ok1 by (auto simp: io_outcome_def waiting_def sys_ok_def)
      next
        assume *: "r = None \<and> length (virt_devs s2) = length (virt_devs s1) \<and> (\<forall>j. j \<noteq> i \<longrightarrow> virt_devs s2 ! j = virt_devs s1 ! j)
          \<and> (\<exists>st x. scsw (virt_devs s2 ! i) = set_irb_status st (set_ac x (scsw (virt_devs s1 ! i))))
          \<and> waiting s2 = Suc (waiting s1) \<and> length (int_io (cpu s2)) = 8 \<and> gpsw (cpu s2) = gpsw (cpu s1)"
        then obtain st x where "scsw (virt_devs s2 ! i) = set_irb_status st (set_ac x (scsw (virt_devs s1 ! i)))" by blast
        from ended_scsw [OF this] s1(1) have e: "dev_ok (virt_devs s2 ! i)" "phase (virt_devs s2 ! i) = Pending"
          by (simp_all add: numbers)
        have "sys_ok s2" by (rule sys_ok_change [OF ok1, where i = i]) (use * e in simp_all)
        then show ?thesis using exec * e device s1 by (auto simp: io_outcome_def subch_step.simps)
      qed
    qed (use device s1 st ok1 assms(2) in \<open>auto simp: io_outcome_def subch_step.simps\<close>)
  qed
qed (use assms exception_outcome in \<open>auto simp: io_outcome_def sys_ok_def\<close>)

lemma instr_outcome:
  assumes "run_instr k s = Ok (r, s')" and "sys_ok s"
  shows "io_outcome k s r s' \<and> sys_ok s'"
  using assms msch_outcome ssch_outcome stsch_outcome tsch_outcome by (cases k) auto

lemma handle_instruction_ok:
  assumes "handle_instruction s = Ok (r, s')" and "sys_ok s"
  shows "sys_ok s'"
proof (cases "drop_bit 8 (ipa (cpu s)) = 0xb2")
  case True
  then have h: "handle_instruction_priv s = Ok (r, s')" using assms(1) by (simp add: handle_instruction_def)
  show ?thesis
  proof (cases "instruction_priv_funcs (ipa (cpu s) AND 0xff)")
    case None
    then show ?thesis using h assms(2) by (simp add: handle_instruction_priv_def)
  next
    case (Some f)
    then obtain k where "f = run_instr k"
      by (auto simp: instruction_priv_funcs_def fun_eq_iff split: if_splits)
        (metis run_instr.simps(1) ext, metis run_instr.simps(2) ext, metis run_instr.simps(3) ext, metis run_instr.simps(4) ext)
    with Some h have "run_instr k s = Ok (r, s')" by (simp add: handle_instruction_priv_def)
    with instr_outcome assms(2) show ?thesis by blast
  qed
next
  case False
  then show ?thesis using assms by (simp add: handle_instruction_def)
qed

lemma intercept_handlers:
  "Some h \<in> set intercept_funcs \<Longrightarrow>
     h = handle_noop \<or> h = handle_instruction \<or> h = handle_stopping \<or> h = handle_wait \<or> h = handle_stop"
  by (auto simp: intercept_funcs_def)

lemma intercept_ok:
  assumes "Some h \<in> set intercept_funcs" and "h s = Ok (r, s')" and "sys_ok s"
  shows "sys_ok s'"
  using intercept_handlers [OF assms(1)] assms(2,3) handle_instruction_ok
  by (elim disjE) (auto simp: handle_noop_def handle_stopping_def handle_wait_def handle_stop_def sys_ok_def)

lemma handle_interception_ok:
  assumes "handle_interception s = Ok s'" and "sys_ok s"
  shows "sys_ok s'"
proof -
  let ?k = "unat (drop_bit 2 (icptcode (cpu s)))"
  have k: "?k < length intercept_funcs" using assms(1) by (auto simp: handle_interception_def Let_def split: if_splits)
  then obtain r s1 where c: "(case intercept_funcs ! ?k of None \<Rightarrow> Ok (Some EINVAL, s) | Some h \<Rightarrow> h s) = Ok (r, s1)"
    and s': "s' = (if r \<noteq> None then set_state GUEST_STOPPED s1 else s1)"
    using assms(1) by (auto simp: handle_interception_def Let_def bindR_eq_Ok split: if_splits)
  have "sys_ok s1"
  proof (cases "intercept_funcs ! ?k")
    case None
    then show ?thesis using c assms(2) by simp
  next
    case (Some h)
    then have "Some h \<in> set intercept_funcs" using k by (metis nth_mem)
    then show ?thesis using intercept_ok c Some assms(2) by auto
  qed
  then show ?thesis using s' by simp
qed


section \<open>A virtual machine as it runs\<close>

text \<open>
  What the guest does between two intercepts changes registers and storage, not what the control
  program keeps.
\<close>

definition sie_ok :: "(virt_sys \<Rightarrow> virt_sys) \<Rightarrow> bool" where
  "sie_ok sie \<longleftrightarrow> (\<forall>s. virt_devs (sie s) = virt_devs s \<and> int_io (cpu (sie s)) = int_io (cpu s) \<and> heap (sie s) = heap s)"

inductive guest_run :: "virt_sys \<Rightarrow> virt_sys \<Rightarrow> bool" for s where
  starts: "guest_run s s"
| turn: "guest_run s t \<Longrightarrow> sie_ok sie \<Longrightarrow> run_guest sie t = Ok (w, u) \<Longrightarrow> guest_run s u"
| reset_clear: "guest_run s t \<Longrightarrow> guest_run s (guest_system_reset_clear t)"
| reset_normal: "guest_run s t \<Longrightarrow> guest_run s (guest_system_reset_normal t)"
| begins: "guest_run s t \<Longrightarrow> guest_run s (snd (guest_begin t))"
| stops: "guest_run s t \<Longrightarrow> guest_run s (snd (guest_stop t))"

lemma reset_sys_ok:
  assumes "length (int_io (cpu s)) = 8"
  shows "sys_ok (guest_system_reset_clear s)" "sys_ok (guest_system_reset_normal s)"
proof -
  have z: "dev_ok (v\<lparr>pmcw := p, scsw := zero_scsw\<rparr>)" for v p
    by (simp add: dev_ok_def status_pending_def)
  show "sys_ok (guest_system_reset_clear s)"
    using assms z by (auto simp: sys_ok_def guest_system_reset_clear_eq)
  have "SUBSYSTEM_RESET_FLAGS AND RESET_IO \<noteq> 0" by code_simp
  then show "sys_ok (guest_system_reset_normal s)"
    using assms z by (auto simp: sys_ok_def guest_system_reset_normal_def perform_noncpu_reset_def perform_cpu_reset_def Let_def)
qed

lemma io_int_keeps:
  assumes "io_int s = Ok (b, s')"
  shows "virt_devs s' = virt_devs s" "length (int_io (cpu s')) = length (int_io (cpu s))"
  using assms by (auto simp: io_int_def Let_def do_psw_swap_def set_state_def bindR_eq_Ok split: if_splits option.splits)

lemma run_guest_ok:
  assumes "run_guest sie s = Ok (w, s')" and "sys_ok s" and "sie_ok sie"
  shows "sys_ok s'"
proof -
  from assms(1) obtain b s1 where i: "io_int s = Ok (b, s1)" by (auto simp: run_guest_def bindR_eq_Ok)
  have ok: "sys_ok s1" using io_int_keeps [OF i] assms(2) by (simp add: sys_ok_def)
  have "sys_ok (sie s1)" using ok assms(3) by (simp add: sys_ok_def sie_ok_def)
  with assms(1) i ok show ?thesis
    by (auto simp: run_guest_def Let_def bindR_eq_Ok intro: handle_interception_ok split: if_splits)
qed

lemma guest_run_ok: "guest_run s s' \<Longrightarrow> sys_ok s \<Longrightarrow> sys_ok s'"
proof (induction rule: guest_run.induct)
  case (turn t sie w u)
  then show ?case using run_guest_ok by blast
next
  case (reset_clear t)
  then show ?case by (intro reset_sys_ok) (simp add: sys_ok_def)
next
  case (reset_normal t)
  then show ?case by (intro reset_sys_ok) (simp add: sys_ok_def)
next
  case (begins t)
  then show ?case by (simp add: guest_begin_def split: virt_cpustate.splits)
next
  case (stops t)
  then show ?case by (simp add: guest_stop_def split: virt_cpustate.splits)
qed

section \<open>Properties\<close>

text \<open>A system with a console device, for the examples.\<close>

definition example_console :: virt_device where
  "example_console = \<lparr>vtype = VDEV_CONS, sch = 0x10000, vd_type = 0x3215, vd_model = 0,
     backed = Spooled None (Some spool_cons_ops), sense = 0,
     pmcw = \<lparr>interrupt_param = 0, pw1 = 0x10009, pw2 = 0x80000080, pw3 = 0xff80, pw4 = 0, pw5 = 0, pw6 = 0\<rparr>,
     scsw = zero_scsw, orb = \<lparr>orb_param = 0, orb_w1 = 0, orb_addr = 0, orb_rest = []\<rparr>\<rparr>"

definition io_cpu :: "u16 \<Rightarrow> virt_cpu" where
  "io_cpu op = example_cpu\<lparr>icptcode := 4, ipa := op, ipb := 0x20000000,
     regs := (regs example_cpu)\<lparr>gpr := [0, 0x10000, 0x1000] @ replicate 13 0\<rparr>\<rparr>"

definition io_example :: "u16 \<Rightarrow> (u64 \<Rightarrow> u8) \<Rightarrow> virt_sys" where
  "io_example op m = (example_sys m)\<lparr>cpu := io_cpu op, virt_devs := [example_console]\<rparr>"

lemma io_example_fields:
  "cpu (io_example op m) = io_cpu op" "virt_devs (io_example op m) = [example_console]" "storage (io_example op m) = m"
  by (simp_all add: io_example_def example_sys_def)

lemma io_cpu_values: "guest_gpr (io_cpu op) 1 = 0x10000" "RAW_S_1 (io_cpu op) = Ok 0x1000" "length (int_io (io_cpu op)) = 8"
proof -
  have z: "VCPU_ZARCH (io_cpu op) \<longleftrightarrow> VCPU_ZARCH example_cpu" "gpsw (io_cpu op) = gpsw example_cpu"
    by (simp_all add: io_cpu_def VCPU_ZARCH_def)
  have e: "VCPU_ZARCH example_cpu" "push_bit 1 (psw_ea (gpsw example_cpu)) OR psw_ba (gpsw example_cpu) = 3" by code_simp+
  show g: "guest_gpr (io_cpu op) 1 = 0x10000" using z(1) e(1) by (simp add: guest_gpr_def io_cpu_def)
  have g2: "guest_gpr (io_cpu op) 2 = 0x1000" using z(1) e(1) by (simp add: guest_gpr_def io_cpu_def)
  have "drop_bit 16 (IP_TO_RAW (io_cpu op)) AND 0xfff = 0" "drop_bit 28 (IP_TO_RAW (io_cpu op)) AND 0xf = 2"
  proof -
    have m: "(0xfff :: u64) = mask 12" "(0xf :: u64) = mask 4" by (simp_all add: mask_eq_exp_minus_1)
    define one :: u64 where "one = 1"
    have b: "bit one n \<longleftrightarrow> n = 0" for n by (simp add: one_def bit_1_iff)
    have i: "IP_TO_RAW (io_cpu op) = push_bit 32 (ucast op) OR push_bit 29 one"
      by (simp add: IP_TO_RAW_def io_cpu_def one_def)
    show "drop_bit 16 (IP_TO_RAW (io_cpu op)) AND 0xfff = 0" unfolding i m
      by (rule bit_word_eqI) (auto simp: bit_simps b)
    have b2: "bit (2 :: u64) n \<longleftrightarrow> n = 1" for n
      using bit_exp_iff [of 1 n, where 'a = u64] by auto
    show "drop_bit 28 (IP_TO_RAW (io_cpu op)) AND 0xf = 2" unfolding i m
      by (rule bit_word_eqI) (auto simp: bit_simps b b2)
  qed
  then show "RAW_S_1 (io_cpu op) = Ok 0x1000"
    using z(2) e(2) g2 by (simp add: RAW_S_1_def guest_addr_def Let_def)
  show "length (int_io (io_cpu op)) = 8" by (simp add: io_cpu_def example_cpu_def)
qed

lemma io_example_addressed: "addressed (io_example op m) = Some 0"
  by (simp only: addressed_def io_example_fields io_cpu_values) (simp add: find_vdev_def example_console_def)

lemma io_example_with_vdev: "with_vdev (io_example op m) f = f 0x1000 0"
  unfolding with_vdev_def io_example_fields io_cpu_values io_example_addressed by simp

lemma io_example_ok: "sys_ok (io_example op m)"
  by (simp add: sys_ok_def io_example_fields io_cpu_values example_console_def dev_ok_def status_pending_def)

text \<open>
  (C2) An I/O instruction acts on the subchannel it names as the architecture's state machine says:
  starting is accepted only when the subchannel is idle, it queues one interruption and leaves
  status pending, a pending subchannel answers 1 to a start or a modification and is made idle
  by a test, a subchannel that is still started answers 2, a number without device gives 3, and
  no other device changes.  The exceptions are the processor stopping, or an error return, in
  which case nothing is queued.
\<close>

theorem subchannel_refinement:
  assumes "run_instr k s = Ok (r, s')" and "sys_ok s"
  shows "io_outcome k s r s' \<and> sys_ok s'"
  by (rule instr_outcome [OF assms])

theorem subchannel_refinement_witness:
  "\<exists>s'. run_instr TSCH (io_example 0xb235 (\<lambda>_. 0)) = Ok (None, s') \<and> io_outcome TSCH (io_example 0xb235 (\<lambda>_. 0)) None s' \<and> sys_ok s'"
proof -
  have "run_instr TSCH (io_example 0xb235 (\<lambda>_. 0)) = Ok (None, set_cc 1 (io_example 0xb235 (\<lambda>_. 0)))"
    by (simp add: handle_tsch_def io_example_with_vdev io_example_fields example_console_def status_pending_def)
  from subchannel_refinement [OF this io_example_ok] this show ?thesis by blast
qed



end
