(* ===== verification/Channel_Progs.thy ===== *)
theory Channel_Progs
  imports Channel
begin

text \<open>
  Channel programs on devices backed by the spool, end to end: they always end, what a write to
  the console does, and what goes wrong with chained commands and with commands whose data
  cannot be fetched; and what attaching a real device to a guest does.
\<close>

section \<open>Every channel program ends\<close>

text \<open>The storage that is left for the records of a file: what is free, and the rest of its last page.\<close>

definition room :: "spool_file \<Rightarrow> buddy \<Rightarrow> nat" where
  "room f b = SPOOL_DATA_SIZE * size (free_frames b) + (SPOOL_DATA_SIZE - unat (lrecoff f))"

lemma data_size: "SPOOL_DATA_SIZE = 4080"
  by (simp add: SPOOL_DATA_SIZE_def)

lemma alloc_uses:
  assumes "buddy_wf b" and "alloc_pages 0 ty b = Ok (Some p, b')"
  shows "buddy_wf b'" "size (free_frames b) = Suc (size (free_frames b'))"
  using alloc_pages_takes [OF assms] by (simp_all add: frames_0)

lemma fill_new_bytes:
  assumes "fill_new d buf len rlen cp = Ok (d', n)" and "cp < rlen"
  shows "0 < n" "n \<le> SPOOL_DATA_SIZE"
  using assms by (auto simp: fill_new_def Let_def bindR_eq_Ok data_size split: if_splits)

lemma append_pages_uses:
  assumes "append_pages k fr buf len rlen cp loff b new = Ok (Some loff', b', new')" and "buddy_wf b"
  shows "buddy_wf b' \<and> (b' = b \<and> loff' = loff \<and> (k = 0 \<or> rlen \<le> cp)
    \<or> size (free_frames b') < size (free_frames b) \<and> 0 < loff' \<and> loff' \<le> SPOOL_DATA_SIZE)"
  using assms
proof (induction k arbitrary: cp loff b new)
  case (Suc k)
  show ?case
  proof (cases "cp < rlen")
    case True
    with Suc.prems(1) obtain page b1 where a: "alloc_pages 0 ZONE_NORMAL b = Ok (page, b1)"
      by (auto simp: bindR_eq_Ok)
    with Suc.prems(1) True obtain p where p: "page = Some p" by (cases page) auto
    define a where "a = page_to_addr (page_num_to_ptr p)"
    from Suc.prems(1) True \<open>alloc_pages 0 ZONE_NORMAL b = Ok (page, b1)\<close> p obtain d n
      where f: "fill_new (fr a) buf len rlen cp = Ok (d, n)"
        and r: "append_pages k fr buf len rlen (cp + n) n b1 (new @ [\<lparr>sp_addr = a, sp_data = d\<rparr>]) = Ok (Some loff', b', new')"
      by (auto simp: bindR_eq_Ok Let_def a_def)
    note u = alloc_uses [OF Suc.prems(2), of ZONE_NORMAL p b1]
    from Suc.IH [OF r] u fill_new_bytes [OF f True] \<open>alloc_pages 0 ZONE_NORMAL b = Ok (page, b1)\<close> p
    show ?thesis by auto
  qed (use Suc.prems in auto)
qed auto

lemma spool_append_uses:
  assumes "spool_append_rec fr f (Some buf) len b = Ok (None, f', b')" and "buddy_wf b"
  shows "buddy_wf b'" "room f' b' < room f b"
proof -
  define rlen where "rlen = unat len + 2"
  from assms(1) obtain f1 cp loff res b1 new where len: "len \<noteq> 0"
    and fl: "fill_last f buf len = Ok (f1, cp, loff)" and bug: "\<not> rlen < cp"
    and ap0: "append_pages rlen fr buf len rlen cp loff b [] = Ok (res, b1, new)"
    and rest: "(case res of None \<Rightarrow> bindR (free_new_pages new b1) (\<lambda>b. Ok (Some ENOMEM, f1, b))
      | Some loff \<Rightarrow> let loff = (if loff mod 2 \<noteq> 0 then loff + 1 else loff)
          in Ok (None, f1\<lparr>sp_list := sp_list f1 @ new, npages := npages f1 + of_nat (length new), recs := recs f1 + 1,
                       lrecoff := of_nat loff\<rparr>, b1)) = Ok (None, f', b')"
    unfolding rlen_def spool_append_rec_def Let_def
    by (auto simp: bindR_eq_Ok BUG_ON_bind simp del: append_pages.simps split: if_splits)
  from rest obtain loff' where ap: "append_pages rlen fr buf len rlen cp loff b [] = Ok (Some loff', b', new)"
    and f': "lrecoff f' = of_nat (if loff' mod 2 \<noteq> 0 then loff' + 1 else loff')"
    using ap0 by (cases res) (auto simp: bindR_eq_Ok Let_def)
  have r3: "3 \<le> rlen" using len by (simp add: rlen_def unat_gt_0 Suc_le_eq)
  note ap' = append_pages_uses [OF ap assms(2)]
  show "buddy_wf b'" using ap' by simp
  have al: "unat (lrecoff f') = (if loff' mod 2 \<noteq> 0 then loff' + 1 else loff')" "unat (lrecoff f') \<le> 4080" if "loff' \<le> 4080"
  proof -
    have le: "(if loff' mod 2 \<noteq> 0 then loff' + 1 else loff') \<le> 4080" using that by presburger
    show "unat (lrecoff f') = (if loff' mod 2 \<noteq> 0 then loff' + 1 else loff')"
      unfolding f' by (rule unat_of_nat_small) (use le in simp)
    with le show "unat (lrecoff f') \<le> 4080" by simp
  qed
  consider "b' = b" "loff' = loff" "rlen \<le> cp"
    | "size (free_frames b') < size (free_frames b)" "0 < loff'" "loff' \<le> SPOOL_DATA_SIZE"
    using ap' r3 by fastforce
  then show "room f' b' < room f b"
  proof cases
    case 1
    with bug have c: "cp = rlen" by simp
    with fl r3 have "loff = unat (lrecoff f) + rlen" "rlen \<le> SPOOL_DATA_SIZE - unat (lrecoff f)"
      by (auto simp: fill_last_def Let_def bindR_eq_Ok data_size min_def split: if_splits)
    with 1 al r3 show ?thesis by (auto simp: room_def data_size split: if_splits)
  next
    case 2
    then have "0 < unat (lrecoff f')" "unat (lrecoff f') \<le> 4080" using al by (auto simp: data_size split: if_splits)
    then show ?thesis using 2(1) by (simp add: room_def data_size)
  qed
qed

lemma malloc_frames:
  assumes "malloc sz ty st = Ok (Some p, st')" and "buddy_wf (mm st)"
  shows "buddy_wf (mm st') \<and> size (free_frames (mm st')) \<le> size (free_frames (mm st))"
proof -
  have ap: "mm (snd (alloc_in_page a s t)) = mm t" for a s t
    by (simp add: alloc_in_page_def Let_def split: option.splits)
  have ap2: "alloc_in_page a s t = (x, t') \<Longrightarrow> mm t' = mm t" for a s t x t'
    using ap [of a s t] by simp
  from assms(1) obtain k where k: "alloc_slab_obj (generic st ! k) ty st = Ok (Some p, st')"
    by (auto simp: malloc_def split: option.splits)
  show ?thesis
  proof (cases "mm st' = mm st")
    case False
    from k obtain head s where h: "generic st ! k = Some head" "get_slab head st = Ok s"
      by (auto simp: alloc_slab_obj_def bindR_eq_Ok split: option.splits)
    with k False ap2 obtain page st1 where n: "newpage head s ty st = Ok (page, st1)"
      "(case page of None \<Rightarrow> Ok (None, st1) | Some a \<Rightarrow> bindR (get_slab a st1) (\<lambda>sa. Ok (alloc_in_page a sa st1))) = Ok (Some p, st')"
      by (auto simp: alloc_slab_obj_def bindR_eq_Ok BUG_ON_bind split: if_splits option.splits)
    then obtain a where "page = Some a" "mm st' = mm st1" using ap2 by (cases page) (auto simp: bindR_eq_Ok)
    with n(1) obtain q where "alloc_pages 0 ty (mm st) = Ok (Some q, mm st1)"
      by (auto simp: newpage_def bindR_eq_Ok Let_def split: option.splits)
    from alloc_uses [OF assms(2) this] \<open>mm st' = mm st1\<close> show ?thesis by simp
  qed (use assms(2) in simp)
qed

text \<open>What is left for the records of the device \<open>i\<close>, whose file is opened by the first write.\<close>

definition left_for :: "nat \<Rightarrow> virt_sys \<Rightarrow> nat" where
  "left_for i s = (case spooled_file (virt_devs s ! i) of
     None \<Rightarrow> room empty_spool (mm (heap s)) | Some f \<Rightarrow> room f (mm (heap s)))"

lemma spooled_upd [simp]:
  "i < length (virt_devs s) \<Longrightarrow> virt_devs (upd_dev i f s) ! i = f (virt_devs s ! i)"
  "spooled_file (v\<lparr>backed := Spooled g o'\<rparr>) = g" "length (virt_devs (upd_dev i f s)) = length (virt_devs s)"
  "heap (upd_dev i f s) = heap s"
  by (simp_all add: upd_dev_def spooled_file_def)

lemma open_uses:
  assumes "open_spoolfile i s = Ok (Inr f, s')" and "buddy_wf (mm (heap s))"
  shows "buddy_wf (mm (heap s'))" "room f (mm (heap s')) \<le> left_for i s" "length (virt_devs s') = length (virt_devs s)"
proof -
  have "buddy_wf (mm (heap s')) \<and> room f (mm (heap s')) \<le> left_for i s"
  proof (cases "spooled_file (virt_devs s ! i)")
    case None
    with assms(1) obtain q h where a: "alloc_spool (heap s) = Ok (q, h)"
      and q: "(case q of Inl e \<Rightarrow> Ok (Inl e, s\<lparr>heap := h\<rparr>)
         | Inr (a, f) \<Rightarrow> Ok (Inr f, upd_dev i (\<lambda>v. v\<lparr>backed := Spooled (Some f) (spooled_ops v)\<rparr>) (s\<lparr>heap := h\<rparr>))) = Ok (Inr f, s')"
      by (auto simp: open_spoolfile_def Let_def bindR_eq_Ok)
    from q obtain p where p: "q = Inr (p, f)" "heap s' = h" by (cases q) auto
    with a obtain p' where m: "malloc sizeof_spool_file ZONE_NORMAL (heap s) = Ok (Some p', h)" "f = empty_spool"
      by (auto simp: alloc_spool_def bindR_eq_Ok split: option.splits)
    from malloc_frames [OF m(1) assms(2)] p None m(2) show ?thesis
      by (simp add: left_for_def room_def)
  qed (use assms in \<open>simp add: open_spoolfile_def left_for_def\<close>)
  then show "buddy_wf (mm (heap s'))" "room f (mm (heap s')) \<le> left_for i s" by simp_all
  show "length (virt_devs s') = length (virt_devs s)" using spooling_open [OF assms(1)] by (simp add: spooling_def)
qed

lemma cons_write_uses:
  assumes "cons_write i c s st = Ok (s', st')" and "c_cmd c = 1" and "buddy_wf (mm (heap s))" and "i < length (virt_devs s)"
  shows "buddy_wf (mm (heap s')) \<and> left_for i s' < left_for i s"
proof -
  from assms(1,2) obtain f s1 f' b where o: "open_spoolfile i s = Ok (Inr f, s1)"
    and a: "spool_append_rec (fresh_page s1) f (Some (iobuf st)) (of_nat (min (unat (c_count c)) 150)) (mm (heap s1)) = Ok (None, f', b)"
    and s': "s' = upd_dev i (\<lambda>v. v\<lparr>backed := Spooled (Some f') (spooled_ops v)\<rparr>) (s1\<lparr>heap := (heap s1)\<lparr>mm := b\<rparr>\<rparr>)"
    by (rule cons_write_OkE)
  note op = open_uses [OF o assms(3)]
  from spool_append_uses [OF a op(1)] op(2,3) assms(4) show ?thesis by (simp add: s' left_for_def)
qed

text \<open>A command that goes on to the next has been a write to the console that has succeeded.\<close>

lemma command_goes_on:
  assumes "exec_command i c s st = Ok (True, s', st')"
  obtains st1 st2 where "c_cmd c = 1" "xfer_storage True c s st = Ok (s, st1)" "cons_write i c s st1 = Ok (s', st2)"
    "st' = st2\<lparr>cd := c_flags c AND CCW_FLAG_CD \<noteq> 0, st_addr := (st_addr st2 + 8) AND 0x7fffffff\<rparr>"
proof -
  have N: "SC_STATUS_CE OR SC_STATUS_DE OR SC_STATUS_UC \<noteq> SC_STATUS_CE OR SC_STATUS_DE"
    "(SC_STATUS_CE OR SC_STATUS_DE) OR SC_STATUS_UC \<noteq> SC_STATUS_CE OR SC_STATUS_DE" by code_simp+
  have W: "IS_CCW_WRITE 1" "\<not> IS_CCW_READ 1" "(1 :: u8) AND 0xf = 1" by code_simp+
  from assms obtain s1 st1 s2 st2 where 1: "(if IS_CCW_WRITE (c_cmd c) then xfer_storage True c s st else Ok (s, st)) = Ok (s1, st1)"
    and 2: "(case Option.bind (ops st1) (\<lambda>o'. spool_ops_f o' (c_cmd c AND 0xf)) of
              Some f \<Rightarrow> f i c s1 st1 | None \<Rightarrow> Ok (spooldev_cmdrej i s1 st1)) = Ok (s2, st2)"
    and 3: "(if dev_status st2 \<noteq> SC_STATUS_CE OR SC_STATUS_DE then Ok (False, s2, st2)
       else bindR (if IS_CCW_READ (c_cmd c) then xfer_storage False c s2 st2 else Ok (s2, st2)) (\<lambda>(s, st).
         if c_flags c AND (CCW_FLAG_CD OR CCW_FLAG_CC) = 0 then Ok (False, s, st)
         else Ok (True, s, st\<lparr>cd := c_flags c AND CCW_FLAG_CD \<noteq> 0, st_addr := (st_addr st + 8) AND 0x7fffffff\<rparr>))) = Ok (True, s', st')"
    unfolding exec_command_def by (auto simp: bindR_eq_Ok)
  from 3 have d: "dev_status st2 = SC_STATUS_CE OR SC_STATUS_DE" by (auto split: if_splits)
  from 2 d N have w: "cons_write i c s1 st1 = Ok (s2, st2)"
    by (cases "ops st1") (auto simp: spooldev_cmdrej_def spool_ops_f_def split: spool_ops.splits if_splits)
  have cmd: "c_cmd c = 1"
  proof (rule ccontr)
    assume "c_cmd c \<noteq> 1"
    with w d N(2) show False by (auto simp: cons_write_def Let_def)
  qed
  from 1 cmd W(1) have x: "xfer_storage True c s st = Ok (s1, st1)" by simp
  then have "s1 = s" by (auto simp: xfer_storage_def bindR_eq_Ok Let_def split: if_splits prod.splits)
  moreover from 3 cmd W(2) d have "s' = s2 \<and> st' = st2\<lparr>cd := c_flags c AND CCW_FLAG_CD \<noteq> 0, st_addr := (st_addr st2 + 8) AND 0x7fffffff\<rparr>"
    by (auto split: if_splits)
  ultimately show thesis using that cmd x w by blast
qed

lemma round_goes_on:
  assumes "exec_round i s st = Ok (True, s', st')" and "buddy_wf (mm (heap s))" and "i < length (virt_devs s)"
  shows "buddy_wf (mm (heap s')) \<and> i < length (virt_devs s')
    \<and> 2 * left_for i s' + (if tic2tic st' then 0 else 1) < 2 * left_for i s + (if tic2tic st then 0 else 1)"
proof -
  have t: "tic2tic (fst (get_ccw s st)) = tic2tic st"
    by (auto simp: get_ccw_def split: prod.splits option.splits)
  obtain st1 oc where g: "get_ccw s st = (st1, oc)" by fastforce
  from assms(1) g obtain c where c: "oc = Some c" by (cases oc) (auto simp: exec_round_def)
  let ?st = "st1\<lparr>st_addr := st_addr st1 + 8\<rparr>"
  show ?thesis
  proof (cases "c_cmd c = CCW_CMD_TIC")
    case True
    with assms g c t show ?thesis by (auto simp: exec_round_def Let_def split: if_splits)
  next
    case False
    with assms(1) g c have "exec_command i c s (?st\<lparr>tic2tic := False\<rparr>) = Ok (True, s', st')"
      by (auto simp: exec_round_def Let_def split: if_splits)
    then obtain x y where cw: "c_cmd c = 1" "cons_write i c s x = Ok (s', y)" by (rule command_goes_on)
    from cons_write_uses [OF cw(2,1) assms(2,3)] spooling_cons_write [OF cw(2)] assms(3)
    show ?thesis by (auto simp: spooling_def)
  qed
qed

lemma loop_ends:
  assumes "2 * left_for i s + (if tic2tic st then 0 else 1) < k" and "buddy_wf (mm (heap s))" and "i < length (virt_devs s)"
  shows "exec_loop k i s st \<noteq> None"
  using assms
proof (induction k arbitrary: s st)
  case (Suc k)
  show ?case
  proof (cases "exec_round i s st")
    case (Inr r)
    obtain go s' st' where r: "r = (go, s', st')" by (cases r) auto
    show ?thesis
    proof (cases go)
      case True
      with Inr r have "exec_round i s st = Ok (True, s', st')" by simp
      from round_goes_on [OF this Suc.prems(2,3)] Suc.prems(1) Suc.IH [of s' st'] Inr r True show ?thesis by simp
    qed (use Inr r in simp)
  qed simp
qed simp

lemma loop_more: "exec_loop k i s st = Some r \<Longrightarrow> exec_loop (k + n) i s st = Some r"
  by (induction k arbitrary: s st) (auto split: sum.splits prod.splits if_splits)

lemma left_for_rounds: "2 * left_for i s + 1 < exec_rounds s"
  by (auto simp: left_for_def room_def exec_rounds_def data_size empty_spool_def split: option.splits)

section \<open>A write to the console\<close>

lemma copied_length: "copy_from_guest k x a m len bs = (None, d) \<Longrightarrow> len \<le> k \<Longrightarrow> length d = length bs + len"
proof (induction k arbitrary: len bs)
  case (Suc k)
  show ?case
  proof (cases "len = 0")
    case False
    with Suc.prems(1) obtain h where h: "x a = Some h" by (cases "x a") auto
    define n where "n = min (4096 - unat (h AND PAGE_MASK)) len"
    have n: "0 < n" "n \<le> len" using False page_offset [of h] by (simp_all add: n_def)
    from Suc.prems(1) False h have "copy_from_guest k x a m (len - n) (bs @ read_bytes m h n) = (None, d)"
      by (simp add: n_def Let_def)
    from Suc.IH [OF this] n Suc.prems(2) show ?thesis by simp
  qed (use Suc.prems in simp)
qed simp

lemma memcpy_length: "memcpy_from_guest x a len m = (None, d) \<Longrightarrow> length d = len"
  unfolding memcpy_from_guest_def by (drule copied_length) simp_all

lemma memcpy_none: "x a = None \<Longrightarrow> len \<noteq> 0 \<Longrightarrow> memcpy_from_guest x a len m = (Some EFAULT, [])"
  by (cases len) (simp_all add: memcpy_from_guest_def)

text \<open>
  One command of a channel program: a write of \<open>len\<close> bytes to a console whose file holds the
  records \<open>rs\<close> and has room for one more.
\<close>

definition writes :: "nat \<Rightarrow> ccw \<Rightarrow> spool_file \<Rightarrow> u8 list list \<Rightarrow> virt_sys \<Rightarrow> spdev_state \<Rightarrow> bool" where
  "writes i c f rs s st \<longleftrightarrow>
     get_ccw s st = (st, Some c) \<and> \<not> bad_ccw c st \<and> sch_status st = 0 \<and> ops st = Some spool_cons_ops
     \<and> c_cmd c = 1 \<and> c_count c \<noteq> 0 \<and> ucast (c_addr c) \<le> storage_size s
     \<and> i < length (virt_devs s) \<and> spooled_file (virt_devs s ! i) = Some f
     \<and> spool_ok f rs \<and> fits f (of_nat (min (unat (c_count c)) 150))
     \<and> unat (npages f) + 1 < 2 ^ 64 \<and> unat (recs f) + 1 < 2 ^ 64 \<and> unat (c_count c) \<le> length (iobuf st)
     \<and> (\<exists>p b. alloc_pages 0 ZONE_NORMAL (mm (heap s)) = Ok (Some p, b))"

lemma writes_append:
  assumes "writes i c f rs s st" and "length (iobuf st1) = length (iobuf st)"
  defines "n \<equiv> min (unat (c_count c)) 150"
  shows "\<exists>s' f'. cons_write i c s st1 = Ok (s', st1\<lparr>dev_status := SC_STATUS_CE OR SC_STATUS_DE, rem := rem st1 - of_nat n, pos := pos st1 + of_nat n\<rparr>)
    \<and> spooled_file (virt_devs s' ! i) = Some f' \<and> spool_ok f' (rs @ [take n (iobuf st1)])"
proof -
  have n: "unat (of_nat n :: u16) = n" by (rule unat_of_nat_small) (simp add: n_def)
  have nz: "(of_nat n :: u16) \<noteq> 0" using n assms(1) by (auto simp: writes_def n_def min_def unat_eq_0 split: if_splits)
  from assms(1) obtain p b where a: "alloc_pages 0 ZONE_NORMAL (mm (heap s)) = Ok (Some p, b)" by (auto simp: writes_def)
  have len: "unat (of_nat n :: u16) \<le> length (iobuf st1)" using assms(1,2) unfolding n by (simp add: writes_def n_def min_le_iff_disj)
  have fr: "\<And>a. length (fresh_page s a) = SPOOL_DATA_SIZE" by (simp add: fresh_page_def)
  from assms(1) have w: "spool_ok f rs" "fits f (of_nat n)" "unat (npages f) + 1 < 2 ^ 64" "unat (recs f) + 1 < 2 ^ 64"
    "spooled_file (virt_devs s ! i) = Some f" "c_cmd c = 1" "i < length (virt_devs s)" by (simp_all add: writes_def n_def)
  from spool_append_gives [where fresh = "fresh_page s", OF w(1) nz len w(2,3,4) a fr] obtain f' b2
    where g: "spool_append_rec (fresh_page s) f (Some (iobuf st1)) (of_nat n) (mm (heap s)) = Ok (None, f', b2)"
      "spool_ok f' (rs @ [take n (iobuf st1)])" unfolding n by blast
  show ?thesis using w g by (simp add: cons_write_def open_spoolfile_def Let_def n_def [symmetric])
qed

text \<open>The whole round, for data that could be fetched and for data that could not.\<close>

lemma supported_flags:
  assumes "x AND (CCW_FLAG_SKP OR CCW_FLAG_PCI OR CCW_FLAG_IDA OR CCW_FLAG_S OR CCW_FLAG_MIDA OR CCW_FLAG_CD) = 0"
  shows "x AND (CCW_FLAG_IDA OR CCW_FLAG_MIDA) = 0" "x AND CCW_FLAG_CD = 0"
proof -
  have "\<not> bit (x AND (CCW_FLAG_SKP OR CCW_FLAG_PCI OR CCW_FLAG_IDA OR CCW_FLAG_S OR CCW_FLAG_MIDA OR CCW_FLAG_CD)) n" for n
    unfolding assms by simp
  then have z: "bit x n \<Longrightarrow> \<not> bit (CCW_FLAG_IDA OR CCW_FLAG_MIDA) n \<and> \<not> bit CCW_FLAG_CD n" for n by (auto simp: bit_simps)
  show "x AND (CCW_FLAG_IDA OR CCW_FLAG_MIDA) = 0" "x AND CCW_FLAG_CD = 0"
    by (rule bit_word_eqI; use z in \<open>auto simp: bit_and_iff\<close>)+
qed

lemma writes_round:
  assumes "writes i c f rs s st"
    and x: "memcpy_from_guest (xlate s) (ucast (c_addr c)) (unat (c_count c)) (storage s) = (e, bs)" "length bs \<le> length (iobuf st)"
  defines "n \<equiv> min (unat (c_count c)) 150" and "go \<equiv> c_flags c AND CCW_FLAG_CC \<noteq> 0"
  shows "\<exists>s' st' f'. exec_round i s st = Ok (go, s', st')
    \<and> spooled_file (virt_devs s' ! i) = Some f' \<and> spool_ok f' (rs @ [take n (bs @ drop (length bs) (iobuf st))])
    \<and> dev_status st' = SC_STATUS_CE OR SC_STATUS_DE \<and> sch_status st' = (if e = None then 0 else SC_PROT_CHK)
    \<and> rem st' = of_nat (length bs) - of_nat n
    \<and> st_addr st' = (if go then (st_addr st + 16) AND 0x7fffffff else st_addr st + 8)"
proof -
  define buf where "buf = bs @ drop (length bs) (iobuf st)"
  define st1 where "st1 = st\<lparr>st_addr := st_addr st + 8, tic2tic := False\<rparr>"
  define ss where "ss = (if e = None then 0 else SC_PROT_CHK)"
  have w1: "writes i c f rs s st" by fact
  have w: "get_ccw s st = (st, Some c)" "\<not> bad_ccw c st" "sch_status st = 0" "ops st = Some spool_cons_ops"
    "c_cmd c = 1" "c_count c \<noteq> 0" "ucast (c_addr c) \<le> storage_size s" using assms(1) by (simp_all add: writes_def)
  have N: "IS_CCW_WRITE 1" "\<not> IS_CCW_READ 1" "(1 :: u8) AND 0xf = 1" "1 \<noteq> CCW_CMD_TIC" by code_simp+
  have fl: "c_flags c AND (CCW_FLAG_IDA OR CCW_FLAG_MIDA) = 0" "c_flags c AND CCW_FLAG_CD = 0"
    using w(2) supported_flags by (auto simp: bad_ccw_def)
  have go: "c_flags c AND (CCW_FLAG_CD OR CCW_FLAG_CC) = 0 \<longleftrightarrow> \<not> go"
    using fl(2) by (simp add: go_def bit.conj_disj_distrib)
  have xf: "xfer_storage True c s st1 = Ok (s, st1\<lparr>iobuf := buf, sch_status := ss, pos := 0, rem := of_nat (length bs)\<rparr>)"
    using w(3,6,7) fl(1) x by (simp add: xfer_storage_def BUG_ON_def Let_def buf_def ss_def st1_def unat_eq_0 not_less [symmetric])
  obtain s' f' where cw: "cons_write i c s (st1\<lparr>iobuf := buf, sch_status := ss, pos := 0, rem := of_nat (length bs)\<rparr>)
      = Ok (s', st1\<lparr>iobuf := buf, sch_status := ss, dev_status := SC_STATUS_CE OR SC_STATUS_DE, rem := of_nat (length bs) - of_nat n, pos := of_nat n\<rparr>)"
    and f': "spooled_file (virt_devs s' ! i) = Some f'" "spool_ok f' (rs @ [take n buf])"
    using writes_append [OF assms(1), of "st1\<lparr>iobuf := buf, sch_status := ss, pos := 0, rem := of_nat (length bs)\<rparr>"] x(2)
    by (auto simp: buf_def n_def)
  have ec: "exec_command i c s st1 = Ok (go, s',
      let t = st1\<lparr>iobuf := buf, sch_status := ss, dev_status := SC_STATUS_CE OR SC_STATUS_DE, rem := of_nat (length bs) - of_nat n, pos := of_nat n\<rparr>
      in if go then t\<lparr>cd := False, st_addr := (st_addr t + 8) AND 0x7fffffff\<rparr> else t)"
    unfolding exec_command_def w(5) using N go xf cw w(4) fl(2)
    by (simp add: spool_ops_f_def st1_def)
  have "bad_ccw c st1 = bad_ccw c st" by (simp add: bad_ccw_def st1_def)
  then have er: "exec_round i s st = exec_command i c s st1"
    using w N(4) by (simp add: exec_round_def Let_def st1_def)
  show ?thesis unfolding er ec using f' by (simp add: Let_def ss_def st1_def buf_def add.commute)
qed

lemma memcpy_one_page:
  assumes "x a = Some h" and "unat (h AND PAGE_MASK) + len \<le> 4096"
  shows "memcpy_from_guest x a len m = (None, read_bytes m h len)"
proof (cases len)
  case (Suc k)
  have "memcpy_from_guest x a len m = copy_from_guest k x a m 0 ([] @ read_bytes m h len)"
    unfolding memcpy_from_guest_def using copy_from_guest_round [of x a h, OF assms(1), of len len k m "[]"] assms(2) Suc by simp
  then show ?thesis by (simp add: copy_from_guest_0)
qed (simp add: memcpy_from_guest_def read_bytes_def)

section \<open>Attaching a device\<close>

lemma free_number_Some:
  "free_number f lo ds = Some c \<Longrightarrow> lo \<le> c \<and> c < lo + 0x10000 \<and> (\<forall>v \<in> set ds. f v \<noteq> of_nat c)"
  by (auto simp: free_number_def find_Some_iff)

lemma found_by_ccuu:
  assumes "find_device (\<lambda>d. ccuu d = n) as io = Ok (Inr a, io')"
  shows "\<exists>d. dev_at io a = Some d \<and> ccuu d = n \<and> dev_at io' = (dev_at io)(a \<mapsto> d\<lparr>refcnt := refcnt d + 1\<rparr>)"
  using assms by (induction as) (auto simp: bindR_eq_Ok dev_get_def BUG_ON_bind split: if_splits)

text \<open>What attaching a device leads to: nothing, or one more virtual device, on a device nobody used.\<close>

definition attached :: "u16 \<Rightarrow> u16 option \<Rightarrow> iosys \<Rightarrow> virt_sys \<Rightarrow> iosys \<Rightarrow> virt_sys \<Rightarrow> bool" where
  "attached rdev vdev io s io' s' \<longleftrightarrow>
     (\<exists>v a d. virt_devs s' = virt_devs s @ [v] \<and> vtype v = VDEV_DED \<and> backed v = Dedicated a
        \<and> dev_at io a = Some d \<and> ccuu d = rdev \<and> \<not> in_use d
        \<and> dev_at io' = (dev_at io)(a \<mapsto> d\<lparr>refcnt := refcnt d + 1, in_use := True\<rparr>)
        \<and> vd_type v = d_type d \<and> vd_model v = d_model d \<and> pmcw_v (pmcw v) = 1
        \<and> 0x10000 \<le> unat (sch v) \<and> unat (sch v) < 0x20000 \<and> sch v \<notin> sch ` set (virt_devs s)
        \<and> (case vdev of Some n \<Rightarrow> pmcw_dev_num (pmcw v) = ucast n
           | None \<Rightarrow> pmcw_dev_num (pmcw v) \<notin> (\<lambda>w. pmcw_dev_num (pmcw w)) ` set (virt_devs s)))"

lemma alloc_ded:
  assumes "alloc_virt_dev raw \<lparr>dv_type = VDEV_DED, dv_vdev = n, dv_rdev = rdev, dv_stype = x, dv_smodel = y\<rparr> c io s = Ok (r, io', s')"
  shows "r \<noteq> None \<and> virt_devs s' = virt_devs s
    \<or> r = None \<and> (\<exists>v a d. virt_devs s' = virt_devs s @ [v] \<and> vtype v = VDEV_DED \<and> backed v = Dedicated a
        \<and> dev_at io a = Some d \<and> ccuu d = rdev \<and> \<not> in_use d
        \<and> dev_at io' = (dev_at io)(a \<mapsto> d\<lparr>refcnt := refcnt d + 1, in_use := True\<rparr>)
        \<and> vd_type v = d_type d \<and> vd_model v = d_model d \<and> pmcw_v (pmcw v) = 1 \<and> pmcw_dev_num (pmcw v) = ucast n \<and> sch v = c)"
proof -
  let ?dir = "\<lparr>dv_type = VDEV_DED, dv_vdev = n, dv_rdev = rdev, dv_stype = x, dv_smodel = y\<rparr>"
  from assms obtain p h where m: "malloc sizeof_virt_device ZONE_NORMAL (heap s) = Ok (p, h)"
    by (auto simp: alloc_virt_dev_def bindR_eq_Ok)
  show ?thesis
  proof (cases p)
    case None
    with assms m show ?thesis by (auto simp: alloc_virt_dev_def)
  next
    case (Some q)
    define v0 where "v0 = raw\<lparr>vtype := VDEV_DED, sch := c,
      pmcw := (pmcw raw)\<lparr>pw1 := setf 0 16 (ucast n) (setf 16 1 1 (pw1 (pmcw raw))),
        pw2 := setf 0 8 0x80 (setf 24 8 0x80 (pw2 (pmcw raw))), pw3 := setf 0 8 0x80 (setf 8 8 0xff (pw3 (pmcw raw)))\<rparr>\<rparr>"
    from assms m Some obtain ret v io1 where u: "setup_vdev_ded ?dir v0 io = Ok (ret, v, io1)"
      and rest: "(case ret of None \<Rightarrow> Ok (None, io1, s\<lparr>heap := h, virt_devs := virt_devs s @ [v]\<rparr>)
         | Some e \<Rightarrow> bindR (free (Some q) h) (\<lambda>h. Ok (Some e, io1, s\<lparr>heap := h\<rparr>))) = Ok (r, io', s')"
      by (auto simp: alloc_virt_dev_def bindR_eq_Ok Let_def v0_def)
    show ?thesis
    proof (cases ret)
      case (Some e)
      with rest show ?thesis by (auto simp: bindR_eq_Ok)
    next
      case None
      from u obtain q io2 where q: "find_device_by_ccuu rdev io = Ok (q, io2)" by (auto simp: setup_vdev_ded_def bindR_eq_Ok)
      with u None obtain a where "q = Inr a" by (cases q) (auto simp: setup_vdev_ded_def)
      with u None q obtain a d2 where f: "find_device_by_ccuu rdev io = Ok (Inr a, io2)" "dev_at io2 a = Some d2" "\<not> in_use d2"
        "v = v0\<lparr>backed := Dedicated a, vd_type := d_type d2, vd_model := d_model d2\<rparr>" "io1 = put_dev a (d2\<lparr>in_use := True\<rparr>) io2"
        by (auto simp: setup_vdev_ded_def bindR_eq_Ok split: if_splits)
      from found_by_ccuu [of rdev "devs io" io a io2] f(1) obtain d where d: "dev_at io a = Some d" "ccuu d = rdev"
        "dev_at io2 = (dev_at io)(a \<mapsto> d\<lparr>refcnt := refcnt d + 1\<rparr>)" by (auto simp: find_device_by_ccuu_def)
      have t: "take_bit 16 (ucast n :: u32) = ucast n" by (rule bit_word_eqI) (auto simp: bit_simps dest: bit_imp_le_length)
      have n: "pmcw_v (pmcw v0) = 1" "pmcw_dev_num (pmcw v0) = ucast n" "vtype v0 = VDEV_DED" "sch v0 = c"
        by (simp_all add: v0_def pmcw_v_def pmcw_dev_num_def field_simps t)
      from f d rest None n show ?thesis by auto
    qed
  qed
qed

section \<open>Properties\<close>

text \<open>
  The examples: a console whose empty file is open, and a channel program at guest address
  \<open>0x2000\<close> whose first command writes three bytes from \<open>data\<close>.
\<close>

definition example_command :: "u8 \<Rightarrow> u16 \<Rightarrow> ccw" where
  "example_command flags data = \<lparr>c_cmd = 1, c_flags = flags, c_count = 3, c_addr = ucast data\<rparr>"

definition command_bytes :: "u8 \<Rightarrow> u16 \<Rightarrow> u8 list" where
  "command_bytes flags data = [1, flags, 0, 3, 0, 0] @ put16 data"

definition open_console :: virt_device where
  "open_console = example_console\<lparr>backed := Spooled (Some empty_spool) (Some spool_cons_ops),
     orb := \<lparr>orb_param = 0, orb_w1 = 0x800000, orb_addr = 0x2000, orb_rest = []\<rparr>\<rparr>"

definition console_system :: "u8 \<Rightarrow> u16 \<Rightarrow> virt_sys" where
  "console_system flags data = (io_example 0 (write_bytes 0x42000 (command_bytes flags data) (\<lambda>_. 0x55)))
     \<lparr>heap := (example_heap 1 0x80)\<lparr>mm := small_storage\<rparr>, virt_devs := [open_console]\<rparr>"

lemma console_system_fields:
  "mm (heap (console_system fl d)) = small_storage" "length (virt_devs (console_system fl d)) = 1"
  by (simp_all add: console_system_def)

abbreviation "started_system fl d \<equiv> fst (exec_start 0x8000 0 (console_system fl d))"
abbreviation "started_program fl d \<equiv> snd (exec_start 0x8000 0 (console_system fl d))"

lemma started_fields:
  "storage (started_system fl d) = storage (console_system fl d)" "mm (heap (started_system fl d)) = small_storage"
  "xlate (started_system fl d) = (\<lambda>a. if a < 0x4000 then Some (a + 0x40000) else None)" "storage_size (started_system fl d) = 0x4000"
  "length (virt_devs (started_system fl d)) = 1" "spooled_file (virt_devs (started_system fl d) ! 0) = Some empty_spool"
  "st_addr (started_program fl d) = 0x2000" "st_f (started_program fl d)" "sch_status (started_program fl d) = 0"
  "ops (started_program fl d) = Some spool_cons_ops" "cd (started_program fl d) = False" "length (iobuf (started_program fl d)) = 65536"
proof -
  have "orb_f (orb open_console) \<noteq> 0" by code_simp
  then show "st_f (started_program fl d)" by (simp add: exec_start_def Let_def upd_dev_def console_system_def)
qed (simp_all add: exec_start_def Let_def upd_dev_def console_system_def io_example_def example_sys_def open_console_def
    spooled_file_def spooled_ops_def)

lemma fetched:
  assumes "fl = 0 \<or> fl = CCW_FLAG_CC" and "d = 0x3000 \<or> d = 0x4000"
  shows "get_ccw (started_system fl d) (started_program fl d) = (started_program fl d, Some (example_command fl d))"
proof -
  have s: "storage (console_system fl d) = write_bytes 0x42000 (command_bytes fl d) (\<lambda>_. 0x55)"
    by (simp add: console_system_def io_example_def example_sys_def)
  have r: "read_bytes (storage (console_system fl d)) 0x42000 8 = command_bytes fl d"
    unfolding s by (rule read_written) (simp_all add: command_bytes_def)
  have "memcpy_from_guest (xlate (started_system fl d)) 0x2000 8 (storage (started_system fl d)) = (None, command_bytes fl d)"
    using memcpy_one_page [of "xlate (started_system fl d)" "0x2000" "0x42000" 8 "storage (started_system fl d)"]
    by (simp add: started_fields r PAGE_MASK_def)
  moreover have "ccw1_of_bytes (command_bytes fl d) = example_command fl d"
    using assms by (elim disjE; hypsubst; code_simp)
  ultimately show ?thesis by (simp add: get_ccw_def started_fields)
qed

lemma example_storage:
  "read_bytes (storage (console_system fl d)) 0x43000 3 = [0x55, 0x55, 0x55]"
  "read_bytes (storage (console_system fl d)) 0x8000 3 = [0x55, 0x55, 0x55]"
proof -
  have s: "storage (console_system fl d) = write_bytes 0x42000 (command_bytes fl d) (\<lambda>_. 0x55)"
    by (simp add: console_system_def io_example_def example_sys_def)
  have l: "length (command_bytes fl d) = 8" by (simp add: command_bytes_def)
  have c: "read_bytes (\<lambda>_. 0x55 :: u8) a 3 = [0x55, 0x55, 0x55]" for a by (simp add: read_bytes_def upt_rec)
  have o: "read_bytes (write_bytes 0x42000 (command_bytes fl d) (\<lambda>_. 0x55)) a 3 = read_bytes (\<lambda>_. 0x55) a 3"
    if "\<And>i. i < 3 \<Longrightarrow> 8 \<le> unat (a + of_nat i - 0x42000)" for a
    by (rule read_other) (use l that in simp_all)
  have "8 \<le> unat ((0x43000 :: u64) + of_nat i - 0x42000)" "8 \<le> unat ((0x8000 :: u64) + of_nat i - 0x42000)" if "i < 3" for i
    using that by (auto simp: less_Suc_eq numeral_3_eq_3)
  then show "read_bytes (storage (console_system fl d)) 0x43000 3 = [0x55, 0x55, 0x55]"
    "read_bytes (storage (console_system fl d)) 0x8000 3 = [0x55, 0x55, 0x55]"
    unfolding s using o c by simp_all
qed

lemma example_writes:
  assumes "fl = 0 \<or> fl = CCW_FLAG_CC" and "d = 0x3000 \<or> d = 0x4000"
  shows "writes 0 (example_command fl d) empty_spool [] (started_system fl d) (started_program fl d)"
proof -
  have "\<not> (c_flags (example_command fl d) AND (CCW_FLAG_SKP OR CCW_FLAG_PCI OR CCW_FLAG_IDA OR CCW_FLAG_S OR CCW_FLAG_MIDA OR CCW_FLAG_CD) \<noteq> 0)"
    "c_addr (example_command fl d) AND 0x80000000 = 0" "ucast (c_addr (example_command fl d)) \<le> (0x4000 :: u64)"
    using assms by (elim disjE; hypsubst; code_simp)+
  then have "\<not> bad_ccw (example_command fl d) (started_program fl d)" "ucast (c_addr (example_command fl d)) \<le> (0x4000 :: u64)"
    by (simp_all add: bad_ccw_def started_fields) (simp_all add: example_command_def)
  moreover have np: "npages empty_spool = 0" "recs empty_spool = 0" by (simp_all add: empty_spool_def)
  ultimately show ?thesis unfolding writes_def
    using fetched [OF assms] example_page_alloc
    by (simp add: started_fields spool_ok_empty)
      (simp add: example_command_def fits_empty SPOOL_DATA_SIZE_def np)
qed





text \<open>
  (C39) Chaining skips commands: after a write at address \<open>a\<close> that chains to the next command,
  the command that is fetched next is the one at \<open>a + 16\<close>, and the one at \<open>a + 8\<close> is
  never executed.
\<close>

theorem command_chain_skips:
  assumes "writes i c f rs s st" and "c_flags c AND CCW_FLAG_CC \<noteq> 0"
    and "memcpy_from_guest (xlate s) (ucast (c_addr c)) (unat (c_count c)) (storage s) = (None, bs)"
  shows "\<exists>s' st'. exec_loop (exec_rounds s) i s st = exec_loop (exec_rounds s - 1) i s' st'
    \<and> st_addr st' = (st_addr st + 16) AND 0x7fffffff"
proof -
  have "length bs \<le> length (iobuf st)" using memcpy_length [OF assms(3)] assms(1) by (simp add: writes_def)
  from writes_round [OF assms(1,3) this] assms(2) obtain s' st' where r: "exec_round i s st = Ok (True, s', st')"
    "st_addr st' = (st_addr st + 16) AND 0x7fffffff" by auto
  have "exec_rounds s = Suc (exec_rounds s - 1)" by (simp add: exec_rounds_def)
  then have "exec_loop (exec_rounds s) i s st = exec_loop (exec_rounds s - 1) i s' st'"
    using exec_loop.simps(2) [of "exec_rounds s - 1" i s st] r(1) by simp
  with r(2) show ?thesis by blast
qed

theorem command_chain_skips_witness:
  "\<exists>s' st'. exec_loop (exec_rounds (started_system CCW_FLAG_CC 0x3000)) 0 (started_system CCW_FLAG_CC 0x3000) (started_program CCW_FLAG_CC 0x3000)
       = exec_loop (exec_rounds (started_system CCW_FLAG_CC 0x3000) - 1) 0 s' st' \<and> st_addr st' = 0x2010"
proof -
  have a: "ucast (c_addr (example_command CCW_FLAG_CC 0x3000)) = (0x3000 :: u64)" "unat (c_count (example_command CCW_FLAG_CC 0x3000)) = 3"
    "c_flags (example_command CCW_FLAG_CC 0x3000) AND CCW_FLAG_CC \<noteq> 0" by code_simp+
  have x: "memcpy_from_guest (xlate (started_system CCW_FLAG_CC 0x3000)) 0x3000 3 (storage (started_system CCW_FLAG_CC 0x3000)) = (None, [0x55, 0x55, 0x55])"
    using memcpy_one_page [of "xlate (started_system CCW_FLAG_CC 0x3000)" "0x3000" "0x43000" 3 "storage (started_system CCW_FLAG_CC 0x3000)"]
    by (simp add: started_fields PAGE_MASK_def example_storage)
  have "(0x2000 + 16 :: u32) AND 0x7fffffff = 0x2010" by code_simp
  with command_chain_skips [OF example_writes, of CCW_FLAG_CC "0x3000", unfolded a(1,2), OF _ _ a(3) x] show ?thesis
    by (auto simp: started_fields)
qed

text \<open>
  (C40) A write whose data cannot be fetched is executed all the same: the record appended to the
  file of the guest are the bytes that the storage at the channel buffer, just taken from the
  free storage of the host, happened to hold.
\<close>

theorem unread_data_discloses:
  assumes "exec_start a i s0 = (s, st)" and "writes i c f rs s st" and "c_flags c AND CCW_FLAG_CC = 0"
    and "xlate s (ucast (c_addr c)) = None"
  shows "\<exists>s' st' f'. exec_loop (exec_rounds s) i s st = Some (Ok (s', st'))
    \<and> spooled_file (virt_devs s' ! i) = Some f'
    \<and> spool_ok f' (rs @ [read_bytes (storage s0) a (min (unat (c_count c)) 150)])
    \<and> dev_status st' = SC_STATUS_CE OR SC_STATUS_DE \<and> sch_status st' = SC_PROT_CHK"
proof -
  have b: "iobuf st = read_bytes (storage s0) a 65536" using assms(1) by (auto simp: exec_start_def Let_def upd_dev_def)
  have "unat (c_count c) \<noteq> 0" using assms(2) by (simp add: writes_def unat_eq_0)
  from memcpy_none [of "xlate s", OF assms(4) this]
  have x: "memcpy_from_guest (xlate s) (ucast (c_addr c)) (unat (c_count c)) (storage s) = (Some EFAULT, [])" .
  from writes_round [OF assms(2) x] assms(3) obtain s' st' f' where r: "exec_round i s st = Ok (False, s', st')"
    "spooled_file (virt_devs s' ! i) = Some f'" "spool_ok f' (rs @ [take (min (unat (c_count c)) 150) (iobuf st)])"
    "dev_status st' = SC_STATUS_CE OR SC_STATUS_DE" "sch_status st' = SC_PROT_CHK" by auto
  have "take (min (unat (c_count c)) 150) (iobuf st) = read_bytes (storage s0) a (min (unat (c_count c)) 150)"
    unfolding b by (rule nth_equalityI) simp_all
  moreover have "exec_loop (exec_rounds s) i s st = Some (Ok (s', st'))"
    using r(1) by (simp add: exec_rounds_def)
  ultimately show ?thesis using r(2-5) by (intro exI [of _ s'] exI [of _ st'] exI [of _ f']) simp
qed

theorem unread_data_discloses_witness:
  "\<exists>s' st' f'. exec_loop (exec_rounds (started_system 0 0x4000)) 0 (started_system 0 0x4000) (started_program 0 0x4000) = Some (Ok (s', st'))
     \<and> spooled_file (virt_devs s' ! 0) = Some f' \<and> spool_ok f' [[0x55, 0x55, 0x55]] \<and> sch_status st' = SC_PROT_CHK"
proof -
  have a: "ucast (c_addr (example_command 0 0x4000)) = (0x4000 :: u64)" "unat (c_count (example_command 0 0x4000)) = 3"
    "c_flags (example_command 0 0x4000) AND CCW_FLAG_CC = 0" by code_simp+
  have e: "exec_start 0x8000 0 (console_system 0 0x4000) = (started_system 0 0x4000, started_program 0 0x4000)" by simp
  from unread_data_discloses [OF e example_writes, unfolded a] show ?thesis
    by (auto simp: started_fields(3) example_storage)
qed

text \<open>
  (C18) Attaching a real device either fails and leaves the virtual devices as they were, or adds
  one virtual device for a real device with the number asked for that nobody used, marks it as
  used, and gives it a subchannel number, and a device number if none was asked for, that no
  other virtual device has.
\<close>

theorem guest_attach_correct:
  assumes "guest_attach raw rdev vdev io s = Ok (r, io', s')"
  shows "r \<noteq> None \<and> virt_devs s' = virt_devs s \<or> r = None \<and> attached rdev vdev io s io' s'"
proof -
  define num where "num = (case vdev of Some n \<Rightarrow> Some n
    | None \<Rightarrow> map_option of_nat (free_number (\<lambda>v. pmcw_dev_num (pmcw v)) 0 (virt_devs s)))"
  show ?thesis
  proof (cases "num = None \<or> free_number sch 0x10000 (virt_devs s) = None")
    case True
    with assms show ?thesis by (auto simp: guest_attach_def num_def Let_def split: option.splits)
  next
    case False
    then obtain n c where n: "num = Some n" and c: "free_number sch 0x10000 (virt_devs s) = Some c" by auto
    from assms n c have al: "alloc_virt_dev raw \<lparr>dv_type = VDEV_DED, dv_vdev = n, dv_rdev = rdev, dv_stype = 0, dv_smodel = 0\<rparr>
      (of_nat c) io s = Ok (r, io', s')" by (simp add: guest_attach_def num_def Let_def)
    have c': "0x10000 \<le> c" "c < 0x20000" "\<forall>v \<in> set (virt_devs s). sch v \<noteq> of_nat c" using free_number_Some [OF c] by auto
    have u: "unat (of_nat c :: u32) = c" by (rule unat_of_nat_small) (use c' in simp)
    have num: "case vdev of Some m \<Rightarrow> n = m | None \<Rightarrow> \<forall>w \<in> set (virt_devs s). pmcw_dev_num (pmcw w) \<noteq> ucast n"
    proof (cases vdev)
      case None
      with n obtain k where k: "free_number (\<lambda>v. pmcw_dev_num (pmcw v)) 0 (virt_devs s) = Some k" "n = of_nat k"
        by (auto simp: num_def)
      have "k < 0x10000" using free_number_Some [OF k(1)] by simp
      then have "unat (of_nat k :: u16) = k" by (intro unat_of_nat_small) simp
      then have "(ucast n :: u32) = of_nat k" unfolding k(2) by (metis of_nat_unat)
      with free_number_Some [OF k(1)] None show ?thesis by simp
    qed (use n in \<open>simp add: num_def\<close>)
    have nc: "of_nat c \<notin> sch ` set (virt_devs s)" using c'(3) by auto
    have nd: "case vdev of Some m \<Rightarrow> (ucast n :: u32) = ucast m | None \<Rightarrow> ucast n \<notin> (\<lambda>w. pmcw_dev_num (pmcw w)) ` set (virt_devs s)"
      using num by (cases vdev) auto
    from alloc_ded [OF al] show ?thesis
    proof (elim disjE conjE exE)
      fix v a d
      assume r: "r = None" and v: "pmcw_dev_num (pmcw v) = ucast n" "sch v = of_nat c"
        and rest: "virt_devs s' = virt_devs s @ [v]" "vtype v = VDEV_DED" "backed v = Dedicated a" "dev_at io a = Some d" "ccuu d = rdev"
          "\<not> in_use d" "dev_at io' = (dev_at io)(a \<mapsto> d\<lparr>refcnt := refcnt d + 1, in_use := True\<rparr>)"
          "vd_type v = d_type d" "vd_model v = d_model d" "pmcw_v (pmcw v) = 1"
      have "0x10000 \<le> unat (sch v)" "unat (sch v) < 0x20000" "sch v \<notin> sch ` set (virt_devs s)"
        unfolding v using u c' nc by simp_all
      with nd rest have "attached rdev vdev io s io' s'" unfolding attached_def v(1) [symmetric] by blast
      with r show ?thesis by simp
    qed simp
  qed
qed

text \<open>A machine with one empty slab page above 2 GB, and a guest without devices.\<close>

definition normal_heap :: mem where
  "normal_heap = \<lparr>mm = small_storage, slabs = [0x80000000 \<mapsto> \<lparr>magic = SLAB_MAGIC, slab_pages = [], first = 0x80000000,
     objsize = 256, startoff = 44, nobj = 15, used = 0, bitmap = [0, 0]\<rparr>], generic = replicate 7 (Some 0x80000000)\<rparr>"

lemma free_number_Nil: "free_number f lo [] = Some lo"
  by (auto simp: free_number_def find_Some_iff intro!: exI [of _ 0])

lemma normal_malloc: "\<exists>h. malloc sizeof_virt_device ZONE_NORMAL normal_heap = Ok (Some 0x8000002c, h)"
proof -
  have z: "page_zone 0x80000000 = ZONE_NORMAL"
    by (simp add: page_zone_def ZONE_TYPE_def IS_LOW_ZONE_def page_addr_roundtrip PAGE_MASK_def)
  have f: "find_free_obj [0, 0] [0..<15] = Some 0" by (simp add: upt_conv_Cons obj_used_def)
  show ?thesis
    by (simp add: malloc_def size_class_def sizeof_virt_device_def normal_heap_def alloc_slab_obj_def get_slab_def has_room_def z
        alloc_in_page_def f obj_addr_def)
qed

theorem guest_attach_correct_witness:
  "\<exists>io' s'. guest_attach example_console 0x191 (Some 0x192) example_io ((io_example 0 (\<lambda>_. 0))\<lparr>heap := normal_heap, virt_devs := []\<rparr>)
       = Ok (None, io', s')
     \<and> attached 0x191 (Some 0x192) example_io ((io_example 0 (\<lambda>_. 0))\<lparr>heap := normal_heap, virt_devs := []\<rparr>) io' s'"
proof -
  let ?s = "(io_example 0 (\<lambda>_. 0))\<lparr>heap := normal_heap, virt_devs := []\<rparr>"
  have c: "free_number sch 0x10000 [] = Some 0x10000" by (rule free_number_Nil)
  obtain h where h: "malloc sizeof_virt_device ZONE_NORMAL normal_heap = Ok (Some 0x8000002c, h)" using normal_malloc by blast
  have "\<exists>io' s'. guest_attach example_console 0x191 (Some 0x192) example_io ?s = Ok (None, io', s')"
    by (simp add: guest_attach_def c alloc_virt_dev_def h setup_vdev_ded_def find_device_by_ccuu_def example_io_def example_device_def
        get_dev_def dev_get_def put_dev_def Let_def)
  then obtain io' s' where g: "guest_attach example_console 0x191 (Some 0x192) example_io ?s = Ok (None, io', s')" by blast
  from guest_attach_correct [OF g] g show ?thesis by blast
qed

end
