(* ===== verification/Spec2Isabelle.thy ===== *)
theory Spec2Isabelle
  imports Slab Ebcdic Clock Vsprintf Disassm Ldep Sched Mutex Channel_Progs
begin

text \<open>
  A verification library for HVF, a hypervisor for z/Architecture.  The control program under
  \<^verbatim>\<open>src/cp\<close> runs guests on virtual machines; \<^verbatim>\<open>src/lib\<close> and \<^verbatim>\<open>src/include\<close> hold the routines
  it shares with the loaders.  The parts and how they use each other: storage comes from a page
  allocator, objects from an allocator on top of it; tasks are switched by a scheduler whose
  queues are the lists of \<^verbatim>\<open>list.h\<close>, and they exclude each other with spinlocks and mutexes.  A
  guest is a task with a virtual processor, storage mapped by tables of its own, and virtual
  devices; its I/O instructions are intercepted and run channel programs that move records in
  and out of spool files.  Text goes through the formatting and string routines, and the shell
  prints guest storage through the disassembler.

  The theories, in the order they build on each other:

  \<^item> \<open>Prelude\<close>: machine words, the result type \<open>'a result\<close> in which every stop of
    the code (a pointer that is not valid, a read outside of an object, a \<^verbatim>\<open>BUG_ON\<close>) is
    a value, and the error numbers of \<^verbatim>\<open>include/errno.h\<close>.
  \<^item> \<open>Linked_List\<close>: \<^verbatim>\<open>include/list.h\<close> on an explicit store of next and previous
    pointers, what each operation does to the sequence a list holds, and what is lost when an
    entry is added that is on the list already.
  \<^item> \<open>Pages\<close>, \<open>Buddy\<close>: \<^verbatim>\<open>cp/include/page.h\<close>, \<^verbatim>\<open>cp/mm/page.c\<close>, \<^verbatim>\<open>cp/mm/buddy.c\<close>.  The
    state is the two tables of free lists; the lemmas relate them to the multiset of free
    frames, through the locale of a page allocator.
  \<^item> \<open>Slab\<close>: \<^verbatim>\<open>cp/mm/slab.c\<close>, slab pages with their bitmaps, \<^verbatim>\<open>malloc\<close> and
    \<^verbatim>\<open>free\<close>; the invariant \<open>heap_ok\<close> and the set of live objects.
  \<^item> \<open>Cstring\<close>: \<^verbatim>\<open>lib/string.c\<close>, \<^verbatim>\<open>include/string.h\<close>, \<^verbatim>\<open>cp/nucleus/util.c\<close>.  Pointers are
    the bytes up to the end of their object.
  \<^item> \<open>Ebcdic\<close>, \<open>Clock\<close>: the translation tables of \<^verbatim>\<open>lib/ascii.c\<close> and
    \<^verbatim>\<open>lib/ebcdic.c\<close>, and the calendar of \<^verbatim>\<open>lib/clock.c\<close>.
  \<^item> \<open>Vsprintf\<close>, \<open>Format_Text\<close>: \<^verbatim>\<open>lib/vsprintf.c\<close>; what a call prints does not
    depend on its buffer, and rules for the text of a whole format string.
  \<^item> \<open>Spool\<close>: \<^verbatim>\<open>cp/fs/spool.c\<close>, a queue of records over a list of pages; the
    relation \<open>spool_ok\<close> ties a file to the queue it stands for, and the operations refine
    enqueue and dequeue.
  \<^item> \<open>Inst_Tables\<close>, \<open>Disassm\<close>: \<^verbatim>\<open>cp/shell/disassm.c\<close>; the text of an
    instruction is specified on its half bytes, and the code is shown to print it.
  \<^item> \<open>Atomic\<close>: the compare-and-swap loops of \<^verbatim>\<open>cp/include/atomic.h\<close> and the spinlocks of
    \<^verbatim>\<open>cp/include/spinlock.h\<close> and \<^verbatim>\<open>cp/nucleus/spinlock.c\<close>.  What other processors store
    between two tries is a list of values; the loops are shown to be one atomic step.
  \<^item> \<open>Ldep\<close>: the tracker of held locks, \<^verbatim>\<open>cp/nucleus/ldep.c\<close>, with the texts it writes as
    messages: what nested locks do, and where it loses or overruns its stack.
  \<^item> \<open>Dat\<close>: the translation tables of a guest, \<^verbatim>\<open>cp/mm/dat.c\<close>, \<^verbatim>\<open>cp/include/dat.h\<close> and
    \<open>alloc_guest_storage\<close> of \<^verbatim>\<open>cp/guest/init.c\<close>, as words in storage with the bit fields of
    their entries; the lemmas say which addresses a table walk maps where, and that the
    storage of a guest is its own.  Copies to and from a guest take the translation done by
    the hardware as a parameter.
  \<^item> \<open>Sched\<close>: tasks, the run queue, context switches, supervisor calls and the timer
    (\<^verbatim>\<open>cp/nucleus/sched.c\<close>, \<^verbatim>\<open>svc.c\<close>, \<^verbatim>\<open>ext.c\<close>); the invariant \<open>sched_ok\<close> under every
    event, fairness, and the registers of a task kept across switches.
  \<^item> \<open>Mutex\<close>: \<^verbatim>\<open>cp/nucleus/mutex.c\<close> and \<^verbatim>\<open>cp/include/mutex.h\<close> as the steps the tasks take
    one by one; exclusion in every interleaving, and the double wake-up.
  \<^item> \<open>Guest\<close>: the virtual machine (\<^verbatim>\<open>cp/include/vcpu.h\<close>, \<^verbatim>\<open>sie.h\<close>, \<^verbatim>\<open>vdevice.h\<close>, the
    structures of \<^verbatim>\<open>include/channel.h\<close>), starting, stopping, resets, and the queues of I/O
    interruptions (\<^verbatim>\<open>cp/guest/system.c\<close>, \<^verbatim>\<open>exception.c\<close>, \<^verbatim>\<open>reset.c\<close>, \<^verbatim>\<open>run.c\<close>).
  \<^item> \<open>Device\<close>: real devices, \<^verbatim>\<open>cp/drivers/device.c\<close>, the queue of operations of
    \<^verbatim>\<open>cp/nucleus/io.c\<close>, and the geometry of disks in \<^verbatim>\<open>cp/drivers/dasd.c\<close>; requests and
    interruptions are events, and what the channel subsystem answers is part of the event.
  \<^item> \<open>Channel\<close>: virtual I/O, \<^verbatim>\<open>cp/guest/instruction_priv.c\<close>, \<^verbatim>\<open>instruction.c\<close>,
    \<^verbatim>\<open>intercept.c\<close>, \<^verbatim>\<open>run.c\<close>, \<^verbatim>\<open>attach.c\<close>, \<^verbatim>\<open>cp/drivers/vdevice.c\<close>, \<^verbatim>\<open>spooldev.c\<close> and
    \<^verbatim>\<open>spooldev_cons.c\<close>; the I/O instructions refine the state machine \<open>subch_step\<close>, and
    the invariant \<open>sys_ok\<close> holds along every run \<open>guest_run\<close> of a guest.
  \<^item> \<open>Channel_Progs\<close>: channel programs on spooled devices end to end: every one
    ends, what a write to the console does, what goes wrong with chained commands and with data
    that cannot be fetched; and what attaching a real device to a guest does.

  Loops are structural recursion where the code counts.  \<open>format_loop\<close>, \<open>append_pages\<close>,
  \<open>grab_loop\<close> and \<open>exec_loop\<close> take fuel, with lemmas that the fuel given by their callers is
  enough: the length of the format, the size of the record and of the file, and for channel
  programs \<open>exec_rounds\<close>, as every second command that goes on uses up spool storage.
  The copy loops of \<open>Dat\<close> take as many rounds as there are bytes, since each copies at least
  one.  \<open>day_loop\<close> of the calendar is a partial function that is proved to return.  The loops
  of \<open>Atomic\<close> return when the list of what others store is used up.  Operations the code runs
  under a spinlock or a mutex are one step, except in \<open>Atomic\<close> and \<open>Mutex\<close>, which are about
  the locks.

  Parameters stand for what the code does not define: the translation instruction, the answers
  of the channel subsystem, the guest's execution between two intercepts (SIE), and what freshly
  allocated storage holds.  \<^verbatim>\<open>con_printf\<close> formats a text and drops it, so it has no part in
  the model.

  Not modelled: the build tools under \<^verbatim>\<open>src/build\<close> (byacc and re2c, third-party programs) and
  the parsers they generate for the configuration and the directory; the loader, the installer
  and the guest programs under \<^verbatim>\<open>src/nss\<close>, which are programs of their own; code in assembler;
  of the control program the console driver, the reading of the file system
  (\<^verbatim>\<open>cp/fs/edf.c\<close>, \<^verbatim>\<open>bcache.c\<close>, \<^verbatim>\<open>bdev.c\<close>), the scan for devices and the building of the
  channel programs for real devices, the commands of the shell, \<^verbatim>\<open>cp/guest/ipl.c\<close>, start-up
  and the machine check and program check handlers, whose effect is privileged instructions,
  device I/O or messages.
\<close>

end
